(* ===== verification/Prelude.thy ===== *)
theory Prelude
  imports Main "HOL-Library.Word" "HOL-Library.Multiset" "HOL-Library.Sublist"
begin

text \<open>
  Shared vocabulary of the development.  Python exceptions are the values of
  the datatype \<open>py_error\<close>, a fallible Python function returns
  \<open>py_error + 'a\<close> (\<open>Inl\<close> the exception raised), and \<open>rbind\<close> sequences two such
  computations.  Python's floor division is HOL's \<open>div\<close> on \<open>int\<close>; the helpers of
  \<^verbatim>\<open>vllm/utils/math_utils.py\<close> are defined on it.
\<close>

section \<open>Exceptions as values\<close>

datatype py_error =
    AssertionError
  | ValueError
  | RuntimeError
  | IndexError
  | KeyError
  | OverflowError
  | ZeroDivisionError
  | NotImplementedError
  | TypeError
  | AttributeError
  | StopIteration

type_synonym 'a result = "py_error + 'a"

fun rbind :: "'a result \<Rightarrow> ('a \<Rightarrow> 'b result) \<Rightarrow> 'b result" where
  "rbind (Inl e) f = Inl e"
| "rbind (Inr x) f = f x"

text \<open>\<open>py_assert b r\<close> is the statement \<^verbatim>\<open>assert b\<close> followed by \<open>r\<close>.\<close>

definition py_assert :: "bool \<Rightarrow> 'a result \<Rightarrow> 'a result" where
  "py_assert b r = (if b then r else Inl AssertionError)"

text \<open>A \<^verbatim>\<open>for\<close> loop over a list whose body may raise.\<close>

fun rfold :: "('a \<Rightarrow> 's \<Rightarrow> 's result) \<Rightarrow> 'a list \<Rightarrow> 's \<Rightarrow> 's result" where
  "rfold f [] s = Inr s"
| "rfold f (x # xs) s = rbind (f x s) (rfold f xs)"

text \<open>A \<^verbatim>\<open>for\<close> loop that returns \<open>False\<close> at the first element whose check fails, and
  \<open>True\<close> after the last one.\<close>

fun rall :: "('a \<Rightarrow> bool result) \<Rightarrow> 'a list \<Rightarrow> bool result" where
  "rall f [] = Inr True"
| "rall f (x # xs) = rbind (f x) (\<lambda>b. if b then rall f xs else Inr False)"

text \<open>Python's \<^verbatim>\<open>bytes\<close>.\<close>

type_synonym bytes = "8 word list"

section \<open>Integer helpers of math_utils\<close>

definition cdiv :: "int \<Rightarrow> int \<Rightarrow> int" where
  "cdiv a b = - (a div (- b))"

definition round_up :: "int \<Rightarrow> int \<Rightarrow> int" where
  "round_up x y = ((x + y - 1) div y) * y"

definition round_down :: "int \<Rightarrow> int \<Rightarrow> int" where
  "round_down x y = (x div y) * y"

section \<open>Python sequence indexing\<close>

text \<open>\<^verbatim>\<open>xs[i]\<close>: a negative index counts from the end, anything else raises.\<close>

definition py_index :: "'a list \<Rightarrow> int \<Rightarrow> 'a result" where
  "py_index xs i =
    (if 0 \<le> i \<and> i < int (length xs) then Inr (xs ! nat i)
     else if i < 0 \<and> - i \<le> int (length xs) then Inr (xs ! nat (int (length xs) + i))
     else Inl IndexError)"

text \<open>The bound of a slice: negative bounds count from the end, then clip.\<close>

definition slice_bound :: "nat \<Rightarrow> int \<Rightarrow> nat" where
  "slice_bound n i = (if i < 0 then nat (int n + i) else min n (nat i))"

definition py_slice :: "'a list \<Rightarrow> int \<Rightarrow> int \<Rightarrow> 'a list" where
  "py_slice xs i j =
    (let a = slice_bound (length xs) i; b = slice_bound (length xs) j
     in take (b - a) (drop a xs))"

definition py_from :: "'a list \<Rightarrow> int \<Rightarrow> 'a list" where
  "py_from xs i = drop (slice_bound (length xs) i) xs"

definition py_upto :: "'a list \<Rightarrow> int \<Rightarrow> 'a list" where
  "py_upto xs j = take (slice_bound (length xs) j) xs"

section \<open>Shared lemmas\<close>

named_theorems py_simps

lemmas [py_simps] = py_assert_def

lemma rbind_eq_Inr [simp]: "rbind m f = Inr y \<longleftrightarrow> (\<exists>x. m = Inr x \<and> f x = Inr y)"
  by (cases m) auto

lemma py_assert_eq_Inr [simp]: "py_assert b r = Inr y \<longleftrightarrow> b \<and> r = Inr y"
  by (simp add: py_assert_def)

lemma py_assert_True [simp]: "b \<Longrightarrow> py_assert b r = r"
  by (simp add: py_assert_def)

lemma rfold_append: "rfold f (xs @ ys) s = rbind (rfold f xs s) (rfold f ys)"
proof (induction xs arbitrary: s)
  case (Cons x xs)
  then show ?case by (cases "f x s") simp_all
qed simp

lemma rfold_invariant:
  assumes "rfold f xs s = Inr s'" "I s"
    and "\<And>x s s'. x \<in> set xs \<Longrightarrow> I s \<Longrightarrow> f x s = Inr s' \<Longrightarrow> I s'"
  shows "I s'"
  using assms
proof (induction xs arbitrary: s)
  case (Cons x xs)
  then obtain s1 where "f x s = Inr s1" "rfold f xs s1 = Inr s'" by auto
  with Cons show ?case by (meson list.set_intros)
qed simp

lemma rfold_collect:
  "(\<And>x. x \<in> set l \<Longrightarrow> f x = Inr (g x)) \<Longrightarrow>
    rfold (\<lambda>x acc. rbind (f x) (\<lambda>h. Inr (acc @ [h]))) l acc = Inr (acc @ map g l)"
  by (induction l arbitrary: acc) auto

lemma rall_total: "(\<And>x. x \<in> set xs \<Longrightarrow> f x = Inr (P x)) \<Longrightarrow> rall f xs = Inr (\<forall>x \<in> set xs. P x)"
  by (induction xs) auto

lemma cdiv_alt: "cdiv a b = - ((- a) div b)"
  by (simp add: cdiv_def div_minus_right)

lemma cdiv_bounds:
  assumes "0 < b"
  shows "a \<le> cdiv a b * b" "cdiv a b * b < a + b"
proof -
  have "(- a) div b * b + (- a) mod b = - a" by (rule div_mult_mod_eq)
  moreover have "0 \<le> (- a) mod b" "(- a) mod b < b" using assms by auto
  ultimately show "a \<le> cdiv a b * b" "cdiv a b * b < a + b"
    unfolding cdiv_alt minus_mult_left [symmetric] by linarith+
qed

lemma int_le_div_iff:
  assumes "0 < (b :: int)"
  shows "k \<le> a div b \<longleftrightarrow> k * b \<le> a"
proof
  assume "k \<le> a div b"
  then have "k * b \<le> a div b * b" using assms by simp
  also have "\<dots> \<le> a" using div_mult_mod_eq [of a b] pos_mod_sign [OF assms, of a] by linarith
  finally show "k * b \<le> a" .
next
  assume "k * b \<le> a"
  then have "k * b div b \<le> a div b" using assms by (rule zdiv_mono1)
  then show "k \<le> a div b" using assms by simp
qed

lemma cdiv_le_iff:
  assumes "0 < b"
  shows "cdiv a b \<le> k \<longleftrightarrow> a \<le> k * b"
proof
  assume "cdiv a b \<le> k"
  then have "cdiv a b * b \<le> k * b" using assms by simp
  then show "a \<le> k * b" using cdiv_bounds(1) [OF assms, of a] by simp
next
  assume "a \<le> k * b"
  then have "cdiv a b * b < (k + 1) * b"
    using cdiv_bounds(2) [OF assms, of a] by (simp add: distrib_right)
  then show "cdiv a b \<le> k" using assms by (simp add: mult_less_cancel_right)
qed

lemma cdiv_mono: "0 < b \<Longrightarrow> a \<le> a' \<Longrightarrow> cdiv a b \<le> cdiv a' b"
  using cdiv_bounds(1) [of b a'] by (simp add: cdiv_le_iff)

lemma cdiv_nonneg: "0 < b \<Longrightarrow> 0 \<le> a \<Longrightarrow> 0 \<le> cdiv a b"
  using cdiv_mono [of b 0 a] by (simp add: cdiv_def)

lemma round_down_bounds:
  assumes "0 < y"
  shows "round_down x y \<le> x" "x < round_down x y + y" "y dvd round_down x y"
proof -
  have "x div y * y + x mod y = x" by (rule div_mult_mod_eq)
  moreover have "0 \<le> x mod y" "x mod y < y" using assms by auto
  ultimately show "round_down x y \<le> x" "x < round_down x y + y" "y dvd round_down x y"
    unfolding round_down_def by (linarith, linarith, simp)
qed

lemma round_up_eq_cdiv:
  assumes "0 < y"
  shows "round_up x y = cdiv x y * y"
proof -
  have d: "(x + y - 1) div y * y + (x + y - 1) mod y = x + y - 1" by (rule div_mult_mod_eq)
  have m: "0 \<le> (x + y - 1) mod y" "(x + y - 1) mod y < y" using assms by auto
  have "cdiv x y \<le> (x + y - 1) div y"
    unfolding cdiv_le_iff [OF assms] using d m by linarith
  moreover have "(x + y - 1) div y * y < (cdiv x y + 1) * y"
    unfolding distrib_right using d m cdiv_bounds(1) [OF assms, of x] by linarith
  then have "(x + y - 1) div y \<le> cdiv x y" using assms by (simp add: mult_less_cancel_right)
  ultimately show ?thesis by (simp add: round_up_def)
qed

lemma py_index_nat [simp]: "n < length xs \<Longrightarrow> py_index xs (int n) = Inr (xs ! n)"
  by (simp add: py_index_def)

lemma py_from_nat [simp]: "0 \<le> i \<Longrightarrow> py_from xs i = drop (nat i) xs"
  by (simp add: py_from_def slice_bound_def min_def)

lemma py_upto_nat [simp]: "0 \<le> i \<Longrightarrow> py_upto xs i = take (nat i) xs"
  by (simp add: py_upto_def slice_bound_def min_def)

lemma py_slice_nat: "0 \<le> i \<Longrightarrow> 0 \<le> j \<Longrightarrow> py_slice xs i j = take (nat j - nat i) (drop (nat i) xs)"
  by (auto simp: py_slice_def slice_bound_def min_def Let_def)

lemma length_py_slice_le: "length (py_slice xs i j) \<le> length xs"
  by (simp add: py_slice_def Let_def)

section \<open>Postconditions of fallible code\<close>

definition ok_res :: "('a \<Rightarrow> bool) \<Rightarrow> 'a result \<Rightarrow> bool" where
  "ok_res Q res \<longleftrightarrow> (\<forall>y. res = Inr y \<longrightarrow> Q y)"

lemma ok_Inl [simp]: "ok_res Q (Inl e)" and ok_Inr [simp]: "ok_res Q (Inr y) \<longleftrightarrow> Q y"
  by (simp_all add: ok_res_def)

lemma ok_bind: "ok_res P a \<Longrightarrow> (\<And>x. P x \<Longrightarrow> ok_res Q (f x)) \<Longrightarrow> ok_res Q (rbind a f)"
  by (cases a) (simp_all add: ok_res_def)

lemma ok_bind2: "ok_res (\<lambda>(x, y). P x y) a \<Longrightarrow> (\<And>x y. P x y \<Longrightarrow> ok_res Q (f x y)) \<Longrightarrow> ok_res Q (rbind a (\<lambda>(x, y). f x y))"
  by (erule ok_bind) auto

lemma ok_if: "(c \<Longrightarrow> ok_res Q a) \<Longrightarrow> (\<not> c \<Longrightarrow> ok_res Q b) \<Longrightarrow> ok_res Q (if c then a else b)"
  by simp

lemma ok_resD: "ok_res Q res \<Longrightarrow> res = Inr y \<Longrightarrow> Q y"
  by (simp add: ok_res_def)

end
