(* ===== verification/Request.thy ===== *)
theory Request
  imports Prelude Complex_Main "HOL-Library.List_Lexorder" "HOL-Library.Char_ord"
    "HOL-Library.Product_Lexorder"
begin

text \<open>
  The request object of \<^verbatim>\<open>vllm/v1/request.py\<close> with its status machine and ordering,
  the multi-modal placeholder arithmetic it carries
  (\<^verbatim>\<open>vllm/multimodal/inputs.py\<close>), and the stop checks of
  \<^verbatim>\<open>vllm/v1/core/sched/utils.py\<close>.  The main results: the order of requests used
  by priority scheduling is a strict total order on distinct requests, the
  repetition detector finds exactly the outputs that end in a repeated word,
  and \<open>check_stop\<close> sets a finished status exactly when it reports a stop.
\<close>

section \<open>RequestStatus\<close>

datatype request_status =
    WAITING
  | WAITING_FOR_STRUCTURED_OUTPUT_GRAMMAR
  | WAITING_FOR_REMOTE_KVS
  | WAITING_FOR_STREAMING_REQ
  | RUNNING
  | PREEMPTED
  | FINISHED_STOPPED
  | FINISHED_LENGTH_CAPPED
  | FINISHED_ABORTED
  | FINISHED_IGNORED
  | FINISHED_ERROR
  | FINISHED_REPETITION

text \<open>\<^verbatim>\<open>enum.auto()\<close> numbers the members from 1 in order of declaration.\<close>

fun status_value :: "request_status \<Rightarrow> int" where
  "status_value WAITING = 1"
| "status_value WAITING_FOR_STRUCTURED_OUTPUT_GRAMMAR = 2"
| "status_value WAITING_FOR_REMOTE_KVS = 3"
| "status_value WAITING_FOR_STREAMING_REQ = 4"
| "status_value RUNNING = 5"
| "status_value PREEMPTED = 6"
| "status_value FINISHED_STOPPED = 7"
| "status_value FINISHED_LENGTH_CAPPED = 8"
| "status_value FINISHED_ABORTED = 9"
| "status_value FINISHED_IGNORED = 10"
| "status_value FINISHED_ERROR = 11"
| "status_value FINISHED_REPETITION = 12"

definition status_is_finished :: "request_status \<Rightarrow> bool" where
  "status_is_finished s \<longleftrightarrow> status_value s > status_value PREEMPTED"

datatype finish_reason = FR_STOP | FR_LENGTH | FR_ABORT | FR_ERROR | FR_REPETITION

fun get_finished_reason :: "request_status \<Rightarrow> finish_reason option" where
  "get_finished_reason FINISHED_STOPPED = Some FR_STOP"
| "get_finished_reason FINISHED_LENGTH_CAPPED = Some FR_LENGTH"
| "get_finished_reason FINISHED_ABORTED = Some FR_ABORT"
| "get_finished_reason FINISHED_IGNORED = Some FR_LENGTH"
| "get_finished_reason FINISHED_ERROR = Some FR_ERROR"
| "get_finished_reason WAITING_FOR_STREAMING_REQ = Some FR_STOP"
| "get_finished_reason FINISHED_REPETITION = Some FR_REPETITION"
| "get_finished_reason _ = None"

section \<open>Multi-modal features\<close>

record placeholder_range =
  mm_offset :: int
  mm_length :: int
  mm_is_embed :: "bool list option"

fun cumsum_from :: "int \<Rightarrow> bool list \<Rightarrow> int list" where
  "cumsum_from a [] = []"
| "cumsum_from a (b # bs) = (let a' = a + of_bool b in a' # cumsum_from a' bs)"

definition embeds_cumsum :: "placeholder_range \<Rightarrow> int list option" where
  "embeds_cumsum p = map_option (cumsum_from 0) (mm_is_embed p)"

definition get_num_embeds :: "placeholder_range \<Rightarrow> int" where
  "get_num_embeds p =
    (case embeds_cumsum p of
       None \<Rightarrow> mm_length p
     | Some c \<Rightarrow> if c = [] then 0 else last c)"

definition get_embeds_indices_in_range :: "placeholder_range \<Rightarrow> int \<Rightarrow> int \<Rightarrow> (int \<times> int) result" where
  "get_embeds_indices_in_range p start_idx end_idx =
    (case embeds_cumsum p of
       None \<Rightarrow> Inr (start_idx, end_idx)
     | Some c \<Rightarrow>
         rbind (if start_idx > 0 then py_index c (start_idx - 1) else Inr 0) (\<lambda>s.
         rbind (if end_idx > 0 then py_index c (end_idx - 1) else Inr 0) (\<lambda>e.
           Inr (s, e))))"

record mm_feature =
  mm_identifier :: string
  mm_position :: placeholder_range

section \<open>Request\<close>

record repetition_params =
  max_pattern_size :: int
  min_pattern_size :: int
  min_count :: int

record sampling_params =
  sp_max_tokens :: "int option"
  sp_min_tokens :: int
  sp_eos_token_id :: "int option"
  sp_stop_token_ids :: "int list option"
  sp_repetition_detection :: "repetition_params option"
  sp_skip_reading_prefix_cache :: "bool option"
  sp_structured_outputs :: bool

record pooling_params =
  pp_skip_reading_prefix_cache :: "bool option"

record lora_request =
  lora_name :: string
  lora_int_id :: int

datatype stop_reason = StopToken int | StopText string

text \<open>Rows of \<^verbatim>\<open>prompt_embeds\<close> are kept as their raw bytes, which is all that is
  ever read of them.  \<open>obj_id\<close> is Python's \<^verbatim>\<open>id()\<close> of the object.\<close>

record request =
  request_id :: string
  obj_id :: int
  priority :: int
  arrival_time :: rat
  rq_sampling_params :: "sampling_params option"
  rq_pooling_params :: "pooling_params option"
  rq_lora_request :: "lora_request option"
  use_structured_output :: bool
  status :: request_status
  rq_stop_reason :: "stop_reason option"
  max_tokens :: int
  prompt_token_ids :: "int list option"
  prompt_embeds :: "bytes list option"
  num_prompt_tokens :: int
  output_token_ids :: "int list"
  all_token_ids :: "int list"
  num_output_placeholders :: int
  spec_token_ids :: "int list"
  num_computed_tokens :: int
  cache_salt :: "string option"
  mm_features :: "mm_feature list"
  is_prefill_chunk :: bool
  num_preemptions :: int
  rq_block_hashes :: "bytes list"
  prompt_embeds_per_block_hashes :: "int \<times> int \<Rightarrow> bytes option"
  skip_reading_prefix_cache :: bool
  resumable :: bool

definition num_tokens :: "request \<Rightarrow> int" where
  "num_tokens r = int (length (all_token_ids r))"

definition num_tokens_with_spec :: "request \<Rightarrow> int" where
  "num_tokens_with_spec r = int (length (all_token_ids r)) + int (length (spec_token_ids r))"

definition num_output_tokens :: "request \<Rightarrow> int" where
  "num_output_tokens r = int (length (output_token_ids r))"

definition num_encoder_inputs :: "request \<Rightarrow> int" where
  "num_encoder_inputs r = int (length (mm_features r))"

definition has_encoder_inputs :: "request \<Rightarrow> bool" where
  "has_encoder_inputs r \<longleftrightarrow> num_encoder_inputs r > 0"

definition get_skip_reading_prefix_cache :: "sampling_params option \<Rightarrow> pooling_params option \<Rightarrow> bool" where
  "get_skip_reading_prefix_cache sp pp =
    (case Option.bind sp sp_skip_reading_prefix_cache of
       Some b \<Rightarrow> b
     | None \<Rightarrow> (case Option.bind pp pp_skip_reading_prefix_cache of Some b \<Rightarrow> b | None \<Rightarrow> False))"

definition is_finished :: "request \<Rightarrow> bool" where
  "is_finished r = status_is_finished (status r)"

definition get_num_encoder_embeds :: "request \<Rightarrow> int \<Rightarrow> int result" where
  "get_num_encoder_embeds r input_id =
    py_assert (input_id < int (length (mm_features r)))
      (rbind (py_index (mm_features r) input_id) (\<lambda>f. Inr (get_num_embeds (mm_position f))))"

definition length_from_prompt_token_ids_or_embeds ::
  "int list option \<Rightarrow> bytes list option \<Rightarrow> int result" where
  "length_from_prompt_token_ids_or_embeds toks embeds =
    (case map_option length toks of
       None \<Rightarrow> (case map_option length embeds of None \<Rightarrow> Inl ValueError | Some e \<Rightarrow> Inr (int e))
     | Some t \<Rightarrow>
         (case map_option length embeds of
            None \<Rightarrow> Inr (int t)
          | Some e \<Rightarrow> if e \<noteq> t then Inl ValueError else Inr (int t)))"

text \<open>The block hasher installed in a request gives the list of new hashes, and the
  request with its memo of embedding hashes filled; \<open>None\<close> stands for a hasher
  that does not return.\<close>

type_synonym block_hasher = "request \<Rightarrow> (bytes list \<times> request) result option"

definition update_block_hashes :: "block_hasher option \<Rightarrow> request \<Rightarrow> request result option" where
  "update_block_hashes hasher r =
    (case hasher of
       None \<Rightarrow> Some (Inr r)
     | Some h \<Rightarrow> map_option (\<lambda>res. rbind res (\<lambda>(hs, r). Inr (r\<lparr>rq_block_hashes := rq_block_hashes r @ hs\<rparr>))) (h r))"

definition append_output_token_ids :: "block_hasher option \<Rightarrow> int list \<Rightarrow> request \<Rightarrow> request result option" where
  "append_output_token_ids hasher toks r =
    update_block_hashes hasher
      (r\<lparr>output_token_ids := output_token_ids r @ toks, all_token_ids := all_token_ids r @ toks\<rparr>)"

text \<open>The constructor, for the fields modelled.  The order of its checks is the
  code's: the token limit first, then the prompt lengths.\<close>

definition new_request ::
  "block_hasher option \<Rightarrow> string \<Rightarrow> int \<Rightarrow> int list option \<Rightarrow> sampling_params option \<Rightarrow> pooling_params option \<Rightarrow>
   rat \<Rightarrow> bytes list option \<Rightarrow> mm_feature list option \<Rightarrow> lora_request option \<Rightarrow> string option \<Rightarrow> int \<Rightarrow> bool \<Rightarrow>
   request result option" where
  "new_request hasher rid oid toks sp pp arrival embeds mm lora salt prio resum =
    (let limits =
      (case (pp, sp) of
         (Some _, _) \<Rightarrow> Inr (1, WAITING)
       | (None, Some s) \<Rightarrow>
           (case sp_max_tokens s of
              None \<Rightarrow> Inl AssertionError
            | Some m \<Rightarrow> Inr (m, if sp_structured_outputs s
                               then WAITING_FOR_STRUCTURED_OUTPUT_GRAMMAR else WAITING))
       | (None, None) \<Rightarrow> Inl ValueError)
     in case limits of
       Inl e \<Rightarrow> Some (Inl e)
     | Inr (maxt, st) \<Rightarrow>
        (case length_from_prompt_token_ids_or_embeds toks embeds of
           Inl e \<Rightarrow> Some (Inl e)
         | Inr n \<Rightarrow> update_block_hashes hasher
            \<lparr>request_id = rid, obj_id = oid, priority = prio, arrival_time = arrival,
             rq_sampling_params = sp, rq_pooling_params = pp, rq_lora_request = lora,
             use_structured_output = (case sp of None \<Rightarrow> False | Some s \<Rightarrow> sp_structured_outputs s),
             status = st, rq_stop_reason = None, max_tokens = maxt,
             prompt_token_ids = toks, prompt_embeds = embeds, num_prompt_tokens = n,
             output_token_ids = [],
             all_token_ids = (case toks of Some t \<Rightarrow> t | None \<Rightarrow> replicate (nat n) 0),
             num_output_placeholders = 0, spec_token_ids = [], num_computed_tokens = 0,
             cache_salt = salt, mm_features = (case mm of None \<Rightarrow> [] | Some m \<Rightarrow> m),
             is_prefill_chunk = False, num_preemptions = 0, rq_block_hashes = [],
             prompt_embeds_per_block_hashes = (\<lambda>_. None),
             skip_reading_prefix_cache = get_skip_reading_prefix_cache sp pp,
             resumable = resum\<rparr>))"

definition request_lt :: "request \<Rightarrow> request \<Rightarrow> bool" where
  "request_lt a b =
    (if priority a \<noteq> priority b then priority a < priority b
     else if arrival_time a \<noteq> arrival_time b then arrival_time a < arrival_time b
     else if request_id a \<noteq> request_id b then request_id a < request_id b
     else obj_id a < obj_id b)"

section \<open>Stop checks\<close>

definition has_repeating_pattern :: "int list \<Rightarrow> int \<Rightarrow> int \<Rightarrow> bool result" where
  "has_repeating_pattern token_ids pattern_len repetition_min_count =
    rall (\<lambda>n. rbind (py_index token_ids (- n)) (\<lambda>target_token.
      rall (\<lambda>m. rbind (py_index token_ids (- (pattern_len * m + n))) (\<lambda>t. Inr (t = target_token)))
        [1..repetition_min_count - 1]))
      [1..pattern_len]"

fun repetition_loop :: "int list \<Rightarrow> int \<Rightarrow> int list \<Rightarrow> bool result" where
  "repetition_loop token_ids cnt [] = Inr False"
| "repetition_loop token_ids cnt (pattern_len # rest) =
    (if pattern_len * cnt > int (length token_ids) then Inr False
     else rbind (has_repeating_pattern token_ids pattern_len cnt) (\<lambda>b.
       if b then Inr True else repetition_loop token_ids cnt rest))"

definition check_sequence_repetition :: "int list \<Rightarrow> repetition_params \<Rightarrow> bool result" where
  "check_sequence_repetition token_ids params =
    (let min_p = (if min_pattern_size params \<le> 0 then 1 else min_pattern_size params) in
     if max_pattern_size params \<le> 0 \<or> min_count params < 2 \<or> min_p > max_pattern_size params
     then Inr False
     else repetition_loop token_ids (min_count params) [min_p..max_pattern_size params])"

definition remove_all :: "'a list \<Rightarrow> 'a list \<Rightarrow> 'a list" where
  "remove_all lst items =
    (case items of
       [] \<Rightarrow> lst
     | [x] \<Rightarrow> remove1 x lst
     | _ \<Rightarrow> filter (\<lambda>x. x \<notin> set items) lst)"

definition check_stop :: "request \<Rightarrow> int \<Rightarrow> (bool \<times> request) result" where
  "check_stop r max_model_len =
    py_assert (rq_pooling_params r = None)
     (case rq_sampling_params r of
        None \<Rightarrow> Inl AssertionError
      | Some sp \<Rightarrow>
          if num_output_tokens r < sp_min_tokens sp then Inr (False, r)
          else rbind (py_index (output_token_ids r) (-1)) (\<lambda>last_token_id.
            if Some last_token_id = sp_eos_token_id sp
            then Inr (True, r\<lparr>status := FINISHED_STOPPED\<rparr>)
            else if last_token_id \<in> set (case sp_stop_token_ids sp of None \<Rightarrow> [] | Some l \<Rightarrow> l)
            then Inr (True, r\<lparr>status := FINISHED_STOPPED, rq_stop_reason := Some (StopToken last_token_id)\<rparr>)
            else if num_tokens r \<ge> max_model_len \<or> num_output_tokens r \<ge> max_tokens r
            then Inr (True, r\<lparr>status := FINISHED_LENGTH_CAPPED\<rparr>)
            else case sp_repetition_detection sp of
              None \<Rightarrow> Inr (False, r)
            | Some rd \<Rightarrow> rbind (check_sequence_repetition (output_token_ids r) rd) (\<lambda>rep.
                if rep
                then Inr (True, r\<lparr>status := FINISHED_REPETITION,
                       rq_stop_reason := Some (StopText ''repetition_detected'')\<rparr>)
                else Inr (False, r))))"

section \<open>Order of requests\<close>

definition request_key :: "request \<Rightarrow> int \<times> rat \<times> string \<times> int" where
  "request_key r = (priority r, arrival_time r, request_id r, obj_id r)"

lemma request_lt_key: "request_lt a b \<longleftrightarrow> request_key a < request_key b"
  by (auto simp: request_lt_def request_key_def)

section \<open>Placeholders\<close>

lemma length_cumsum [simp]: "length (cumsum_from a bs) = length bs"
  by (induction bs arbitrary: a) (auto simp: Let_def)

lemma cumsum_eq_Nil [simp]: "cumsum_from a bs = [] \<longleftrightarrow> bs = []"
  by (cases bs) (auto simp: Let_def)

lemma last_cumsum: "bs \<noteq> [] \<Longrightarrow> last (cumsum_from a bs) = a + int (count_list bs True)"
proof (induction bs arbitrary: a)
  case (Cons b bs)
  then show ?case by (cases "bs = []") (auto simp: Let_def)
qed simp

lemma nth_cumsum: "i < length bs \<Longrightarrow> cumsum_from a bs ! i = a + int (count_list (take (Suc i) bs) True)"
proof (induction bs arbitrary: a i)
  case (Cons b bs)
  then show ?case by (cases i) (auto simp: Let_def)
qed simp

lemma get_num_embeds_mask: "mm_is_embed p = Some m \<Longrightarrow> get_num_embeds p = int (count_list m True)"
  by (simp add: get_num_embeds_def embeds_cumsum_def last_cumsum)

section \<open>Repetition\<close>

lemma py_index_neg:
  "1 \<le> n \<Longrightarrow> n \<le> length xs \<Longrightarrow> py_index xs (- int n) = Inr (xs ! (length xs - n))"
  by (auto simp: py_index_def nat_diff_distrib)

lemma nth_concat_replicate:
  "i < c * length w \<Longrightarrow> concat (replicate c w) ! i = w ! (i mod length w)"
proof (induction c arbitrary: i)
  case (Suc c)
  show ?case
  proof (cases "i < length w")
    case False
    then have "i - length w < c * length w" using Suc.prems by simp
    then show ?thesis using Suc.IH False by (simp add: nth_append le_mod_geq)
  qed (simp add: nth_append)
qed simp

text \<open>The list ends in a word of length \<open>p\<close> written \<open>c\<close> times.\<close>

definition ends_in_repetition :: "'a list \<Rightarrow> nat \<Rightarrow> nat \<Rightarrow> bool" where
  "ends_in_repetition xs p c \<longleftrightarrow> (\<exists>w. length w = p \<and> suffix (concat (replicate c w)) xs)"

lemma length_concat_replicate [simp]: "length (concat (replicate c w)) = c * length w"
  by (induction c) auto

lemma ends_in_repetition_length: "ends_in_repetition xs p c \<Longrightarrow> c * p \<le> length xs"
  unfolding ends_in_repetition_def using suffix_length_le by fastforce

lemma ends_in_repetition_nth:
  assumes p: "1 \<le> p" and c: "1 \<le> c" and len: "p * c \<le> length xs"
  shows "ends_in_repetition xs p c \<longleftrightarrow>
    (\<forall>n m. 1 \<le> n \<longrightarrow> n \<le> p \<longrightarrow> m < c \<longrightarrow> xs ! (length xs - (p * m + n)) = xs ! (length xs - n))"
    (is "_ \<longleftrightarrow> ?R")
proof
  assume "ends_in_repetition xs p c"
  then obtain w ys where w: "length w = p" and xs: "xs = ys @ concat (replicate c w)"
    by (auto simp: ends_in_repetition_def suffix_def)
  have at: "xs ! (length xs - (p * m + n)) = w ! (p - n)" if n: "1 \<le> n" "n \<le> p" and m: "m < c" for m n
  proof -
    have le: "p * m + n \<le> c * p"
      using m n mult_le_mono2 [of "Suc m" c p] by (simp add: mult.commute)
    have eq: "c * p - (p * m + n) = (c - Suc m) * p + (p - n)"
    proof -
      obtain d where "c = Suc m + d" using m by (metis less_iff_Suc_add add_Suc)
      then show ?thesis using n by (simp add: algebra_simps)
    qed
    have "xs ! (length xs - (p * m + n)) = concat (replicate c w) ! (c * p - (p * m + n))"
    proof -
      have "length xs - (p * m + n) = length ys + (c * p - (p * m + n))" using le xs w by simp
      then show ?thesis by (simp only: xs nth_append_length_plus)
    qed
    also have "\<dots> = w ! ((c * p - (p * m + n)) mod p)"
    proof -
      have "c * p - (p * m + n) < c * length w" using n c p w by (simp add: diff_less)
      then show ?thesis using nth_concat_replicate [of "c * p - (p * m + n)" c w] w by simp
    qed
    also have "(c * p - (p * m + n)) mod p = p - n"
      using n p by (simp only: eq mod_mult_self3) simp
    finally show ?thesis .
  qed
  show ?R
  proof (intro allI impI)
    fix n m assume nm: "1 \<le> n" "n \<le> p" "m < c"
    show "xs ! (length xs - (p * m + n)) = xs ! (length xs - n)"
      using at [OF nm] at [of n 0] nm c by simp
  qed
next
  assume R: ?R
  let ?L = "length xs"
  define w where "w = drop (?L - p) xs"
  have pl: "p \<le> ?L" using len c p by (metis le_trans mult.right_neutral mult_le_mono2)
  have w: "length w = p" using pl by (simp add: w_def)
  have "drop (?L - p * c) xs = concat (replicate c w)"
  proof (rule nth_equalityI)
    show "length (drop (?L - p * c) xs) = length (concat (replicate c w))"
      using len w by (simp add: mult.commute)
    fix i assume "i < length (drop (?L - p * c) xs)"
    then have i: "i < c * p" using len by (simp add: mult.commute)
    define m n where "m = c - 1 - i div p" and "n = p - i mod p"
    have q: "i div p < c" using i p by (simp add: less_mult_imp_div_less)
    have r: "i mod p < p" using p by simp
    have n: "1 \<le> n" "n \<le> p" "p - n = i mod p" using r by (auto simp: n_def)
    have m: "m < c" using q by (simp add: m_def)
    have "p * m + n + i = p * c"
    proof -
      have "i = p * (i div p) + i mod p" "n + i mod p = p" using r by (simp_all add: n_def)
      then have "p * m + n + i = p * m + p * (i div p) + p" by linarith
      also have "\<dots> = p * (m + i div p + 1)" by (simp add: algebra_simps)
      also have "m + i div p + 1 = c" using q by (simp add: m_def)
      finally show ?thesis .
    qed
    then have "?L - p * c + i = ?L - (p * m + n)" using len by simp
    then have "drop (?L - p * c) xs ! i = xs ! (?L - (p * m + n))" using len by simp
    also have "\<dots> = xs ! (?L - n)" using R n m by blast
    also have "?L - n = ?L - p + i mod p" using pl n by linarith
    also have "xs ! (?L - p + i mod p) = w ! (i mod p)" using pl by (simp add: w_def)
    also have "\<dots> = concat (replicate c w) ! i" using i w by (simp add: nth_concat_replicate)
    finally show "drop (?L - p * c) xs ! i = concat (replicate c w) ! i" .
  qed
  then have "suffix (concat (replicate c w)) xs" using suffix_drop [of "?L - p * c" xs] by simp
  then show "ends_in_repetition xs p c" using w unfolding ends_in_repetition_def by blast
qed

lemma upto_pairs:
  assumes c: "2 \<le> c" and Q0: "\<And>n. Q 0 n"
  shows "(\<forall>n \<in> set [1..int p]. \<forall>m \<in> set [1..int c - 1]. Q (nat m) (nat n)) \<longleftrightarrow>
    (\<forall>n m. 1 \<le> n \<longrightarrow> n \<le> p \<longrightarrow> m < c \<longrightarrow> Q m n)"
proof -
  have s: "set [1..int p] = int ` {1..p}" "set [1..int c - 1] = int ` {1..c - 1}"
    using c by (simp_all add: image_int_atLeastAtMost of_nat_diff)
  have "(\<forall>n \<in> {1..p}. \<forall>m \<in> {1..c - 1}. Q m n) \<longleftrightarrow> (\<forall>n m. 1 \<le> n \<longrightarrow> n \<le> p \<longrightarrow> m < c \<longrightarrow> Q m n)"
  proof (intro iffI allI impI)
    fix n m assume a: "\<forall>n \<in> {1..p}. \<forall>m \<in> {1..c - 1}. Q m n" and nm: "1 \<le> n" "n \<le> p" "m < c"
    show "Q m n"
    proof (cases "m = 0")
      case False
      then have "n \<in> {1..p}" "m \<in> {1..c - 1}" using nm by auto
      then show ?thesis using a by blast
    qed (simp add: Q0)
  next
    assume "\<forall>n m. 1 \<le> n \<longrightarrow> n \<le> p \<longrightarrow> m < c \<longrightarrow> Q m n"
    moreover have "m < c" if "m \<in> {1..c - 1}" for m using that c by auto
    ultimately show "\<forall>n \<in> {1..p}. \<forall>m \<in> {1..c - 1}. Q m n" by simp
  qed
  then show ?thesis unfolding s ball_simps nat_int .
qed

lemma has_repeating_pattern_ok:
  assumes p: "1 \<le> p" and c: "2 \<le> c" and len: "p * c \<le> length xs"
  shows "has_repeating_pattern xs (int p) (int c) = Inr (ends_in_repetition xs p c)"
proof -
  have bd: "p * m + n \<le> length xs" if "n \<le> p" "m < c" for m n
    using len that mult_le_mono2 [of "Suc m" c p] by simp
  have inner: "rall (\<lambda>m. rbind (py_index xs (- (int p * m + int n))) (\<lambda>t. Inr (t = tt))) [1..int c - 1]
      = Inr (\<forall>m \<in> set [1..int c - 1]. xs ! (length xs - (p * nat m + n)) = tt)"
    if n: "1 \<le> n" "n \<le> p" for n tt
  proof (rule rall_total)
    fix m assume "m \<in> set [1..int c - 1]"
    then have "m = int (nat m)" "nat m < c" by auto
    then obtain k where k: "m = int k" "k < c" by blast
    have "- (int p * m + int n) = - int (p * k + n)" using k by simp
    then show "rbind (py_index xs (- (int p * m + int n))) (\<lambda>t. Inr (t = tt)) =
        Inr (xs ! (length xs - (p * nat m + n)) = tt)"
      using py_index_neg [of "p * k + n" xs] bd [OF n(2) k(2)] n k by simp
  qed
  have "has_repeating_pattern xs (int p) (int c) =
      Inr (\<forall>n \<in> set [1..int p]. \<forall>m \<in> set [1..int c - 1].
        xs ! (length xs - (p * nat m + nat n)) = xs ! (length xs - nat n))"
    unfolding has_repeating_pattern_def
  proof (rule rall_total)
    fix n assume "n \<in> set [1..int p]"
    then have n: "n = int (nat n)" "1 \<le> nat n" "nat n \<le> p" by auto
    then have "nat n \<le> length xs" using bd [of "nat n" 0] c by simp
    then have "py_index xs (- n) = Inr (xs ! (length xs - nat n))" using py_index_neg n by metis
    then show "rbind (py_index xs (- n)) (\<lambda>target_token. rall (\<lambda>m. rbind (py_index xs (- (int p * m + n)))
        (\<lambda>t. Inr (t = target_token))) [1..int c - 1]) =
      Inr (\<forall>m \<in> set [1..int c - 1]. xs ! (length xs - (p * nat m + nat n)) = xs ! (length xs - nat n))"
      using inner [OF n(2,3)] n(1) by simp
  qed
  also have "\<dots> = Inr (ends_in_repetition xs p c)"
    using upto_pairs [OF c, of "\<lambda>m n. xs ! (length xs - (p * m + n)) = xs ! (length xs - n)" p]
      ends_in_repetition_nth [OF p _ len] c by simp
  finally show ?thesis .
qed

lemma repetition_loop_ok:
  assumes c: "2 \<le> c" and ps: "\<forall>p \<in> set ps. 1 \<le> p" "sorted ps"
  shows "repetition_loop xs (int c) ps =
    Inr (\<exists>p \<in> set ps. ends_in_repetition xs (nat p) c)"
  using ps
proof (induction ps)
  case (Cons p ps)
  have p: "p = int (nat p)" "1 \<le> nat p" using Cons.prems(1) by auto
  show ?case
  proof (cases "p * int c > int (length xs)")
    case True
    have "\<not> ends_in_repetition xs (nat p') c" if "p' \<in> set (p # ps)" for p'
    proof
      assume "ends_in_repetition xs (nat p') c"
      then have "c * nat p' \<le> length xs" by (rule ends_in_repetition_length)
      then have "int (c * nat p') \<le> int (length xs)" by (rule of_nat_mono)
      moreover have "0 \<le> p'" using Cons.prems(1) that by force
      ultimately have "int c * p' \<le> int (length xs)" by simp
      moreover have "p \<le> p'" using Cons.prems(2) that by auto
      then have "int c * p \<le> int c * p'" by (rule mult_left_mono) simp
      ultimately show False using True by (simp add: mult.commute)
    qed
    then show ?thesis using True by auto
  next
    case False
    then have "nat p * c \<le> length xs" using p by (metis not_less of_nat_le_iff of_nat_mult)
    then have "has_repeating_pattern xs p (int c) = Inr (ends_in_repetition xs (nat p) c)"
      using has_repeating_pattern_ok [OF p(2) c] p(1) by metis
    then show ?thesis using False Cons by auto
  qed
qed simp

lemma check_sequence_repetition_ok:
  "check_sequence_repetition xs params =
    Inr (2 \<le> min_count params \<and>
      (\<exists>p \<ge> 1. min_pattern_size params \<le> p \<and> p \<le> max_pattern_size params \<and>
        ends_in_repetition xs (nat p) (nat (min_count params))))"
proof -
  define lo where "lo = (if min_pattern_size params \<le> 0 then 1 else min_pattern_size params)"
  define c where "c = nat (min_count params)"
  have lo: "1 \<le> p \<and> min_pattern_size params \<le> p \<longleftrightarrow> lo \<le> p" for p by (auto simp: lo_def)
  have "repetition_loop xs (int c) [lo..max_pattern_size params] =
      Inr (\<exists>p \<in> {lo..max_pattern_size params}. ends_in_repetition xs (nat p) c)" if "2 \<le> c"
  proof -
    have "1 \<le> lo" using lo by blast
    then have "\<forall>p \<in> set [lo..max_pattern_size params]. 1 \<le> p" by auto
    from repetition_loop_ok [OF that this sorted_upto] show ?thesis by (simp only: set_upto)
  qed
  moreover have "min_count params = int c" if "\<not> min_count params < 2" using that by (simp add: c_def)
  ultimately have "check_sequence_repetition xs params =
      Inr (2 \<le> min_count params \<and> (\<exists>p \<in> {lo..max_pattern_size params}. ends_in_repetition xs (nat p) c))"
    unfolding check_sequence_repetition_def lo_def [symmetric] Let_def
    using lo [of "max_pattern_size params"] by (auto simp: c_def)
  also have "(\<exists>p \<in> {lo..max_pattern_size params}. ends_in_repetition xs (nat p) c) \<longleftrightarrow>
      (\<exists>p \<ge> 1. min_pattern_size params \<le> p \<and> p \<le> max_pattern_size params \<and> ends_in_repetition xs (nat p) c)"
  proof -
    have "p \<in> {lo..max_pattern_size params} \<longleftrightarrow>
        1 \<le> p \<and> min_pattern_size params \<le> p \<and> p \<le> max_pattern_size params" for p
      using lo [of p] by auto
    then show ?thesis by blast
  qed
  finally show ?thesis unfolding c_def .
qed

section \<open>Stopping\<close>

definition ends_in_stop_token :: "sampling_params \<Rightarrow> request \<Rightarrow> bool" where
  "ends_in_stop_token sp r \<longleftrightarrow>
    (\<exists>l. sp_stop_token_ids sp = Some l \<and> last (output_token_ids r) \<in> set l)"

definition output_repeats :: "sampling_params \<Rightarrow> request \<Rightarrow> bool" where
  "output_repeats sp r \<longleftrightarrow>
    (\<exists>rd. sp_repetition_detection sp = Some rd \<and> 2 \<le> min_count rd \<and>
       (\<exists>p \<ge> 1. min_pattern_size rd \<le> p \<and> p \<le> max_pattern_size rd \<and>
         ends_in_repetition (output_token_ids r) (nat p) (nat (min_count rd))))"

text \<open>The reasons for which a request with output stops, in the code's order.\<close>

definition stop_status :: "sampling_params \<Rightarrow> request \<Rightarrow> int \<Rightarrow> request_status option" where
  "stop_status sp r max_model_len =
    (if num_output_tokens r < sp_min_tokens sp then None
     else if Some (last (output_token_ids r)) = sp_eos_token_id sp then Some FINISHED_STOPPED
     else if ends_in_stop_token sp r then Some FINISHED_STOPPED
     else if max_model_len \<le> num_tokens r \<or> max_tokens r \<le> num_output_tokens r
       then Some FINISHED_LENGTH_CAPPED
     else if output_repeats sp r
       then Some FINISHED_REPETITION
     else None)"

lemma py_index_last: "xs \<noteq> [] \<Longrightarrow> py_index xs (-1) = Inr (last xs)"
  by (cases xs rule: rev_cases) (auto simp: py_index_def nth_append)

lemma check_stop_ok:
  assumes "rq_pooling_params r = None" "rq_sampling_params r = Some sp" "output_token_ids r \<noteq> []"
  obtains r' where "check_stop r max_model_len = Inr (stop_status sp r max_model_len \<noteq> None, r')"
    "status r' = (case stop_status sp r max_model_len of None \<Rightarrow> status r | Some st \<Rightarrow> st)"
    "r'\<lparr>status := status r, rq_stop_reason := rq_stop_reason r\<rparr> = r"
proof -
  have c: "check_stop r max_model_len =
     (if num_output_tokens r < sp_min_tokens sp then Inr (False, r)
      else if Some (last (output_token_ids r)) = sp_eos_token_id sp
      then Inr (True, r\<lparr>status := FINISHED_STOPPED\<rparr>)
      else if ends_in_stop_token sp r
      then Inr (True, r\<lparr>status := FINISHED_STOPPED, rq_stop_reason := Some (StopToken (last (output_token_ids r)))\<rparr>)
      else if max_model_len \<le> num_tokens r \<or> max_tokens r \<le> num_output_tokens r
      then Inr (True, r\<lparr>status := FINISHED_LENGTH_CAPPED\<rparr>)
      else if output_repeats sp r
      then Inr (True, r\<lparr>status := FINISHED_REPETITION,
                       rq_stop_reason := Some (StopText ''repetition_detected'')\<rparr>)
      else Inr (False, r))"
    using assms(1,2) py_index_last [OF assms(3)]
    by (cases "sp_stop_token_ids sp"; cases "sp_repetition_detection sp";
        simp add: check_stop_def check_sequence_repetition_ok
          ends_in_stop_token_def output_repeats_def)
  have "\<exists>r'. check_stop r max_model_len = Inr (stop_status sp r max_model_len \<noteq> None, r') \<and>
    status r' = (case stop_status sp r max_model_len of None \<Rightarrow> status r | Some st \<Rightarrow> st) \<and>
    r'\<lparr>status := status r, rq_stop_reason := rq_stop_reason r\<rparr> = r"
    unfolding c stop_status_def by simp
  then show ?thesis using that by blast
qed

lemma stop_status_finished: "stop_status sp r n = Some st \<Longrightarrow> status_is_finished st"
  by (auto simp: stop_status_def status_is_finished_def split: if_splits)

section \<open>Requests to evaluate\<close>

definition ex_request :: "int list \<Rightarrow> mm_feature list \<Rightarrow> request" where
  "ex_request toks mm =
    \<lparr>request_id = ''r'', obj_id = 1, priority = 0, arrival_time = 0,
     rq_sampling_params = None, rq_pooling_params = None, rq_lora_request = None,
     use_structured_output = False, status = WAITING, rq_stop_reason = None, max_tokens = 16,
     prompt_token_ids = Some toks, prompt_embeds = None, num_prompt_tokens = int (length toks),
     output_token_ids = [], all_token_ids = toks,
     num_output_placeholders = 0, spec_token_ids = [], num_computed_tokens = 0,
     cache_salt = None, mm_features = mm,
     is_prefill_chunk = False, num_preemptions = 0, rq_block_hashes = [],
     prompt_embeds_per_block_hashes = (\<lambda>_. None),
     skip_reading_prefix_cache = False, resumable = False\<rparr>"

definition ex_sampling :: sampling_params where
  "ex_sampling = \<lparr>sp_max_tokens = Some 16, sp_min_tokens = 0, sp_eos_token_id = Some 2, sp_stop_token_ids = Some [3],
     sp_repetition_detection = None, sp_skip_reading_prefix_cache = None, sp_structured_outputs = False\<rparr>"

definition ex_image :: "string \<Rightarrow> int \<Rightarrow> int \<Rightarrow> mm_feature" where
  "ex_image i off len = \<lparr>mm_identifier = i, mm_position = \<lparr>mm_offset = off, mm_length = len, mm_is_embed = None\<rparr>\<rparr>"

section \<open>Properties\<close>

text \<open>C22. The order of the priority queue compares (priority, arrival time, request id,
  object identity) lexicographically; it is a strict linear order on requests with
  different identities.\<close>

theorem request_order_linear:
  "(request_lt a b \<longleftrightarrow> request_key a < request_key b) \<and> \<not> request_lt a a \<and>
   (request_lt a b \<and> request_lt b c \<longrightarrow> request_lt a c) \<and>
   (obj_id a \<noteq> obj_id b \<longrightarrow> request_lt a b \<noteq> request_lt b a)"
proof -
  have "request_key a \<noteq> request_key b" if "obj_id a \<noteq> obj_id b" using that by (simp add: request_key_def)
  then show ?thesis unfolding request_lt_key by (auto simp: neq_iff)
qed

theorem request_order_linear_witness:
  "request_lt (ex_request [1] []) ((ex_request [1] [])\<lparr>priority := 1, obj_id := 2\<rparr>) \<and>
   \<not> request_lt ((ex_request [1] [])\<lparr>priority := 1, obj_id := 2\<rparr>) (ex_request [1] [])"
proof -
  let ?a = "ex_request [1] []" and ?b = "(ex_request [1] [])\<lparr>priority := 1, obj_id := 2\<rparr>"
  have "request_key ?a < request_key ?b" "obj_id ?a \<noteq> obj_id ?b" by (simp_all add: ex_request_def request_key_def)
  then show ?thesis using request_order_linear [of ?a ?b ?a] by blast
qed

text \<open>C24. The repetition detector is exact: it never raises, and it answers true exactly
  when at least two repetitions are asked for and the tokens end in \<open>min_count\<close>
  copies of some non-empty word whose length is between the configured pattern
  sizes.\<close>

theorem repetition_detected_iff:
  "check_sequence_repetition xs params =
    Inr (2 \<le> min_count params \<and>
      (\<exists>w. w \<noteq> [] \<and> min_pattern_size params \<le> int (length w) \<and> int (length w) \<le> max_pattern_size params \<and>
        suffix (concat (replicate (nat (min_count params)) w)) xs))"
proof -
  have "(\<exists>p \<ge> 1. min_pattern_size params \<le> p \<and> p \<le> max_pattern_size params \<and>
        ends_in_repetition xs (nat p) (nat (min_count params))) \<longleftrightarrow>
      (\<exists>w. w \<noteq> [] \<and> min_pattern_size params \<le> int (length w) \<and> int (length w) \<le> max_pattern_size params \<and>
        suffix (concat (replicate (nat (min_count params)) w)) xs)" (is "?l \<longleftrightarrow> ?r")
  proof
    assume ?l
    then obtain p w where "1 \<le> p" "min_pattern_size params \<le> p" "p \<le> max_pattern_size params" "length w = nat p"
      "suffix (concat (replicate (nat (min_count params)) w)) xs" unfolding ends_in_repetition_def by blast
    then show ?r by (intro exI [of _ w]) auto
  next
    assume ?r
    then obtain w where "w \<noteq> []" "min_pattern_size params \<le> int (length w)" "int (length w) \<le> max_pattern_size params"
      "suffix (concat (replicate (nat (min_count params)) w)) xs" by blast
    then show ?l unfolding ends_in_repetition_def
      by (intro exI [of _ "int (length w)"]) (auto simp: Suc_leI)
  qed
  then show ?thesis by (simp add: check_sequence_repetition_ok)
qed

text \<open>C25. The stop check of a generation request with output never raises, and changes
  nothing but status and stop reason.  It answers true exactly when, after at least
  \<open>min_tokens\<close> output tokens, the last token is the end-of-sequence token or a stop
  token, or the length limit is reached, or the output repeats, in this order of
  precedence; the new status is then a finished one, and otherwise it is unchanged.\<close>

theorem check_stop_correct:
  assumes "rq_pooling_params r = None" "rq_sampling_params r = Some sp" "output_token_ids r \<noteq> []"
  shows "\<exists>r'. check_stop r max_model_len = Inr (stop_status sp r max_model_len \<noteq> None, r') \<and>
    r'\<lparr>status := status r, rq_stop_reason := rq_stop_reason r\<rparr> = r \<and>
    (case stop_status sp r max_model_len of
       None \<Rightarrow> status r' = status r
     | Some st \<Rightarrow> status r' = st \<and> status_is_finished st)"
proof -
  obtain r' where r': "check_stop r max_model_len = Inr (stop_status sp r max_model_len \<noteq> None, r')"
    "status r' = (case stop_status sp r max_model_len of None \<Rightarrow> status r | Some st \<Rightarrow> st)"
    "r'\<lparr>status := status r, rq_stop_reason := rq_stop_reason r\<rparr> = r"
    using check_stop_ok [OF assms] .
  then show ?thesis using stop_status_finished [of sp r max_model_len]
    by (intro exI [of _ r']) (auto split: option.splits)
qed

theorem check_stop_correct_witness:
  "\<exists>r'. check_stop ((ex_request [1] [])\<lparr>rq_sampling_params := Some ex_sampling, output_token_ids := [7, 2]\<rparr>) 100 = Inr (True, r') \<and>
    status r' = FINISHED_STOPPED"
proof -
  let ?r = "(ex_request [1] [])\<lparr>rq_sampling_params := Some ex_sampling, output_token_ids := [7, 2]\<rparr>"
  have "stop_status ex_sampling ?r 100 = Some FINISHED_STOPPED"
    by (simp add: stop_status_def ex_sampling_def ex_request_def num_output_tokens_def)
  then show ?thesis using check_stop_correct [of ?r ex_sampling 100] by (auto simp: ex_request_def)
qed

end
