(* ===== verification/Block_Hash.thy ===== *)
theory Block_Hash
  imports Request "HOL-Library.Countable"
begin

text \<open>
  Block hashes of \<^verbatim>\<open>vllm/v1/core/kv_cache_utils.py\<close>: the packing of a hash and a
  KV cache group id into one key, the extra keys that enter a hash (LoRA name,
  multi-modal items, cache salt, prompt embeddings), the chained hash of a
  block, the incremental hasher installed in a request, the view of the hashes
  at a coarser block size, and the choice of block sizes.  The hash function
  itself is third-party code and a parameter (\<open>hash_fn\<close>, \<open>sha256\<close>); where a
  theorem needs it to be free of collisions, that is a named hypothesis.
\<close>

section \<open>Keys with a group id\<close>

definition to_bytes4 :: "int \<Rightarrow> bytes result" where
  "to_bytes4 n =
    (if 0 \<le> n \<and> n < 2 ^ 32
     then Inr [word_of_int (n div 2 ^ 24), word_of_int (n div 2 ^ 16),
               word_of_int (n div 2 ^ 8), word_of_int n]
     else Inl OverflowError)"

definition from_bytes :: "bytes \<Rightarrow> int" where
  "from_bytes bs = foldl (\<lambda>a b. a * 256 + uint b) 0 bs"

definition make_block_hash_with_group_id :: "bytes \<Rightarrow> int \<Rightarrow> bytes result" where
  "make_block_hash_with_group_id block_hash group_id =
    rbind (to_bytes4 group_id) (\<lambda>b. Inr (block_hash @ b))"

definition get_block_hash :: "bytes \<Rightarrow> bytes" where
  "get_block_hash key = py_upto key (-4)"

definition get_group_id :: "bytes \<Rightarrow> int" where
  "get_group_id key = from_bytes (py_from key (-4))"

datatype external_block_hash = ExtBytes bytes | ExtInt int

text \<open>\<open>use_int\<close> is the environment flag \<^verbatim>\<open>VLLM_KV_EVENTS_USE_INT_BLOCK_HASHES\<close>.\<close>

definition maybe_convert_block_hash :: "bool \<Rightarrow> bytes \<Rightarrow> external_block_hash" where
  "maybe_convert_block_hash use_int hash_bytes =
    (if \<not> use_int then ExtBytes hash_bytes else ExtInt (take_bit 64 (from_bytes hash_bytes)))"

section \<open>Extra keys\<close>

text \<open>An extra key is a Python value: a string (LoRA name, cache salt), a pair of a
  multi-modal identifier and an offset, or raw bytes (hash of prompt embeddings).\<close>

datatype extra_key = KStr string | KPair string int | KBytes bytes

definition need_extra_keys :: "request \<Rightarrow> bool" where
  "need_extra_keys r \<longleftrightarrow> mm_features r \<noteq> [] \<or> rq_lora_request r \<noteq> None \<or> cache_salt r \<noteq> None"

text \<open>The loop over the multi-modal features from index \<open>idx\<close> on: \<open>fs\<close> is
  \<^verbatim>\<open>mm_features[idx:]\<close>.\<close>

fun mm_keys_loop :: "int \<Rightarrow> int \<Rightarrow> mm_feature list \<Rightarrow> int \<Rightarrow> extra_key list \<Rightarrow> extra_key list \<times> int" where
  "mm_keys_loop start_idx end_idx [] idx keys = (keys, idx)"
| "mm_keys_loop start_idx end_idx (f # fs) idx keys =
    (let offset = mm_offset (mm_position f); len = mm_length (mm_position f) in
     if end_idx > offset then
       if start_idx \<ge> offset + len then mm_keys_loop start_idx end_idx fs (idx + 1) keys
       else let keys = keys @ [KPair (mm_identifier f) (offset - start_idx)] in
         if end_idx \<ge> offset + len then mm_keys_loop start_idx end_idx fs (idx + 1) keys
         else (keys, idx)
     else (keys, idx))"

definition gen_mm_extra_hash_keys :: "request \<Rightarrow> int \<Rightarrow> int \<Rightarrow> int \<Rightarrow> (extra_key list \<times> int) result" where
  "gen_mm_extra_hash_keys r start_idx end_idx start_mm_idx =
    (if mm_features r = [] then Inr ([], start_mm_idx)
     else let last_pos = mm_position (last (mm_features r)) in
       if mm_offset last_pos + mm_length last_pos \<le> start_idx then Inr ([], start_mm_idx)
       else py_assert (start_mm_idx < 0 \<longrightarrow> - start_mm_idx \<le> int (length (mm_features r)))
         (let idx = (if start_mm_idx < 0 then int (length (mm_features r)) + start_mm_idx else start_mm_idx)
          in Inr (mm_keys_loop start_idx end_idx (drop (nat idx) (mm_features r)) idx [])))"

definition gen_lora_extra_hash_keys :: "request \<Rightarrow> extra_key list" where
  "gen_lora_extra_hash_keys r =
    (case rq_lora_request r of None \<Rightarrow> [] | Some l \<Rightarrow> [KStr (lora_name l)])"

text \<open>A hash of a slice of the prompt embeddings is computed once and kept in the
  request's memo.\<close>

definition gen_prompt_embeds_extra_hash_keys ::
  "(bytes \<Rightarrow> bytes) \<Rightarrow> request \<Rightarrow> int \<Rightarrow> int \<Rightarrow> extra_key list \<times> request" where
  "gen_prompt_embeds_extra_hash_keys sha256 r start_idx end_idx =
    (case prompt_embeds r of
       None \<Rightarrow> ([], r)
     | Some rows \<Rightarrow>
         let memo = prompt_embeds_per_block_hashes r in
         (case memo (start_idx, end_idx) of
            Some h \<Rightarrow> ([KBytes h], r)
          | None \<Rightarrow> let h = sha256 (concat (py_slice rows start_idx end_idx))
                   in ([KBytes h], r\<lparr>prompt_embeds_per_block_hashes := memo((start_idx, end_idx) \<mapsto> h)\<rparr>)))"

definition generate_block_hash_extra_keys ::
  "(bytes \<Rightarrow> bytes) \<Rightarrow> request \<Rightarrow> int \<Rightarrow> int \<Rightarrow> int \<Rightarrow> (extra_key list option \<times> int \<times> request) result" where
  "generate_block_hash_extra_keys sha256 r start_idx end_idx start_mm_idx =
    rbind (gen_mm_extra_hash_keys r start_idx end_idx start_mm_idx) (\<lambda>(mm_keys, new_idx).
      let lora_keys = gen_lora_extra_hash_keys r;
          salt_keys = (case cache_salt r of
             None \<Rightarrow> []
           | Some s \<Rightarrow> if start_idx = 0 \<and> s \<noteq> [] then [KStr s] else []);
          (embeds_keys, r) = gen_prompt_embeds_extra_hash_keys sha256 r start_idx end_idx;
          keys = lora_keys @ mm_keys @ salt_keys @ embeds_keys
      in Inr (if keys = [] then None else Some keys, new_idx, r))"

section \<open>Hash of a block\<close>

type_synonym hash_input = "bytes \<times> int list \<times> extra_key list option"

definition hash_block_tokens ::
  "(hash_input \<Rightarrow> bytes) \<Rightarrow> bytes \<Rightarrow> bytes option \<Rightarrow> int list \<Rightarrow> extra_key list option \<Rightarrow> bytes" where
  "hash_block_tokens hash_fn none_hash parent toks extra =
    hash_fn (case parent of None \<Rightarrow> none_hash | Some p \<Rightarrow> if p = [] then none_hash else p, toks, extra)"

text \<open>\<open>seed\<close> is the value of \<^verbatim>\<open>PYTHONHASHSEED\<close>, \<open>urandom\<close> 32 bytes from the system.\<close>

definition init_none_hash :: "(string \<Rightarrow> bytes) \<Rightarrow> string option \<Rightarrow> bytes \<Rightarrow> bytes" where
  "init_none_hash hash_seed_fn seed urandom =
    (case seed of None \<Rightarrow> urandom | Some s \<Rightarrow> hash_seed_fn s)"

text \<open>The loop of \<^verbatim>\<open>request_block_hasher\<close>.  With a block size of zero it would not
  end; \<open>None\<close> stands for that.\<close>

partial_function (option) hasher_loop ::
  "int \<Rightarrow> (hash_input \<Rightarrow> bytes) \<Rightarrow> bytes \<Rightarrow> (bytes \<Rightarrow> bytes) \<Rightarrow>
   int \<Rightarrow> int \<Rightarrow> bytes option \<Rightarrow> bytes list \<Rightarrow> request \<Rightarrow> (bytes list \<times> request) result option" where
  "hasher_loop hbs hash_fn none_hash sha256 start_idx mm_idx prev acc r =
    (let end_idx = start_idx + hbs in
     if end_idx > num_tokens r then Some (Inr (acc, r))
     else case generate_block_hash_extra_keys sha256 r start_idx end_idx mm_idx of
       Inl e \<Rightarrow> Some (Inl e)
     | Inr (extra, mm_idx, r) \<Rightarrow>
         let toks = py_slice (all_token_ids r) start_idx end_idx;
             h = hash_block_tokens hash_fn none_hash prev toks extra
         in hasher_loop hbs hash_fn none_hash sha256 (start_idx + hbs) mm_idx (Some h) (acc @ [h]) r)"

definition request_block_hasher ::
  "int \<Rightarrow> (hash_input \<Rightarrow> bytes) \<Rightarrow> bytes \<Rightarrow> (bytes \<Rightarrow> bytes) \<Rightarrow> block_hasher" where
  "request_block_hasher hbs hash_fn none_hash sha256 r =
    (let start_idx = int (length (rq_block_hashes r)) * hbs in
     if start_idx + hbs > num_tokens r then Some (Inr ([], r))
     else hasher_loop hbs hash_fn none_hash sha256 start_idx
       (if start_idx > 0 then -1 else 0)
       (if rq_block_hashes r = [] then None else Some (last (rq_block_hashes r))) [] r)"

section \<open>Hashes at a coarser block size\<close>

record hash_list_view =
  hl_block_hashes :: "bytes list"
  hl_scale_factor :: int

definition block_hash_list_with_block_size :: "bytes list \<Rightarrow> int \<Rightarrow> int \<Rightarrow> hash_list_view result" where
  "block_hash_list_with_block_size hs hash_block_size target_block_size =
    py_assert (target_block_size mod hash_block_size = 0)
      (Inr \<lparr>hl_block_hashes = hs, hl_scale_factor = target_block_size div hash_block_size\<rparr>)"

definition hl_len :: "hash_list_view \<Rightarrow> int" where
  "hl_len v = int (length (hl_block_hashes v)) div hl_scale_factor v"

definition hl_value_at :: "hash_list_view \<Rightarrow> int \<Rightarrow> bytes result" where
  "hl_value_at v idx = py_index (hl_block_hashes v) ((idx + 1) * hl_scale_factor v - 1)"

text \<open>\<^verbatim>\<open>view[start:]\<close> and iteration (\<open>start = 0\<close>), for a non-negative start.\<close>

definition hl_from :: "hash_list_view \<Rightarrow> int \<Rightarrow> bytes list result" where
  "hl_from v start =
    rfold (\<lambda>i acc. rbind (hl_value_at v i) (\<lambda>h. Inr (acc @ [h]))) [min start (hl_len v)..hl_len v - 1] []"

section \<open>Choice of block sizes\<close>

text \<open>The configuration read by \<^verbatim>\<open>resolve_kv_cache_block_sizes\<close>: for each KV cache
  group, its block size and whether it is a Mamba group.\<close>

record block_size_config =
  cfg_block_size :: int
  cfg_dcp :: int
  cfg_pcp :: int
  cfg_groups :: "(int \<times> bool) list"
  cfg_enable_prefix_caching :: bool
  cfg_connector :: bool
  cfg_hash_block_size :: "int option"

definition resolve_kv_cache_block_sizes :: "block_size_config \<Rightarrow> (int \<times> int) result" where
  "resolve_kv_cache_block_sizes c =
    (if length (cfg_groups c) \<le> 1 then
       let bs = cfg_block_size c * cfg_dcp c * cfg_pcp c in Inr (bs, bs)
     else if cfg_dcp c \<noteq> 1 \<or> cfg_pcp c \<noteq> 1 then Inl ValueError
     else
       let sizes = map fst (cfg_groups c);
           sched = foldr lcm sizes 1
       in if \<not> (cfg_enable_prefix_caching c \<or> cfg_connector c) then Inr (sched, sched)
          else if list_ex (\<lambda>(bs, mamba). mamba \<and> bs \<noteq> cfg_block_size c) (cfg_groups c)
          then Inr (sched, sched)
          else
            let hbs = (case cfg_hash_block_size c of Some h \<Rightarrow> h | None \<Rightarrow> foldr gcd sizes 0)
            in if hbs = 0 then Inl ZeroDivisionError
               else if list_ex (\<lambda>bs. bs mod hbs \<noteq> 0) sizes then Inl ValueError else Inr (sched, hbs))"

section \<open>Keys: round trip\<close>

lemma to_bytes4_from:
  assumes "0 \<le> n" "n < 2 ^ 32"
  shows "to_bytes4 n = Inr bs \<Longrightarrow> length bs = 4 \<and> from_bytes bs = n"
proof -
  have d: "n div 2 ^ 8 = n div 256" "n div 2 ^ 16 = n div 256 div 256" "n div 2 ^ 24 = n div 256 div 256 div 256"
    by (simp_all add: zdiv_zmult2_eq [symmetric])
  have "n div 2 ^ 24 < 256" using assms by simp
  then have "n div 2 ^ 24 mod 256 = n div 2 ^ 24" using assms by simp
  then have "((n div 2 ^ 24 mod 256 * 256 + n div 2 ^ 16 mod 256) * 256 + n div 2 ^ 8 mod 256) * 256 + n mod 256 = n"
    unfolding d by (simp only: div_mult_mod_eq)
  moreover have u: "uint (word_of_int k :: 8 word) = k mod 256" for k
    by (simp add: uint_word_of_int)
  moreover assume "to_bytes4 n = Inr bs"
  then have bs: "bs = [word_of_int (n div 2 ^ 24), word_of_int (n div 2 ^ 16), word_of_int (n div 2 ^ 8), word_of_int n]"
    using assms by (simp add: to_bytes4_def)
  ultimately have "from_bytes bs = n"
    unfolding bs from_bytes_def foldl.simps u mult_zero_left add_0_left by blast
  then show "length bs = 4 \<and> from_bytes bs = n" using bs by simp
qed

lemma make_key_ok:
  assumes "0 \<le> g" "g < 2 ^ 32"
  shows "\<exists>k. make_block_hash_with_group_id h g = Inr k \<and> get_block_hash k = h \<and> get_group_id k = g"
proof -
  obtain bs where bs: "to_bytes4 g = Inr bs" using assms by (auto simp: to_bytes4_def)
  then have "length bs = 4" "from_bytes bs = g" using to_bytes4_from [OF assms] by auto
  then show ?thesis using bs
    by (simp add: make_block_hash_with_group_id_def get_block_hash_def get_group_id_def
        py_upto_def py_from_def slice_bound_def)
qed

lemma make_key_err:
  "\<not> (0 \<le> g \<and> g < 2 ^ 32) \<Longrightarrow> make_block_hash_with_group_id h g = Inl OverflowError"
  by (simp add: make_block_hash_with_group_id_def to_bytes4_def)

lemma make_key_inj:
  assumes "make_block_hash_with_group_id h g = Inr k" "make_block_hash_with_group_id h' g' = Inr k"
  shows "h = h' \<and> g = g'"
proof -
  have r: "0 \<le> g \<and> g < 2 ^ 32" "0 \<le> g' \<and> g' < 2 ^ 32"
    using assms make_key_err by (metis Inl_Inr_False)+
  show ?thesis using make_key_ok [of g h] make_key_ok [of g' h'] r assms by auto
qed

section \<open>Extra keys of a block\<close>

abbreviation mm_off :: "mm_feature \<Rightarrow> int" where "mm_off f \<equiv> mm_offset (mm_position f)"
abbreviation mm_end :: "mm_feature \<Rightarrow> int" where "mm_end f \<equiv> mm_offset (mm_position f) + mm_length (mm_position f)"

text \<open>The features are in order of their offsets and do not overlap.\<close>

definition mm_sorted :: "mm_feature list \<Rightarrow> bool" where
  "mm_sorted fs \<longleftrightarrow> sorted_wrt (\<lambda>f g. mm_end f \<le> mm_off g) fs \<and> (\<forall>f \<in> set fs. 0 \<le> mm_length (mm_position f))"

text \<open>The keys of every feature that overlaps the tokens from \<open>s\<close> to \<open>e\<close>.\<close>

definition mm_block_keys :: "mm_feature list \<Rightarrow> int \<Rightarrow> int \<Rightarrow> extra_key list" where
  "mm_block_keys fs s e =
    map (\<lambda>f. KPair (mm_identifier f) (mm_off f - s)) (filter (\<lambda>f. mm_off f < e \<and> s < mm_end f) fs)"

lemma mm_block_keys_append: "mm_block_keys (fs @ gs) s e = mm_block_keys fs s e @ mm_block_keys gs s e"
  by (simp add: mm_block_keys_def)

lemma mm_block_keys_empty: "(\<And>f. f \<in> set fs \<Longrightarrow> mm_end f \<le> s \<or> e \<le> mm_off f) \<Longrightarrow> mm_block_keys fs s e = []"
  by (force simp: mm_block_keys_def filter_empty_conv)

lemma mm_keys_loop_ok:
  assumes "mm_sorted fs" "s \<le> e"
  shows "mm_keys_loop s e fs idx keys =
    (keys @ mm_block_keys fs s e, idx + int (length (takeWhile (\<lambda>f. mm_off f < e \<and> mm_end f \<le> e) fs)))"
  using assms
proof (induction fs arbitrary: idx keys)
  case (Cons f fs)
  have s: "mm_sorted fs" and later: "\<And>g. g \<in> set fs \<Longrightarrow> mm_end f \<le> mm_off g"
    and len: "mm_off f \<le> mm_end f"
    using Cons.prems by (auto simp: mm_sorted_def)
  have stop: "mm_block_keys fs s e = []" if "e \<le> mm_end f"
    using later that by (intro mm_block_keys_empty) fastforce
  have cons: "mm_block_keys (f # fs) s e =
      (if mm_off f < e \<and> s < mm_end f then [KPair (mm_identifier f) (mm_off f - s)] else []) @ mm_block_keys fs s e"
    by (simp add: mm_block_keys_def)
  show ?case using Cons.IH [OF s Cons.prems(2)] Cons.prems(2) stop len
    by (auto simp: cons Let_def not_less not_le)
qed (simp add: mm_block_keys_def)

text \<open>Where a scan may start for the tokens from \<open>s\<close> on: every feature before that
  point has ended.\<close>

definition mm_idx_ok :: "mm_feature list \<Rightarrow> int \<Rightarrow> int \<Rightarrow> bool" where
  "mm_idx_ok fs idx s \<longleftrightarrow> fs = [] \<or>
    (let i = (if idx < 0 then int (length fs) + idx else idx)
     in 0 \<le> i \<and> (\<forall>f \<in> set (take (nat i) fs). mm_end f \<le> s))"

lemma mm_sorted_last: "mm_sorted fs \<Longrightarrow> f \<in> set fs \<Longrightarrow> mm_end f \<le> mm_end (last fs)"
proof (induction fs)
  case (Cons g fs)
  show ?case
  proof (cases "fs = []")
    case False
    have "mm_end g \<le> mm_off (last fs)" "mm_off (last fs) \<le> mm_end (last fs)"
      using Cons.prems(1) False last_in_set [of fs] by (auto simp: mm_sorted_def)
    then have "mm_end g \<le> mm_end (last fs)" by (rule order_trans)
    moreover have "mm_end f \<le> mm_end (last fs)" if "f \<in> set fs"
      using Cons.IH Cons.prems(1) that by (simp add: mm_sorted_def)
    ultimately show ?thesis using Cons.prems(2) False by auto
  qed (use Cons.prems in simp)
qed simp

lemma mm_sorted_drop: "mm_sorted fs \<Longrightarrow> mm_sorted (drop n fs)"
  by (auto simp: mm_sorted_def sorted_wrt_drop dest: in_set_dropD)

lemma gen_mm_ok:
  assumes srt: "mm_sorted (mm_features r)" and se: "s \<le> e" and idx: "mm_idx_ok (mm_features r) idx s"
  shows "\<exists>idx'. gen_mm_extra_hash_keys r s e idx = Inr (mm_block_keys (mm_features r) s e, idx') \<and>
    mm_idx_ok (mm_features r) idx' e"
proof -
  let ?fs = "mm_features r"
  define i where "i = (if idx < 0 then int (length ?fs) + idx else idx)"
  show ?thesis
  proof (cases "?fs = [] \<or> mm_end (last ?fs) \<le> s")
    case True
    have "mm_block_keys ?fs s e = []"
      using True mm_sorted_last [OF srt] by (intro mm_block_keys_empty) force
    moreover have "mm_idx_ok ?fs idx e"
      using idx se unfolding mm_idx_ok_def Let_def by (meson order_trans)
    ultimately show ?thesis using True by (auto simp: gen_mm_extra_hash_keys_def Let_def)
  next
    case False
    have i0: "0 \<le> i" and before: "\<And>f. f \<in> set (take (nat i) ?fs) \<Longrightarrow> mm_end f \<le> s"
      using idx False by (auto simp: mm_idx_ok_def i_def Let_def split: if_splits)
    let ?tw = "takeWhile (\<lambda>f. mm_off f < e \<and> mm_end f \<le> e) (drop (nat i) ?fs)"
    have "mm_block_keys (take (nat i) ?fs) s e = []"
      using before by (intro mm_block_keys_empty) blast
    then have k: "mm_block_keys (drop (nat i) ?fs) s e = mm_block_keys ?fs s e"
      using mm_block_keys_append [of "take (nat i) ?fs" "drop (nat i) ?fs" s e] by simp
    have "gen_mm_extra_hash_keys r s e idx = Inr (mm_block_keys ?fs s e, i + int (length ?tw))"
      using False i0 mm_keys_loop_ok [OF mm_sorted_drop [OF srt] se, of "nat i" i "[]"] k
      by (auto simp: gen_mm_extra_hash_keys_def Let_def i_def split: if_splits)
    moreover have "mm_idx_ok ?fs (i + int (length ?tw)) e"
    proof -
      have n: "nat (i + int (length ?tw)) = nat i + length ?tw" using i0 by simp
      have tk: "take (length ?tw) (drop (nat i) ?fs) = ?tw" by (metis takeWhile_eq_take)
      have "mm_end f \<le> e" if "f \<in> set (take (nat i) ?fs @ ?tw)" for f
        using that before [of f] se set_takeWhileD [of f] order_trans [of "mm_end f" s e] by auto
      then show ?thesis using i0 by (simp add: mm_idx_ok_def Let_def n take_add tk)
    qed
    ultimately show ?thesis by blast
  qed
qed

section \<open>The chain of hashes of a request\<close>

text \<open>The memo only holds hashes of slices of the request's embeddings.\<close>

definition memo_ok :: "(bytes \<Rightarrow> bytes) \<Rightarrow> request \<Rightarrow> bool" where
  "memo_ok sha256 r \<longleftrightarrow> (\<forall>s e h. prompt_embeds_per_block_hashes r (s, e) = Some h \<longrightarrow>
     (\<forall>rows. prompt_embeds r = Some rows \<longrightarrow> h = sha256 (concat (py_slice rows s e))))"

definition embeds_keys :: "(bytes \<Rightarrow> bytes) \<Rightarrow> request \<Rightarrow> int \<Rightarrow> int \<Rightarrow> extra_key list" where
  "embeds_keys sha256 r s e =
    (case prompt_embeds r of None \<Rightarrow> [] | Some rows \<Rightarrow> [KBytes (sha256 (concat (py_slice rows s e)))])"

definition salt_keys :: "request \<Rightarrow> int \<Rightarrow> extra_key list" where
  "salt_keys r s = (case cache_salt r of None \<Rightarrow> [] | Some t \<Rightarrow> if s = 0 \<and> t \<noteq> [] then [KStr t] else [])"

text \<open>All the extra keys of the tokens from \<open>s\<close> to \<open>e\<close>.\<close>

definition extra_keys :: "(bytes \<Rightarrow> bytes) \<Rightarrow> request \<Rightarrow> int \<Rightarrow> int \<Rightarrow> extra_key list option" where
  "extra_keys sha256 r s e =
    (let ks = gen_lora_extra_hash_keys r @ mm_block_keys (mm_features r) s e @ salt_keys r s @ embeds_keys sha256 r s e
     in if ks = [] then None else Some ks)"

lemma generate_keys_ok:
  assumes "mm_sorted (mm_features r)" "s \<le> e" "mm_idx_ok (mm_features r) idx s" "memo_ok sha256 r"
  shows "\<exists>idx' memo. generate_block_hash_extra_keys sha256 r s e idx =
      Inr (extra_keys sha256 r s e, idx', r\<lparr>prompt_embeds_per_block_hashes := memo\<rparr>) \<and>
    mm_idx_ok (mm_features r) idx' e \<and> memo_ok sha256 (r\<lparr>prompt_embeds_per_block_hashes := memo\<rparr>)"
proof -
  obtain idx' where g: "gen_mm_extra_hash_keys r s e idx = Inr (mm_block_keys (mm_features r) s e, idx')"
    and i: "mm_idx_ok (mm_features r) idx' e"
    using gen_mm_ok assms(1-3) by blast
  obtain memo where m: "gen_prompt_embeds_extra_hash_keys sha256 r s e =
      (embeds_keys sha256 r s e, r\<lparr>prompt_embeds_per_block_hashes := memo\<rparr>)"
    and mo: "memo_ok sha256 (r\<lparr>prompt_embeds_per_block_hashes := memo\<rparr>)"
  proof (cases "prompt_embeds r")
    case None
    then show ?thesis using that [of "prompt_embeds_per_block_hashes r"] assms(4)
      by (simp add: gen_prompt_embeds_extra_hash_keys_def embeds_keys_def)
  next
    case (Some rows)
    show ?thesis
    proof (cases "prompt_embeds_per_block_hashes r (s, e)")
      case None
      then show ?thesis using Some assms(4)
        by (intro that [of "(prompt_embeds_per_block_hashes r)((s, e) \<mapsto> sha256 (concat (py_slice rows s e)))"])
          (auto simp: gen_prompt_embeds_extra_hash_keys_def embeds_keys_def memo_ok_def Let_def)
    next
      case (Some h)
      then show ?thesis using that [of "prompt_embeds_per_block_hashes r"] assms(4) \<open>prompt_embeds r = Some rows\<close>
        by (auto simp: gen_prompt_embeds_extra_hash_keys_def embeds_keys_def memo_ok_def Let_def)
    qed
  qed
  show ?thesis
    using g i m mo unfolding generate_block_hash_extra_keys_def extra_keys_def salt_keys_def
    by (auto simp: Let_def split: option.splits)
qed

abbreviation block_tokens :: "int \<Rightarrow> request \<Rightarrow> nat \<Rightarrow> int list" where
  "block_tokens hbs r i \<equiv> py_slice (all_token_ids r) (int i * hbs) (int i * hbs + hbs)"

abbreviation block_keys :: "int \<Rightarrow> (bytes \<Rightarrow> bytes) \<Rightarrow> request \<Rightarrow> nat \<Rightarrow> extra_key list option" where
  "block_keys hbs sha256 r i \<equiv> extra_keys sha256 r (int i * hbs) (int i * hbs + hbs)"

text \<open>The specification of the hash of block \<open>i\<close>: it covers the block's tokens, its
  extra keys and, through the previous hash, everything before it.\<close>

fun chain_hash :: "int \<Rightarrow> (hash_input \<Rightarrow> bytes) \<Rightarrow> bytes \<Rightarrow> (bytes \<Rightarrow> bytes) \<Rightarrow> request \<Rightarrow> nat \<Rightarrow> bytes" where
  "chain_hash hbs hash_fn none_hash sha256 r 0 =
    hash_block_tokens hash_fn none_hash None (block_tokens hbs r 0) (block_keys hbs sha256 r 0)"
| "chain_hash hbs hash_fn none_hash sha256 r (Suc i) =
    hash_block_tokens hash_fn none_hash (Some (chain_hash hbs hash_fn none_hash sha256 r i))
      (block_tokens hbs r (Suc i)) (block_keys hbs sha256 r (Suc i))"

lemma extra_keys_memo [simp]:
  "extra_keys sha256 (r\<lparr>prompt_embeds_per_block_hashes := m\<rparr>) s e = extra_keys sha256 r s e"
  by (simp add: extra_keys_def gen_lora_extra_hash_keys_def salt_keys_def embeds_keys_def)

lemma chain_hash_cong:
  assumes "all_token_ids r' = all_token_ids r" "mm_features r' = mm_features r"
    "rq_lora_request r' = rq_lora_request r" "cache_salt r' = cache_salt r" "prompt_embeds r' = prompt_embeds r"
  shows "chain_hash hbs hf nh sha256 r' = chain_hash hbs hf nh sha256 r"
proof
  have "extra_keys sha256 r' s e = extra_keys sha256 r s e" for s e
    using assms by (simp add: extra_keys_def gen_lora_extra_hash_keys_def salt_keys_def embeds_keys_def)
  then show "chain_hash hbs hf nh sha256 r' i = chain_hash hbs hf nh sha256 r i" for i
    using assms by (induction i) simp_all
qed

lemma chain_hash_memo [simp]:
  "chain_hash hbs hf nh sha256 (r\<lparr>prompt_embeds_per_block_hashes := m\<rparr>) = chain_hash hbs hf nh sha256 r"
  by (rule chain_hash_cong) simp_all

lemma num_tokens_memo [simp]: "num_tokens (r\<lparr>prompt_embeds_per_block_hashes := m\<rparr>) = num_tokens r"
  by (simp add: num_tokens_def)

abbreviation prev_hash :: "int \<Rightarrow> (hash_input \<Rightarrow> bytes) \<Rightarrow> bytes \<Rightarrow> (bytes \<Rightarrow> bytes) \<Rightarrow> request \<Rightarrow> nat \<Rightarrow> bytes option" where
  "prev_hash hbs hf nh sha256 r k \<equiv> (if k = 0 then None else Some (chain_hash hbs hf nh sha256 r (k - 1)))"

lemma chain_hash_step:
  "chain_hash hbs hf nh sha256 r k =
    hash_block_tokens hf nh (prev_hash hbs hf nh sha256 r k) (block_tokens hbs r k) (block_keys hbs sha256 r k)"
  by (cases k) simp_all

lemma full_blocks:
  assumes "0 < hbs" "N = nat (num_tokens r div hbs)"
  shows "k \<le> N \<longleftrightarrow> int k * hbs \<le> num_tokens r"
proof -
  have "int N = num_tokens r div hbs"
    using assms by (simp add: num_tokens_def pos_imp_zdiv_nonneg_iff)
  then have "k \<le> N \<longleftrightarrow> int k \<le> num_tokens r div hbs" by linarith
  also have "\<dots> \<longleftrightarrow> int k * hbs \<le> num_tokens r"
    using assms(1) by (rule int_le_div_iff)
  finally show ?thesis .
qed

lemma hasher_loop_ok:
  assumes hbs: "0 < hbs" and srt: "mm_sorted (mm_features r)"
  shows "mm_idx_ok (mm_features r) idx (int k * hbs) \<Longrightarrow> memo_ok sha256 r \<Longrightarrow>
    N = nat (num_tokens r div hbs) \<Longrightarrow> k \<le> N \<Longrightarrow>
    \<exists>m. hasher_loop hbs hf nh sha256 (int k * hbs) idx (prev_hash hbs hf nh sha256 r k) acc r =
      Some (Inr (acc @ map (chain_hash hbs hf nh sha256 r) [k..<N], r\<lparr>prompt_embeds_per_block_hashes := m\<rparr>)) \<and>
      memo_ok sha256 (r\<lparr>prompt_embeds_per_block_hashes := m\<rparr>)"
  using srt
proof (induction "N - k" arbitrary: k idx acc r)
  case 0
  have "int k * hbs + hbs > num_tokens r"
    using full_blocks [OF hbs 0(4), of "Suc k"] 0 by (simp add: algebra_simps)
  then have "hasher_loop hbs hf nh sha256 (int k * hbs) idx (prev_hash hbs hf nh sha256 r k) acc r = Some (Inr (acc, r))"
    by (subst hasher_loop.simps) (simp add: Let_def)
  moreover have "[k..<N] = []" "r\<lparr>prompt_embeds_per_block_hashes := prompt_embeds_per_block_hashes r\<rparr> = r"
    using 0(1) by simp_all
  ultimately show ?case using 0(3) by (metis append_Nil2 list.simps(8))
next
  case (Suc n)
  have kN: "k < N" using Suc.hyps(2) by simp
  have fit: "\<not> int k * hbs + hbs > num_tokens r"
    using full_blocks [OF hbs Suc.prems(3), of "Suc k"] kN by (simp add: algebra_simps)
  obtain idx' memo where g: "generate_block_hash_extra_keys sha256 r (int k * hbs) (int k * hbs + hbs) idx =
      Inr (block_keys hbs sha256 r k, idx', r\<lparr>prompt_embeds_per_block_hashes := memo\<rparr>)"
    and i: "mm_idx_ok (mm_features r) idx' (int k * hbs + hbs)"
    and m: "memo_ok sha256 (r\<lparr>prompt_embeds_per_block_hashes := memo\<rparr>)"
    using generate_keys_ok [OF Suc.prems(5) _ Suc.prems(1,2), of "int k * hbs + hbs"] hbs by auto
  have e: "int k * hbs + hbs = int (Suc k) * hbs" by (simp add: algebra_simps)
  let ?r = "r\<lparr>prompt_embeds_per_block_hashes := memo\<rparr>"
  have "\<exists>m. hasher_loop hbs hf nh sha256 (int (Suc k) * hbs) idx' (prev_hash hbs hf nh sha256 ?r (Suc k))
      (acc @ [chain_hash hbs hf nh sha256 r k]) ?r =
    Some (Inr ((acc @ [chain_hash hbs hf nh sha256 r k]) @ map (chain_hash hbs hf nh sha256 ?r) [Suc k..<N],
      ?r\<lparr>prompt_embeds_per_block_hashes := m\<rparr>)) \<and> memo_ok sha256 (?r\<lparr>prompt_embeds_per_block_hashes := m\<rparr>)"
    using Suc.hyps(2) Suc.prems kN i m e by (intro Suc.hyps(1)) auto
  moreover have "[k..<N] = k # [Suc k..<N]" using kN by (simp add: upt_conv_Cons)
  moreover have "hasher_loop hbs hf nh sha256 (int k * hbs) idx (prev_hash hbs hf nh sha256 r k) acc r =
      hasher_loop hbs hf nh sha256 (int (Suc k) * hbs) idx' (prev_hash hbs hf nh sha256 ?r (Suc k))
        (acc @ [chain_hash hbs hf nh sha256 r k]) ?r"
    using fit g unfolding e by (subst hasher_loop.simps)
      (simp add: Let_def chain_hash_step [of hbs hf nh sha256 r k] e)
  ultimately show ?case by simp
qed

text \<open>The condition the incremental scan of multi-modal items relies on: every item
  but the last has ended in the blocks already hashed.\<close>

definition mm_prefix_done :: "mm_feature list \<Rightarrow> int \<Rightarrow> bool" where
  "mm_prefix_done fs s \<longleftrightarrow> s \<le> 0 \<or> (\<forall>f \<in> set (butlast fs). mm_end f \<le> s)"

lemma hasher_ok:
  assumes hbs: "0 < hbs" and srt: "mm_sorted (mm_features r)" and memo: "memo_ok sha256 r"
    and hs: "rq_block_hashes r = map (chain_hash hbs hf nh sha256 r) [0..<k]"
    and k: "int k * hbs \<le> num_tokens r"
    and mm: "mm_prefix_done (mm_features r) (int k * hbs)"
  shows "\<exists>m. request_block_hasher hbs hf nh sha256 r =
    Some (Inr (map (chain_hash hbs hf nh sha256 r) [k..<nat (num_tokens r div hbs)],
      r\<lparr>prompt_embeds_per_block_hashes := m\<rparr>)) \<and> memo_ok sha256 (r\<lparr>prompt_embeds_per_block_hashes := m\<rparr>)"
proof -
  define N where "N = nat (num_tokens r div hbs)"
  have kN: "k \<le> N" using full_blocks [OF hbs N_def] k by blast
  have len: "int (length (rq_block_hashes r)) = int k" using hs by simp
  let ?idx = "if int k * hbs > 0 then -1 else 0 :: int"
  have "mm_idx_ok (mm_features r) ?idx (int k * hbs)"
  proof -
    have "nat (int (length (mm_features r)) + -1) = length (mm_features r) - 1" by linarith
    then show ?thesis using mm
      by (cases "mm_features r") (auto simp: mm_idx_ok_def mm_prefix_done_def Let_def butlast_conv_take)
  qed
  from hasher_loop_ok [OF hbs srt this memo N_def kN, of hf nh "[]"]
  obtain m where L: "hasher_loop hbs hf nh sha256 (int k * hbs) ?idx (prev_hash hbs hf nh sha256 r k) [] r =
      Some (Inr (map (chain_hash hbs hf nh sha256 r) [k..<N], r\<lparr>prompt_embeds_per_block_hashes := m\<rparr>))"
    "memo_ok sha256 (r\<lparr>prompt_embeds_per_block_hashes := m\<rparr>)" by auto
  have prev: "(if rq_block_hashes r = [] then None else Some (last (rq_block_hashes r))) = prev_hash hbs hf nh sha256 r k"
    using hs by (cases k) auto
  show ?thesis
  proof (cases "int k * hbs + hbs > num_tokens r")
    case True
    then have "N \<le> k" using full_blocks [OF hbs N_def, of "Suc k"] by (simp add: algebra_simps)
    then show ?thesis using True unfolding request_block_hasher_def len N_def [symmetric]
      using memo by (auto simp: Let_def intro!: exI [of _ "prompt_embeds_per_block_hashes r"])
  next
    case False
    then show ?thesis using L unfolding request_block_hasher_def len N_def [symmetric] prev
      by (auto simp: Let_def)
  qed
qed

section \<open>Appending tokens\<close>

text \<open>The block hashes of a request are those of all its full blocks.\<close>

definition hashes_ok :: "int \<Rightarrow> (hash_input \<Rightarrow> bytes) \<Rightarrow> bytes \<Rightarrow> (bytes \<Rightarrow> bytes) \<Rightarrow> request \<Rightarrow> bool" where
  "hashes_ok hbs hf nh sha256 r \<longleftrightarrow> memo_ok sha256 r \<and>
    rq_block_hashes r = map (chain_hash hbs hf nh sha256 r) [0..<nat (num_tokens r div hbs)]"

lemma chain_hash_append:
  assumes hbs: "0 < hbs" and r': "r' = r\<lparr>output_token_ids := out, all_token_ids := all_token_ids r @ toks\<rparr>"
  shows "int (Suc i) * hbs \<le> num_tokens r \<Longrightarrow> chain_hash hbs hf nh sha256 r' i = chain_hash hbs hf nh sha256 r i"
proof (induction i)
  have keys: "extra_keys sha256 r' s e = extra_keys sha256 r s e" for s e
    by (simp add: r' extra_keys_def gen_lora_extra_hash_keys_def salt_keys_def embeds_keys_def)
  have toks: "block_tokens hbs r' i = block_tokens hbs r i" if i: "int (Suc i) * hbs \<le> num_tokens r" for i
  proof -
    have "int i * hbs + hbs \<le> int (length (all_token_ids r))"
      using i by (simp add: num_tokens_def algebra_simps)
    then have "nat (int i * hbs + hbs) \<le> length (all_token_ids r)" by linarith
    moreover have "nat (int i * hbs) \<le> nat (int i * hbs + hbs)" using hbs by linarith
    ultimately show ?thesis using hbs by (simp add: r' py_slice_nat)
  qed
  {
    case 0
    show ?case using toks [of 0] 0 keys by simp
  next
    case (Suc i)
    have "int (Suc i) * hbs \<le> num_tokens r" using Suc.prems hbs by (simp add: algebra_simps)
    then have "chain_hash hbs hf nh sha256 r' i = chain_hash hbs hf nh sha256 r i" by (rule Suc.IH)
    then show ?case using toks [OF Suc.prems] by (simp only: chain_hash.simps keys)
  }
qed


lemma new_request_hashes_ok:
  assumes hbs: "0 < hbs" and srt: "mm_sorted mm" and sp: "sp_max_tokens sp = Some n"
  shows "\<exists>r. new_request (Some (request_block_hasher hbs hf nh sha256)) rid oid (Some prompt) (Some sp) None arrival
      None (Some mm) lora salt prio resum = Some (Inr r) \<and> hashes_ok hbs hf nh sha256 r \<and>
    all_token_ids r = prompt \<and> mm_features r = mm"
proof -
  let ?H = "Some (request_block_hasher hbs hf nh sha256)"
  have "\<exists>r. new_request ?H rid oid (Some prompt) (Some sp) None arrival None (Some mm) lora salt prio resum =
      update_block_hashes ?H r \<and> all_token_ids r = prompt \<and> mm_features r = mm \<and> rq_block_hashes r = [] \<and>
      prompt_embeds_per_block_hashes r = (\<lambda>_. None)"
    by (cases "sp_structured_outputs sp";
        simp add: new_request_def sp length_from_prompt_token_ids_or_embeds_def;
        (rule exI, rule conjI, rule refl, simp))
  then obtain r where u: "new_request ?H rid oid (Some prompt) (Some sp) None arrival None (Some mm) lora salt prio resum =
      update_block_hashes ?H r"
    and r: "all_token_ids r = prompt" "mm_features r = mm" "rq_block_hashes r = []"
      "prompt_embeds_per_block_hashes r = (\<lambda>_. None)"
    by blast
  have memo: "memo_ok sha256 r" using r by (simp add: memo_ok_def)
  let ?N = "nat (num_tokens r div hbs)"
  obtain m where h: "request_block_hasher hbs hf nh sha256 r =
      Some (Inr (map (chain_hash hbs hf nh sha256 r) [0..<?N], r\<lparr>prompt_embeds_per_block_hashes := m\<rparr>))"
    and m: "memo_ok sha256 (r\<lparr>prompt_embeds_per_block_hashes := m\<rparr>)"
    using hasher_ok [OF hbs _ memo, of hf nh 0] srt r by (auto simp: mm_prefix_done_def num_tokens_def)
  let ?r = "r\<lparr>prompt_embeds_per_block_hashes := m, rq_block_hashes := map (chain_hash hbs hf nh sha256 r) [0..<?N]\<rparr>"
  have "update_block_hashes (Some (request_block_hasher hbs hf nh sha256)) r = Some (Inr ?r)"
    using h r by (simp add: update_block_hashes_def)
  moreover have "chain_hash hbs hf nh sha256 ?r = chain_hash hbs hf nh sha256 r"
    by (rule chain_hash_cong) simp_all
  then have "hashes_ok hbs hf nh sha256 ?r"
    using m by (simp add: hashes_ok_def memo_ok_def num_tokens_def)
  ultimately show ?thesis using u r by (intro exI [of _ ?r]) simp
qed



section \<open>Resuming at the last item\<close>

text \<open>A hasher that resumes starts at the last multi-modal item, so it behaves as if there were no other.\<close>

definition same_item :: "mm_feature list \<Rightarrow> int \<Rightarrow> int \<Rightarrow> bool" where
  "same_item fs idx idx' \<longleftrightarrow> idx = -1 \<and> idx' = -1 \<or> 0 \<le> idx' \<and> idx = int (length fs) + idx'"

lemma mm_keys_loop_shift: "mm_keys_loop s e gs (c + idx) keys = apsnd ((+) c) (mm_keys_loop s e gs idx keys)"
  by (induction gs arbitrary: idx keys) (simp_all add: Let_def add.assoc)

lemma mm_keys_loop_idx: "idx \<le> snd (mm_keys_loop s e gs idx keys)"
proof (induction gs arbitrary: idx keys)
  case (Cons g gs)
  have "idx \<le> snd (mm_keys_loop s e gs (idx + 1) ks)" for ks using Cons [of "idx + 1" ks] by simp
  then show ?case by (simp add: Let_def)
qed simp

lemma gen_mm_scan:
  assumes "gs \<noteq> []" "last gs = l" "\<not> mm_end l \<le> s" "- int (length gs) \<le> idx"
  shows "gen_mm_extra_hash_keys (r\<lparr>mm_features := gs\<rparr>) s e idx =
    (let i = (if idx < 0 then int (length gs) + idx else idx) in Inr (mm_keys_loop s e (drop (nat i) gs) i []))"
  using assms by (simp add: gen_mm_extra_hash_keys_def py_assert_def)

lemma gen_mm_last:
  assumes "same_item fs idx idx'"
  shows "\<exists>keys j j'. same_item fs j j' \<and> gen_mm_extra_hash_keys (r\<lparr>mm_features := fs @ [l]\<rparr>) s e idx = Inr (keys, j) \<and>
    gen_mm_extra_hash_keys (r\<lparr>mm_features := [l]\<rparr>) s e idx' = Inr (keys, j')"
proof (cases "mm_end l \<le> s")
  case True
  then show ?thesis using assms by (auto simp: gen_mm_extra_hash_keys_def Let_def)
next
  case False
  define k where "k = (if idx' < 0 then 0 else idx')"
  have k: "0 \<le> k" "(if idx < 0 then int (length (fs @ [l])) + idx else idx) = int (length fs) + k"
    "(if idx' < 0 then int (length [l]) + idx' else idx') = k" using assms by (auto simp: same_item_def k_def)
  have d: "drop (nat (int (length fs) + k)) (fs @ [l]) = drop (nat k) [l]" using k(1) by (simp add: nat_add_distrib)
  obtain keys j where m: "mm_keys_loop s e (drop (nat k) [l]) k [] = (keys, j)" by fastforce
  have "same_item fs (int (length fs) + j) j" using mm_keys_loop_idx [of k s e "drop (nat k) [l]" "[]"] m k(1) by (simp add: same_item_def)
  moreover have "gen_mm_extra_hash_keys (r\<lparr>mm_features := fs @ [l]\<rparr>) s e idx = Inr (keys, int (length fs) + j)"
    using gen_mm_scan [OF _ _ False, of "fs @ [l]" idx r e, unfolded k(2) Let_def d mm_keys_loop_shift m] assms by (auto simp: same_item_def)
  moreover have "gen_mm_extra_hash_keys (r\<lparr>mm_features := [l]\<rparr>) s e idx' = Inr (keys, j)"
    using gen_mm_scan [OF _ _ False, of "[l]" idx' r e, unfolded k(3) Let_def m] assms by (auto simp: same_item_def)
  ultimately show ?thesis by blast
qed

lemma generate_keys_last:
  assumes "same_item fs idx idx'"
  shows "\<exists>extra j j' m. same_item fs j j' \<and>
    generate_block_hash_extra_keys sha256 (r\<lparr>mm_features := fs @ [l]\<rparr>) s e idx =
      Inr (extra, j, r\<lparr>mm_features := fs @ [l], prompt_embeds_per_block_hashes := m\<rparr>) \<and>
    generate_block_hash_extra_keys sha256 (r\<lparr>mm_features := [l]\<rparr>) s e idx' =
      Inr (extra, j', r\<lparr>mm_features := [l], prompt_embeds_per_block_hashes := m\<rparr>)"
proof -
  obtain keys j j' where g: "same_item fs j j'" "gen_mm_extra_hash_keys (r\<lparr>mm_features := fs @ [l]\<rparr>) s e idx = Inr (keys, j)"
    "gen_mm_extra_hash_keys (r\<lparr>mm_features := [l]\<rparr>) s e idx' = Inr (keys, j')" using gen_mm_last [OF assms] by blast
  have "\<exists>ks m. \<forall>gs. gen_prompt_embeds_extra_hash_keys sha256 (r\<lparr>mm_features := gs\<rparr>) s e =
      (ks, r\<lparr>mm_features := gs, prompt_embeds_per_block_hashes := m\<rparr>)"
  proof (cases "prompt_embeds r")
    case None
    then show ?thesis by (intro exI [of _ "[]"] exI [of _ "prompt_embeds_per_block_hashes r"]) (simp add: gen_prompt_embeds_extra_hash_keys_def)
  next
    case (Some rows)
    let ?h = "sha256 (concat (py_slice rows s e))"
    show ?thesis
    proof (cases "prompt_embeds_per_block_hashes r (s, e)")
      case None
      then show ?thesis using Some
        by (intro exI [of _ "[KBytes ?h]"] exI [of _ "(prompt_embeds_per_block_hashes r)((s, e) \<mapsto> ?h)"])
          (simp add: gen_prompt_embeds_extra_hash_keys_def Let_def)
    next
      case (Some h)
      then show ?thesis using \<open>prompt_embeds r = Some rows\<close>
        by (intro exI [of _ "[KBytes h]"] exI [of _ "prompt_embeds_per_block_hashes r"]) (simp add: gen_prompt_embeds_extra_hash_keys_def)
    qed
  qed
  then obtain ks m where p: "gen_prompt_embeds_extra_hash_keys sha256 (r\<lparr>mm_features := gs\<rparr>) s e =
      (ks, r\<lparr>mm_features := gs, prompt_embeds_per_block_hashes := m\<rparr>)" for gs by blast
  let ?ks = "gen_lora_extra_hash_keys r @ keys @ (case cache_salt r of None \<Rightarrow> [] | Some t \<Rightarrow> if s = 0 \<and> t \<noteq> [] then [KStr t] else []) @ ks"
  have "generate_block_hash_extra_keys sha256 (r\<lparr>mm_features := gs\<rparr>) s e i =
      Inr (if ?ks = [] then None else Some ?ks, i', r\<lparr>mm_features := gs, prompt_embeds_per_block_hashes := m\<rparr>)"
    if "gen_mm_extra_hash_keys (r\<lparr>mm_features := gs\<rparr>) s e i = Inr (keys, i')" for gs i i'
    unfolding generate_block_hash_extra_keys_def that p by (simp add: Let_def gen_lora_extra_hash_keys_def)
  then show ?thesis using g by blast
qed

lemma hasher_loop_last:
  assumes "0 < hbs" "same_item fs idx idx'"
  shows "hasher_loop hbs hf nh sha256 start idx prev acc (r\<lparr>mm_features := fs @ [l]\<rparr>) =
    map_option (map_sum id (\<lambda>(hs, q). (hs, q\<lparr>mm_features := fs @ [l]\<rparr>)))
      (hasher_loop hbs hf nh sha256 start idx' prev acc (r\<lparr>mm_features := [l]\<rparr>))"
  using assms(2)
proof (induction "nat (num_tokens r - start)" arbitrary: start idx idx' prev acc r rule: less_induct)
  case less
  have n: "num_tokens (r\<lparr>mm_features := gs\<rparr>) = num_tokens r" for gs by (simp add: num_tokens_def)
  show ?case
  proof (cases "start + hbs > num_tokens r")
    case True
    then show ?thesis by (subst (1 2) hasher_loop.simps) (simp add: n Let_def)
  next
    case False
    obtain extra j j' m where g: "same_item fs j j'"
      "generate_block_hash_extra_keys sha256 (r\<lparr>mm_features := fs @ [l]\<rparr>) start (start + hbs) idx =
        Inr (extra, j, r\<lparr>mm_features := fs @ [l], prompt_embeds_per_block_hashes := m\<rparr>)"
      "generate_block_hash_extra_keys sha256 (r\<lparr>mm_features := [l]\<rparr>) start (start + hbs) idx' =
        Inr (extra, j', r\<lparr>mm_features := [l], prompt_embeds_per_block_hashes := m\<rparr>)"
      using generate_keys_last [OF less.prems] by blast
    let ?r = "r\<lparr>prompt_embeds_per_block_hashes := m\<rparr>"
    let ?h = "hash_block_tokens hf nh prev (py_slice (all_token_ids r) start (start + hbs)) extra"
    have e: "r\<lparr>mm_features := gs, prompt_embeds_per_block_hashes := m\<rparr> = ?r\<lparr>mm_features := gs\<rparr>" for gs by simp
    have "nat (num_tokens ?r - (start + hbs)) < nat (num_tokens r - start)" using False assms(1) by simp
    from less.hyps [OF this g(1)] show ?thesis using False
      by (subst (1 2) hasher_loop.simps) (simp add: n g(2,3) Let_def e del: num_tokens_memo)
  qed
qed

lemma hasher_last:
  assumes "0 < hbs" "0 < int (length (rq_block_hashes q)) * hbs" "mm_features q = [l]"
  shows "request_block_hasher hbs hf nh sha256 (q\<lparr>mm_features := fs @ [l]\<rparr>) =
    map_option (map_sum id (\<lambda>(hs, p). (hs, p\<lparr>mm_features := fs @ [l]\<rparr>))) (request_block_hasher hbs hf nh sha256 q)"
proof -
  have q: "q\<lparr>mm_features := [l]\<rparr> = q" using assms(3) by simp
  have n: "num_tokens (q\<lparr>mm_features := gs\<rparr>) = num_tokens q" for gs by (simp add: num_tokens_def)
  have i: "same_item fs (-1) (-1)" by (simp add: same_item_def)
  show ?thesis using hasher_loop_last [OF assms(1) i, where r = q and l = l and hf = hf and nh = nh and ?sha256.0 = sha256] assms(2)
    by (simp add: request_block_hasher_def Let_def n q)
qed

lemma extra_keys_items:
  assumes "mm_block_keys gs s e = mm_block_keys (mm_features r) s e"
  shows "extra_keys sha256 (r\<lparr>mm_features := gs\<rparr>) s e = extra_keys sha256 r s e"
  using assms by (simp add: extra_keys_def gen_lora_extra_hash_keys_def salt_keys_def embeds_keys_def)

lemma chain_hash_items:
  assumes "\<And>k. k \<le> i \<Longrightarrow> mm_block_keys gs (int k * hbs) (int k * hbs + hbs) = mm_block_keys (mm_features r) (int k * hbs) (int k * hbs + hbs)"
  shows "chain_hash hbs hf nh sha256 (r\<lparr>mm_features := gs\<rparr>) i = chain_hash hbs hf nh sha256 r i"
  using assms
proof (induction i)
  case 0
  then show ?case using extra_keys_items [of gs 0 "0 + hbs" r] by simp
next
  case (Suc i)
  have "extra_keys sha256 (r\<lparr>mm_features := gs\<rparr>) (int (Suc i) * hbs) (int (Suc i) * hbs + hbs) =
      extra_keys sha256 r (int (Suc i) * hbs) (int (Suc i) * hbs + hbs)" using Suc.prems [of "Suc i"] by (intro extra_keys_items) simp
  then show ?case using Suc.IH Suc.prems by (simp only: chain_hash.simps) simp
qed

lemma append_last_item:
  assumes hbs: "0 < hbs" and srt: "mm_sorted (fs @ [l])" and ok: "hashes_ok hbs hf nh sha256 r" and mm: "mm_features r = fs @ [l]"
    and n: "hbs \<le> num_tokens r" and off: "\<forall>f \<in> set (fs @ [l]). round_down (num_tokens r) hbs \<le> mm_off f"
  shows "\<exists>r'. append_output_token_ids (Some (request_block_hasher hbs hf nh sha256)) toks r = Some (Inr r') \<and>
    all_token_ids r' = all_token_ids r @ toks \<and> mm_features r' = fs @ [l] \<and>
    rq_block_hashes r' = map (chain_hash hbs hf nh sha256 (r'\<lparr>mm_features := [l]\<rparr>)) [0..<nat (num_tokens r' div hbs)]"
proof -
  define k where "k = nat (num_tokens r div hbs)"
  let ?r = "r\<lparr>output_token_ids := output_token_ids r @ toks, all_token_ids := all_token_ids r @ toks\<rparr>"
  let ?q = "?r\<lparr>mm_features := [l]\<rparr>"
  define N where "N = nat (num_tokens ?q div hbs)"
  have nk: "int k = num_tokens r div hbs" using hbs n by (simp add: k_def pos_imp_zdiv_nonneg_iff)
  have k0: "0 < k" using full_blocks [OF hbs k_def, of 1] n by simp
  have kle: "int k * hbs \<le> num_tokens r" using full_blocks [OF hbs k_def, of k] by simp
  have le: "num_tokens r \<le> num_tokens ?q" by (simp add: num_tokens_def)
  have kN: "k \<le> N" using full_blocks [OF hbs N_def, of k] kle le by simp
  have keys: "mm_block_keys gs (int i * hbs) (int i * hbs + hbs) = []" if "i < k" "set gs \<subseteq> set (fs @ [l])" for i gs
  proof (rule mm_block_keys_empty)
    fix f assume "f \<in> set gs"
    then have "int k * hbs \<le> mm_off f" using off that(2) nk by (auto simp: round_down_def)
    moreover have "int (Suc i) * hbs \<le> int k * hbs" using that(1) hbs by (intro mult_right_mono) simp_all
    ultimately show "mm_end f \<le> int i * hbs \<or> int i * hbs + hbs \<le> mm_off f" by (simp add: algebra_simps)
  qed
  have same: "chain_hash hbs hf nh sha256 ?q i = chain_hash hbs hf nh sha256 r i" if i: "i < k" for i
  proof -
    have "chain_hash hbs hf nh sha256 ?q i = chain_hash hbs hf nh sha256 ?r i"
    proof (rule chain_hash_items)
      fix j assume "j \<le> i"
      then show "mm_block_keys [l] (int j * hbs) (int j * hbs + hbs) = mm_block_keys (mm_features ?r) (int j * hbs) (int j * hbs + hbs)"
        using keys [of j "[l]"] keys [of j "fs @ [l]"] i mm by simp
    qed
    also have "\<dots> = chain_hash hbs hf nh sha256 r i"
      using chain_hash_append [OF hbs refl] full_blocks [OF hbs k_def, of "Suc i"] i by simp
    finally show ?thesis .
  qed
  have hs: "rq_block_hashes ?q = map (chain_hash hbs hf nh sha256 ?q) [0..<k]" using ok same by (auto simp: hashes_ok_def k_def)
  have memo: "memo_ok sha256 ?q" using ok by (simp add: hashes_ok_def memo_ok_def)
  have srt': "mm_sorted (mm_features ?q)" using srt by (simp add: mm_sorted_def)
  obtain m where R: "request_block_hasher hbs hf nh sha256 ?q =
      Some (Inr (map (chain_hash hbs hf nh sha256 ?q) [k..<N], ?q\<lparr>prompt_embeds_per_block_hashes := m\<rparr>))"
    using hasher_ok [OF hbs srt' memo hs] kle le unfolding N_def by (auto simp: mm_prefix_done_def)
  have q: "?r = ?q\<lparr>mm_features := fs @ [l]\<rparr>" using mm by simp
  have pos: "0 < int (length (rq_block_hashes ?q)) * hbs" using hs k0 hbs by (simp del: request.simps)
  have "request_block_hasher hbs hf nh sha256 (?q\<lparr>mm_features := fs @ [l]\<rparr>) =
      map_option (map_sum id (\<lambda>(hs, p). (hs, p\<lparr>mm_features := fs @ [l]\<rparr>))) (request_block_hasher hbs hf nh sha256 ?q)"
    using hasher_last [OF hbs pos] by simp
  then have R': "request_block_hasher hbs hf nh sha256 ?r =
      Some (Inr (map (chain_hash hbs hf nh sha256 ?q) [k..<N], ?r\<lparr>prompt_embeds_per_block_hashes := m\<rparr>))"
    unfolding R q [symmetric] using mm by simp
  let ?r' = "?r\<lparr>prompt_embeds_per_block_hashes := m, rq_block_hashes := map (chain_hash hbs hf nh sha256 ?q) [0..<N]\<rparr>"
  have "[0..<k] @ [k..<N] = [0..<N]" using upt_add_eq_append [of 0 k "N - k"] kN by simp
  then have "append_output_token_ids (Some (request_block_hasher hbs hf nh sha256)) toks r = Some (Inr ?r')"
    using R' hs by (simp add: append_output_token_ids_def update_block_hashes_def flip: map_append)
  moreover have "chain_hash hbs hf nh sha256 (?r'\<lparr>mm_features := [l]\<rparr>) = chain_hash hbs hf nh sha256 ?q" by (rule chain_hash_cong) simp_all
  moreover have "num_tokens ?r' = num_tokens ?q" by (simp add: num_tokens_def)
  ultimately show ?thesis using mm by (intro exI [of _ ?r']) (simp add: N_def)
qed

lemma dropped_keys:
  assumes "mm_features r = fs @ [l]" "f \<in> set fs" "mm_off f < int i * hbs + hbs" "int i * hbs < mm_end f"
  shows "block_keys hbs sha256 (r\<lparr>mm_features := [l]\<rparr>) i \<noteq> block_keys hbs sha256 r i"
proof -
  have "mm_block_keys fs (int i * hbs) (int i * hbs + hbs) \<noteq> []" using assms(2-4) by (auto simp: mm_block_keys_def filter_empty_conv)
  then show ?thesis
    by (auto simp: extra_keys_def assms(1) mm_block_keys_append gen_lora_extra_hash_keys_def salt_keys_def embeds_keys_def Let_def)
qed

section \<open>What a hash stands for\<close>

text \<open>The assumption on the third-party hash: no two inputs collide, and no digest is
  empty or equal to the seed of the chain.\<close>

definition collision_free :: "(hash_input \<Rightarrow> bytes) \<Rightarrow> bytes \<Rightarrow> bool" where
  "collision_free hf nh \<longleftrightarrow> inj hf \<and> (\<forall>x. hf x \<noteq> [] \<and> hf x \<noteq> nh)"

lemma chain_hash_eq:
  assumes cf: "collision_free hf nh"
  shows "chain_hash hbs hf nh sha256 r i = chain_hash hbs hf nh sha256 r' j \<Longrightarrow>
    i = j \<and> (\<forall>k \<le> i. block_tokens hbs r k = block_tokens hbs r' k \<and> block_keys hbs sha256 r k = block_keys hbs sha256 r' k)"
proof (induction i arbitrary: j)
  have inj: "hf x = hf y \<longleftrightarrow> x = y" for x y using cf unfolding collision_free_def by (meson injD)
  have ne: "hf x \<noteq> []" "hf x \<noteq> nh" "nh \<noteq> hf x" for x using cf by (metis collision_free_def)+
  have c0: "chain_hash hbs hf nh sha256 q 0 = hf (nh, block_tokens hbs q 0, block_keys hbs sha256 q 0)" for q
    by (simp add: hash_block_tokens_def)
  have cne: "chain_hash hbs hf nh sha256 q k \<noteq> [] \<and> chain_hash hbs hf nh sha256 q k \<noteq> nh" for q k
    by (cases k) (simp_all add: hash_block_tokens_def ne)
  have cs: "chain_hash hbs hf nh sha256 q (Suc k) =
      hf (chain_hash hbs hf nh sha256 q k, block_tokens hbs q (Suc k), block_keys hbs sha256 q (Suc k))" for q k
    using cne [of q k] by (simp add: hash_block_tokens_def)
  {
    case 0
    note eq = 0
    show ?case
    proof (cases j)
      case 0
      then show ?thesis using eq by (simp only: c0 inj prod.inject) simp
    next
      case (Suc k)
      then show ?thesis using eq cne [of r' k] by (simp only: c0 cs inj prod.inject) simp
    qed
  next
    case (Suc i)
    obtain k where k: "j = Suc k" using Suc.prems cne [of r i] by (cases j) (auto simp only: c0 cs inj prod.inject)
    have eq: "chain_hash hbs hf nh sha256 r i = chain_hash hbs hf nh sha256 r' k"
      "block_tokens hbs r (Suc i) = block_tokens hbs r' (Suc k)" "block_keys hbs sha256 r (Suc i) = block_keys hbs sha256 r' (Suc k)"
      using Suc.prems unfolding k by (simp_all only: cs inj prod.inject)
    from Suc.IH [OF eq(1)] show ?case using eq(2,3) k by (auto simp: le_Suc_eq)
  }
qed

lemma take_blocks:
  assumes hbs: "0 < hbs"
  shows "(\<forall>k < n. block_tokens hbs r k = block_tokens hbs r' k) \<Longrightarrow>
    take (n * nat hbs) (all_token_ids r) = take (n * nat hbs) (all_token_ids r')"
proof (induction n)
  case (Suc n)
  have b: "block_tokens hbs q n = take (nat hbs) (drop (n * nat hbs) (all_token_ids q))" for q
    using hbs by (simp add: py_slice_nat nat_add_distrib nat_mult_distrib)
  have "take (Suc n * nat hbs) (all_token_ids q) = take (n * nat hbs) (all_token_ids q) @ block_tokens hbs q n" for q
    unfolding b by (simp add: take_add [symmetric] add.commute)
  then show ?case using Suc by simp
qed simp

section \<open>Coarser views and block sizes\<close>

lemma view_ok:
  assumes hbs: "0 < hbs" and f: "0 < f" and ok: "hashes_ok hbs hf nh sha256 r"
  defines "v \<equiv> \<lparr>hl_block_hashes = rq_block_hashes r, hl_scale_factor = f\<rparr>"
  shows "block_hash_list_with_block_size (rq_block_hashes r) hbs (f * hbs) = Inr v"
    "hl_len v = num_tokens r div (f * hbs)"
    "int i < hl_len v \<Longrightarrow> hl_value_at v (int i) = Inr (chain_hash hbs hf nh sha256 r (Suc i * nat f - 1))"
proof -
  show "block_hash_list_with_block_size (rq_block_hashes r) hbs (f * hbs) = Inr v"
    using hbs by (simp add: block_hash_list_with_block_size_def v_def)
  have n: "0 \<le> num_tokens r div hbs" using hbs by (simp add: num_tokens_def pos_imp_zdiv_nonneg_iff)
  have len: "int (length (rq_block_hashes r)) = num_tokens r div hbs" using ok n by (simp add: hashes_ok_def)
  show hl: "hl_len v = num_tokens r div (f * hbs)"
    using len hbs f zdiv_zmult2_eq [of f "num_tokens r" hbs] by (simp add: hl_len_def v_def mult.commute)
  show "hl_value_at v (int i) = Inr (chain_hash hbs hf nh sha256 r (Suc i * nat f - 1))" if i: "int i < hl_len v"
  proof -
    have "int (Suc i) \<le> int (length (rq_block_hashes r)) div f" using i by (simp add: hl_len_def v_def)
    then have le: "int (Suc i) * f \<le> int (length (rq_block_hashes r))" using f int_le_div_iff by blast
    have e: "(int i + 1) * f - 1 = int (Suc i * nat f - 1)"
    proof -
      have "1 \<le> Suc i * nat f" using f by simp
      then show ?thesis using f by (simp add: of_nat_diff algebra_simps)
    qed
    have lt: "Suc i * nat f - 1 < length (rq_block_hashes r)"
    proof -
      have "int (Suc i * nat f) \<le> int (length (rq_block_hashes r))" using le f by (simp add: algebra_simps)
      moreover have "1 \<le> Suc i * nat f" using f by simp
      ultimately show ?thesis by linarith
    qed
    have "hl_value_at v (int i) = py_index (rq_block_hashes r) ((int i + 1) * f - 1)"
      by (simp add: hl_value_at_def v_def)
    then have "hl_value_at v (int i) = Inr (rq_block_hashes r ! (Suc i * nat f - 1))"
      unfolding e using lt by (simp only: py_index_nat)
    then show ?thesis using lt ok by (simp add: hashes_ok_def)
  qed
qed

lemma hl_from_ok:
  assumes f: "0 < hl_scale_factor v"
  shows "hl_from v 0 = Inr (map (\<lambda>i. hl_block_hashes v ! nat ((i + 1) * hl_scale_factor v - 1)) [0..hl_len v - 1])"
    "0 \<le> i \<Longrightarrow> i < hl_len v \<Longrightarrow> (i + 1) * hl_scale_factor v \<le> int (length (hl_block_hashes v))"
proof -
  let ?f = "hl_scale_factor v" and ?hs = "hl_block_hashes v"
  show le: "(i + 1) * ?f \<le> int (length ?hs)" if "0 \<le> i" "i < hl_len v" for i
    using that f int_le_div_iff [OF f, of "i + 1" "int (length ?hs)"] by (simp add: hl_len_def)
  have v: "hl_value_at v i = Inr (?hs ! nat ((i + 1) * ?f - 1))" if "i \<in> set [0..hl_len v - 1]" for i
  proof -
    have i: "0 \<le> i" "i < hl_len v" using that by auto
    have "1 \<le> (i + 1) * ?f" using i(1) f by (metis add.commute int_one_le_iff_zero_less less_add_same_cancel1 mult_pos_pos
          add_pos_nonneg zero_less_one)
    then show ?thesis using le [OF i] by (simp add: hl_value_at_def py_index_def)
  qed
  have "0 \<le> hl_len v" using f by (simp add: hl_len_def pos_imp_zdiv_nonneg_iff)
  then show "hl_from v 0 = Inr (map (\<lambda>i. ?hs ! nat ((i + 1) * ?f - 1)) [0..hl_len v - 1])"
    using rfold_collect [of "[0..hl_len v - 1]" "hl_value_at v" "\<lambda>i. ?hs ! nat ((i + 1) * ?f - 1)" "[]"] v
    by (simp add: hl_from_def)
qed

lemma foldr_lcm_dvd: "x \<in> set xs \<Longrightarrow> x dvd foldr lcm xs (1 :: int)"
  by (induction xs) (auto intro: dvd_trans)

lemma foldr_gcd_dvd: "x \<in> set xs \<Longrightarrow> foldr gcd xs (0 :: int) dvd x"
  by (induction xs) (auto intro: dvd_trans)

section \<open>Properties\<close>

text \<open>C17. A cache key packs a block hash and a KV cache group id without loss: for
  every group id that fits four bytes the two parts are recovered, and every
  other group id raises \<^verbatim>\<open>OverflowError\<close>.\<close>

theorem key_round_trip:
  "case make_block_hash_with_group_id h g of
     Inr k \<Rightarrow> 0 \<le> g \<and> g < 2 ^ 32 \<and> get_block_hash k = h \<and> get_group_id k = g
   | Inl e \<Rightarrow> e = OverflowError \<and> \<not> (0 \<le> g \<and> g < 2 ^ 32)"
proof (cases "0 \<le> g \<and> g < 2 ^ 32")
  case True
  then show ?thesis using make_key_ok [of g h] by auto
next
  case False
  then show ?thesis using make_key_err [OF False, of h] by simp
qed

text \<open>C15. Prefix caching never confuses two prefixes: when the hash function has no
  collisions and the hashes of two requests are those of their full blocks, equal
  hashes mean the same block index, the same tokens up to the end of that block
  and the same extra keys (LoRA, images, salt, embeddings) for every block up to it.\<close>

theorem block_hash_determines_prefix:
  assumes "collision_free hf nh" "0 < hbs"
    and "hashes_ok hbs hf nh sha256 r" "hashes_ok hbs hf nh sha256 r'"
    and "i < length (rq_block_hashes r)" "j < length (rq_block_hashes r')"
    and "rq_block_hashes r ! i = rq_block_hashes r' ! j"
  shows "i = j \<and> take (Suc i * nat hbs) (all_token_ids r) = take (Suc i * nat hbs) (all_token_ids r') \<and>
    (\<forall>k \<le> i. extra_keys sha256 r (int k * hbs) (int k * hbs + hbs) =
             extra_keys sha256 r' (int k * hbs) (int k * hbs + hbs))"
proof -
  have "chain_hash hbs hf nh sha256 r i = chain_hash hbs hf nh sha256 r' j"
    using assms(3-7) by (simp add: hashes_ok_def)
  from chain_hash_eq [OF assms(1) this] show ?thesis
    using take_blocks [OF assms(2), of "Suc i" r r'] by (simp add: less_Suc_eq_le)
qed

instance extra_key :: countable
  by countable_datatype

definition ex_hash :: "hash_input \<Rightarrow> bytes" where
  "ex_hash x = replicate (Suc (to_nat x)) 1"

lemma ex_hash_collision_free: "collision_free ex_hash [0]"
proof -
  have "inj ex_hash"
  proof (rule injI)
    fix x y assume "ex_hash x = ex_hash y"
    then have "length (ex_hash x) = length (ex_hash y)" by simp
    then show "x = y" by (simp add: ex_hash_def)
  qed
  then show ?thesis by (auto simp: collision_free_def ex_hash_def)
qed

definition ex_hashed :: "int list \<Rightarrow> request" where
  "ex_hashed toks = (ex_request toks [])\<lparr>rq_block_hashes :=
     map (chain_hash 2 ex_hash [0] id (ex_request toks [])) [0..<length toks div 2]\<rparr>"

lemma ex_hashed_ok: "hashes_ok 2 ex_hash [0] id (ex_hashed toks)"
proof -
  have "chain_hash 2 ex_hash [0] id (ex_hashed toks) = chain_hash 2 ex_hash [0] id (ex_request toks [])"
    by (rule chain_hash_cong) (simp_all add: ex_hashed_def ex_request_def)
  moreover have "nat (int (length toks) div 2) = length toks div 2" by (simp add: nat_div_distrib)
  ultimately show ?thesis by (simp add: hashes_ok_def memo_ok_def num_tokens_def) (simp add: ex_hashed_def ex_request_def)
qed

theorem block_hash_determines_prefix_witness:
  "take 2 (all_token_ids (ex_hashed [5, 6, 7])) = take 2 (all_token_ids (ex_hashed [5, 6, 8, 9]))"
proof -
  have "rq_block_hashes (ex_hashed [5, 6, 7]) ! 0 = rq_block_hashes (ex_hashed [5, 6, 8, 9]) ! 0"
    by (simp add: ex_hashed_def ex_request_def extra_keys_def gen_lora_extra_hash_keys_def mm_block_keys_def
        salt_keys_def embeds_keys_def py_slice_def slice_bound_def)
  from block_hash_determines_prefix [OF ex_hash_collision_free _ ex_hashed_ok ex_hashed_ok _ _ this] show ?thesis
    by (simp add: ex_hashed_def ex_request_def)
qed



text \<open>C18. The proviso of the previous property is necessary.  Let a request have at least one full
  block in its prompt and all its multi-modal items behind the full blocks of the prompt, and let it
  receive any output.  Then its hashes are those of the request with the last item alone, whatever
  the other items are; and, when the hash function has no collisions, the hash of every block that any other item
  overlaps differs from the hash of the block's tokens and all its items.\<close>

theorem incremental_hashing_drops_image:
  assumes "0 < hbs" "mm_sorted (fs @ [l])" "sp_max_tokens sp = Some n" "hbs \<le> int (length prompt)"
    and "\<forall>f \<in> set (fs @ [l]). round_down (int (length prompt)) hbs \<le> mm_off f"
  shows "\<exists>r r'. new_request (Some (request_block_hasher hbs hf nh sha256)) rid oid (Some prompt) (Some sp) None
      arrival None (Some (fs @ [l])) lora salt prio resum = Some (Inr r) \<and>
    append_output_token_ids (Some (request_block_hasher hbs hf nh sha256)) toks r = Some (Inr r') \<and>
    all_token_ids r' = prompt @ toks \<and> mm_features r' = fs @ [l] \<and>
    rq_block_hashes r' = map (chain_hash hbs hf nh sha256 (r'\<lparr>mm_features := [l]\<rparr>)) [0..<nat (num_tokens r' div hbs)] \<and>
    (\<forall>i < nat (num_tokens r' div hbs). \<forall>f \<in> set fs.
      collision_free hf nh \<and> mm_off f < int i * hbs + hbs \<and> int i * hbs < mm_end f \<longrightarrow>
      rq_block_hashes r' ! i \<noteq> chain_hash hbs hf nh sha256 r' i)"
proof -
  let ?H = "Some (request_block_hasher hbs hf nh sha256)"
  obtain r where r: "new_request ?H rid oid (Some prompt) (Some sp) None arrival None (Some (fs @ [l])) lora salt prio resum = Some (Inr r)"
    "hashes_ok hbs hf nh sha256 r" "all_token_ids r = prompt" "mm_features r = fs @ [l]"
    using new_request_hashes_ok [OF assms(1-3)] by blast
  have t: "num_tokens r = int (length prompt)" using r(3) by (simp add: num_tokens_def)
  obtain r' where r': "append_output_token_ids ?H toks r = Some (Inr r')" "all_token_ids r' = prompt @ toks" "mm_features r' = fs @ [l]"
    "rq_block_hashes r' = map (chain_hash hbs hf nh sha256 (r'\<lparr>mm_features := [l]\<rparr>)) [0..<nat (num_tokens r' div hbs)]"
    using append_last_item [OF assms(1,2) r(2,4)] assms(4,5) r(3) t by auto
  have "rq_block_hashes r' ! i \<noteq> chain_hash hbs hf nh sha256 r' i"
    if "i < nat (num_tokens r' div hbs)" "f \<in> set fs" "collision_free hf nh" "mm_off f < int i * hbs + hbs" "int i * hbs < mm_end f" for i f
    using dropped_keys [OF r'(3) that(2,4,5)] chain_hash_eq [OF that(3), of hbs sha256 "r'\<lparr>mm_features := [l]\<rparr>" i r' i] r'(4) that(1) by auto
  then show ?thesis using r(1) r' by blast
qed

theorem incremental_hashing_drops_image_witness:
  "\<exists>r r'. new_request (Some (request_block_hasher 4 ex_hash [0] id)) ''r'' 1 (Some [1, 2, 3, 4, 5, 6]) (Some ex_sampling) None
      0 None (Some [ex_image ''a'' 4 1, ex_image ''b'' 5 1]) None None 0 False = Some (Inr r) \<and>
    append_output_token_ids (Some (request_block_hasher 4 ex_hash [0] id)) [7, 8] r = Some (Inr r') \<and>
    rq_block_hashes r' ! 1 \<noteq> chain_hash 4 ex_hash [0] id r' 1"
proof -
  have s: "mm_sorted ([ex_image ''a'' 4 1] @ [ex_image ''b'' 5 1])" by (simp add: mm_sorted_def ex_image_def)
  obtain r r' where r: "new_request (Some (request_block_hasher 4 ex_hash [0] id)) ''r'' 1 (Some [1, 2, 3, 4, 5, 6]) (Some ex_sampling) None
      0 None (Some [ex_image ''a'' 4 1, ex_image ''b'' 5 1]) None None 0 False = Some (Inr r)"
    "append_output_token_ids (Some (request_block_hasher 4 ex_hash [0] id)) [7, 8] r = Some (Inr r')" "num_tokens r' = 8"
    "\<forall>i < nat (num_tokens r' div 4). \<forall>f \<in> set [ex_image ''a'' 4 1]. collision_free ex_hash [0] \<and> mm_off f < int i * 4 + 4 \<and> int i * 4 < mm_end f \<longrightarrow>
      rq_block_hashes r' ! i \<noteq> chain_hash 4 ex_hash [0] id r' i"
    using incremental_hashing_drops_image [OF _ s, of 4 ex_sampling 16 "[1, 2, 3, 4, 5, 6]" ex_hash "[0]" id "''r''" 1 0 None None 0 False "[7, 8]"]
    by (auto simp: ex_sampling_def ex_image_def round_down_def num_tokens_def)
  then show ?thesis using ex_hash_collision_free by (auto simp: ex_image_def dest!: spec [of _ 1])
qed

text \<open>C19. A cache salt and a LoRA name are both plain strings in the extra keys: for
  text requests, the first block of a request with LoRA adapter \<open>l\<close> and no salt gets
  the same extra keys as the first block of a base-model request whose salt is the
  adapter's name.\<close>

theorem salt_lora_confusion:
  assumes "lora_name l \<noteq> []" "mm_features r = []"
  shows "map_sum id fst (generate_block_hash_extra_keys sha256 (r\<lparr>rq_lora_request := Some l, cache_salt := None\<rparr>) 0 e 0) =
    map_sum id fst (generate_block_hash_extra_keys sha256 (r\<lparr>rq_lora_request := None, cache_salt := Some (lora_name l)\<rparr>) 0 e 0)"
  using assms
  by (simp add: generate_block_hash_extra_keys_def gen_mm_extra_hash_keys_def gen_lora_extra_hash_keys_def
      gen_prompt_embeds_extra_hash_keys_def Let_def split: option.splits prod.splits)

theorem salt_lora_confusion_witness:
  "map_sum id fst (generate_block_hash_extra_keys id
      ((ex_request [1, 2] [])\<lparr>rq_lora_request := Some \<lparr>lora_name = ''sql'', lora_int_id = 1\<rparr>, cache_salt := None\<rparr>) 0 2 0) =
    map_sum id fst (generate_block_hash_extra_keys id
      ((ex_request [1, 2] [])\<lparr>rq_lora_request := None, cache_salt := Some ''sql''\<rparr>) 0 2 0)"
  using salt_lora_confusion [of "\<lparr>lora_name = ''sql'', lora_int_id = 1\<rparr>" "ex_request [1, 2] []" id 2]
  by (simp add: ex_request_def)

text \<open>C20. The view of a request's hashes at a block size that is a multiple of the hash
  block size has one entry per full block of that size, and entry \<open>i\<close> is the hash of
  the prefix that ends with block \<open>i\<close>.\<close>

theorem coarse_view:
  assumes "0 < hbs" "0 < f" "hashes_ok hbs hf nh sha256 r"
  shows "\<exists>v. block_hash_list_with_block_size (rq_block_hashes r) hbs (f * hbs) = Inr v \<and>
    hl_len v = num_tokens r div (f * hbs) \<and>
    (\<forall>i. int i < hl_len v \<longrightarrow> hl_value_at v (int i) = Inr (chain_hash hbs hf nh sha256 r (Suc i * nat f - 1)))"
  using view_ok [OF assms] by blast

theorem coarse_view_witness:
  "\<exists>v. block_hash_list_with_block_size (rq_block_hashes (ex_hashed [1, 2, 3, 4, 5])) 2 (2 * 2) = Inr v \<and>
    hl_len v = num_tokens (ex_hashed [1, 2, 3, 4, 5]) div (2 * 2) \<and>
    (\<forall>i. int i < hl_len v \<longrightarrow> hl_value_at v (int i) =
      Inr (chain_hash 2 ex_hash [0] id (ex_hashed [1, 2, 3, 4, 5]) (Suc i * nat 2 - 1)))"
  by (rule coarse_view) (simp_all add: ex_hashed_ok)

text \<open>C21. The block sizes chosen for several KV cache groups: every group's block size
  divides the scheduler block size, and the hash block size divides it too; unless
  hashing falls back to the scheduler block size, the hash block size divides
  every group's block size.\<close>

theorem resolve_block_sizes_divide:
  assumes "resolve_kv_cache_block_sizes c = Inr (sched, hbs)" "1 < length (cfg_groups c)"
  shows "(\<forall>bs \<in> fst ` set (cfg_groups c). bs dvd sched) \<and> hbs dvd sched \<and>
    (hbs = sched \<or> (\<forall>bs \<in> fst ` set (cfg_groups c). hbs dvd bs))"
proof -
  let ?sizes = "map fst (cfg_groups c)"
  have dv: "bs dvd foldr lcm ?sizes 1" if "bs \<in> fst ` set (cfg_groups c)" for bs
    using that foldr_lcm_dvd [of bs ?sizes] by simp
  have s: "sched = foldr lcm ?sizes 1"
    using assms by (auto simp: resolve_kv_cache_block_sizes_def Let_def split: if_splits)
  have h: "hbs = sched \<or> (\<forall>bs \<in> fst ` set (cfg_groups c). hbs dvd bs)"
    using assms by (auto simp: resolve_kv_cache_block_sizes_def Let_def list_ex_iff mod_eq_0_iff_dvd split: if_splits)
  obtain bs where bs: "bs \<in> fst ` set (cfg_groups c)" using assms(2) by (cases "cfg_groups c") auto
  have "hbs dvd sched" using h bs dv [OF bs] s by (auto intro: dvd_trans)
  then show ?thesis using dv s h by blast
qed

theorem resolve_block_sizes_divide_witness:
  "resolve_kv_cache_block_sizes \<lparr>cfg_block_size = 16, cfg_dcp = 1, cfg_pcp = 1, cfg_groups = [(16, False), (24, False)],
     cfg_enable_prefix_caching = True, cfg_connector = False, cfg_hash_block_size = None\<rparr> = Inr (48, 8) \<and>
   (8 :: int) dvd 48"
proof -
  let ?c = "\<lparr>cfg_block_size = 16, cfg_dcp = 1, cfg_pcp = 1, cfg_groups = [(16, False), (24, False)],
     cfg_enable_prefix_caching = True, cfg_connector = False, cfg_hash_block_size = None\<rparr>"
  have e: "resolve_kv_cache_block_sizes ?c = Inr (48, 8)" by code_simp
  then show ?thesis using resolve_block_sizes_divide [OF e] by simp
qed

end
