(* ===== verification/Free_Queue.thy ===== *)
theory Free_Queue
  imports Prelude
begin

text \<open>
  \<^verbatim>\<open>KVCacheBlock\<close> and \<^verbatim>\<open>FreeKVCacheBlockQueue\<close> of
  \<^verbatim>\<open>vllm/v1/core/kv_cache_utils.py\<close>.  Block objects are references into a store of
  records, as the queue is an intrusive doubly linked list threaded through the
  blocks themselves; the two sentinel blocks of the queue are references of
  their own.  The invariant \<open>fq_inv\<close> relates a store to the list of free blocks
  it represents, and every queue operation is shown to implement the list
  operation it stands for, to leave the other block fields alone, and to raise
  exactly when its argument is not acceptable.  The locale \<open>block_queue\<close> is the
  interface the block pool relies on.
\<close>

section \<open>KVCacheBlock\<close>

datatype kv_ref = Fake_Head | Fake_Tail | Blk nat

text \<open>\<^verbatim>\<open>block_id\<close> is set by the constructor and never assigned: 0, 1, ... for the
  pool's blocks and -1 for the two sentinels.\<close>

fun block_id :: "kv_ref \<Rightarrow> int" where
  "block_id (Blk i) = int i"
| "block_id Fake_Head = -1"
| "block_id Fake_Tail = -1"

record kv_cache_block =
  ref_cnt :: int
  block_hash :: "bytes option"
  block_hash_num_tokens :: "int option"
  prev_free_block :: "kv_ref option"
  next_free_block :: "kv_ref option"
  is_null :: bool

definition new_block :: kv_cache_block where
  "new_block = \<lparr>ref_cnt = 0, block_hash = None, block_hash_num_tokens = None,
     prev_free_block = None, next_free_block = None, is_null = False\<rparr>"

definition set_block_hash :: "bytes \<Rightarrow> int option \<Rightarrow> kv_cache_block \<Rightarrow> kv_cache_block result" where
  "set_block_hash h num_tokens b =
    py_assert (block_hash b = None \<and> block_hash_num_tokens b = None)
      (Inr (b\<lparr>block_hash := Some h, block_hash_num_tokens := num_tokens\<rparr>))"

definition reset_hash :: "kv_cache_block \<Rightarrow> kv_cache_block" where
  "reset_hash b = b\<lparr>block_hash := None, block_hash_num_tokens := None\<rparr>"

section \<open>FreeKVCacheBlockQueue\<close>

record fqueue =
  nodes :: "kv_ref \<Rightarrow> kv_cache_block"
  num_free_blocks :: int

definition upd :: "kv_ref \<Rightarrow> (kv_cache_block \<Rightarrow> kv_cache_block) \<Rightarrow> fqueue \<Rightarrow> fqueue" where
  "upd a f q = q\<lparr>nodes := (nodes q)(a := f (nodes q a))\<rparr>"

abbreviation set_next :: "kv_ref \<Rightarrow> kv_ref option \<Rightarrow> fqueue \<Rightarrow> fqueue" where
  "set_next a v \<equiv> upd a (next_free_block_update (\<lambda>_. v))"

abbreviation set_prev :: "kv_ref \<Rightarrow> kv_ref option \<Rightarrow> fqueue \<Rightarrow> fqueue" where
  "set_prev a v \<equiv> upd a (prev_free_block_update (\<lambda>_. v))"

abbreviation nxt :: "fqueue \<Rightarrow> kv_ref \<Rightarrow> kv_ref option" where
  "nxt q a \<equiv> next_free_block (nodes q a)"

abbreviation prv :: "fqueue \<Rightarrow> kv_ref \<Rightarrow> kv_ref option" where
  "prv q a \<equiv> prev_free_block (nodes q a)"

text \<open>The constructor: the loop that links consecutive blocks, then the sentinels.\<close>

definition init_links :: "kv_ref list \<Rightarrow> nat \<Rightarrow> fqueue \<Rightarrow> fqueue" where
  "init_links bs i q =
    (let q1 = (if i > 0 then set_prev (bs ! i) (Some (bs ! (i - 1))) q else q)
     in if i + 1 < length bs then set_next (bs ! i) (Some (bs ! (i + 1))) q1 else q1)"

definition fq_init :: "(kv_ref \<Rightarrow> kv_cache_block) \<Rightarrow> kv_ref list \<Rightarrow> fqueue" where
  "fq_init s bs =
    (let q = fold (init_links bs) [0..<length bs] \<lparr>nodes = s, num_free_blocks = int (length bs)\<rparr>;
         q = upd Fake_Tail (\<lambda>_. new_block) (upd Fake_Head (\<lambda>_. new_block) q)
     in if length bs > 0 then
          set_next (last bs) (Some Fake_Tail) (set_prev Fake_Tail (Some (last bs))
            (set_prev (hd bs) (Some Fake_Head) (set_next Fake_Head (Some (hd bs)) q)))
        else set_prev Fake_Tail (Some Fake_Head) (set_next Fake_Head (Some Fake_Tail) q))"

definition popleft :: "fqueue \<Rightarrow> (kv_ref \<times> fqueue) result" where
  "popleft q =
    (if nxt q Fake_Head = Some Fake_Tail \<or> nxt q Fake_Head = None
     then py_assert (num_free_blocks q = 0) (Inl ValueError)
     else let first = the (nxt q Fake_Head) in
       case nxt q first of
         None \<Rightarrow> Inl RuntimeError
       | Some second \<Rightarrow>
           let q = set_next Fake_Head (Some second) q;
               q = set_prev second (Some Fake_Head) q;
               q = set_prev first None (set_next first None q)
           in Inr (first, q\<lparr>num_free_blocks := num_free_blocks q - 1\<rparr>))"

definition clear_links :: "kv_ref \<Rightarrow> fqueue \<Rightarrow> fqueue" where
  "clear_links b q = set_next b None (set_prev b None q)"

fun popleft_n_loop ::
  "nat \<Rightarrow> kv_ref option \<Rightarrow> kv_ref list \<Rightarrow> fqueue \<Rightarrow> (kv_ref list \<times> kv_ref option \<times> fqueue) result" where
  "popleft_n_loop 0 cur ret q = Inr (ret, cur, q)"
| "popleft_n_loop (Suc k) cur ret q =
    (case cur of
       None \<Rightarrow> Inl AssertionError
     | Some c \<Rightarrow> popleft_n_loop k (nxt q c) (ret @ [c]) (clear_links c q))"

definition popleft_n :: "int \<Rightarrow> fqueue \<Rightarrow> (kv_ref list \<times> fqueue) result" where
  "popleft_n n q =
    (if n = 0 then Inr ([], q)
     else py_assert (num_free_blocks q \<ge> n)
       (let q = q\<lparr>num_free_blocks := num_free_blocks q - n\<rparr> in
        rbind (popleft_n_loop (nat n) (nxt q Fake_Head) [] q) (\<lambda>(ret, cur, q).
          case cur of
            None \<Rightarrow> Inr (ret, q)
          | Some c \<Rightarrow> Inr (ret, set_prev c (Some Fake_Head) (set_next Fake_Head (Some c) q)))))"

definition remove_block :: "kv_ref \<Rightarrow> fqueue \<Rightarrow> fqueue result" where
  "remove_block b q =
    (case (prv q b, nxt q b) of
       (Some p, Some n) \<Rightarrow>
         let q = set_next p (Some n) q;
             q = set_prev n (Some p) q;
             q = set_prev b None (set_next b None q)
         in Inr (q\<lparr>num_free_blocks := num_free_blocks q - 1\<rparr>)
     | _ \<Rightarrow> Inl RuntimeError)"

definition append_block :: "kv_ref \<Rightarrow> fqueue \<Rightarrow> fqueue result" where
  "append_block b q =
    (case prv q Fake_Tail of
       None \<Rightarrow> Inl RuntimeError
     | Some last_block \<Rightarrow>
         let q = set_next last_block (Some b) q;
             q = set_prev b (Some last_block) q;
             q = set_next b (Some Fake_Tail) q;
             q = set_prev Fake_Tail (Some b) q
         in Inr (q\<lparr>num_free_blocks := num_free_blocks q + 1\<rparr>))"

text \<open>The linking loop shared by \<^verbatim>\<open>prepend_n\<close> and \<^verbatim>\<open>append_n\<close>; the result is the
  last block linked.\<close>

fun link_chain :: "kv_ref \<Rightarrow> kv_ref list \<Rightarrow> fqueue \<Rightarrow> kv_ref \<times> fqueue" where
  "link_chain p [] q = (p, q)"
| "link_chain p (b # bs) q = link_chain b bs (set_next p (Some b) (set_prev b (Some p) q))"

definition prepend_n :: "kv_ref list \<Rightarrow> fqueue \<Rightarrow> fqueue result" where
  "prepend_n bs q =
    (if length bs = 0 then Inr q
     else case nxt q Fake_Head of
       None \<Rightarrow> Inl AssertionError
     | Some first_block \<Rightarrow>
         let (p, q) = link_chain Fake_Head bs q;
             q = set_prev first_block (Some p) (set_next p (Some first_block) q)
         in Inr (q\<lparr>num_free_blocks := num_free_blocks q + int (length bs)\<rparr>))"

definition append_n :: "kv_ref list \<Rightarrow> fqueue \<Rightarrow> fqueue result" where
  "append_n bs q =
    (if length bs = 0 then Inr q
     else case prv q Fake_Tail of
       None \<Rightarrow> Inl AssertionError
     | Some last_block \<Rightarrow>
         let (p, q) = link_chain last_block bs q;
             q = set_prev Fake_Tail (Some p) (set_next p (Some Fake_Tail) q)
         in Inr (q\<lparr>num_free_blocks := num_free_blocks q + int (length bs)\<rparr>))"

text \<open>The walk to the fake tail need not end on a corrupted list: no value is then
  returned.\<close>

partial_function (option) free_walk :: "fqueue \<Rightarrow> kv_ref \<Rightarrow> kv_ref list \<Rightarrow> kv_ref list option" where
  "free_walk q cur ret =
    (case nxt q cur of
       None \<Rightarrow> Some ret
     | Some n \<Rightarrow> free_walk q n (ret @ [cur]))"

definition get_all_free_blocks :: "fqueue \<Rightarrow> kv_ref list option result" where
  "get_all_free_blocks q =
    (case nxt q Fake_Head of
       None \<Rightarrow> Inl RuntimeError
     | Some c \<Rightarrow> Inr (free_walk q c []))"

section \<open>The list a queue represents\<close>

fun linked :: "(kv_ref \<Rightarrow> kv_cache_block) \<Rightarrow> kv_ref list \<Rightarrow> bool" where
  "linked s (a # b # l) \<longleftrightarrow>
    next_free_block (s a) = Some b \<and> prev_free_block (s b) = Some a \<and> linked s (b # l)"
| "linked s _ \<longleftrightarrow> True"

abbreviation chain :: "kv_ref list \<Rightarrow> kv_ref list" where
  "chain xs \<equiv> Fake_Head # xs @ [Fake_Tail]"

fun is_blk :: "kv_ref \<Rightarrow> bool" where
  "is_blk (Blk _) = True"
| "is_blk _ = False"

text \<open>The links run through the sentinels and the listed blocks, in both directions;
  every other block is unlinked; the counter is the length.\<close>

definition fq_inv :: "fqueue \<Rightarrow> kv_ref list \<Rightarrow> bool" where
  "fq_inv q xs \<longleftrightarrow>
    linked (nodes q) (chain xs) \<and> distinct xs \<and> list_all is_blk xs \<and>
    (\<forall>b. b \<notin> set xs \<longrightarrow> is_blk b \<longrightarrow> nxt q b = None \<and> prv q b = None) \<and>
    prv q Fake_Head = None \<and> nxt q Fake_Tail = None \<and>
    num_free_blocks q = int (length xs)"

text \<open>What a queue operation must not touch: everything of a block but its links.\<close>

definition payload :: "fqueue \<Rightarrow> kv_ref \<Rightarrow> int \<times> bytes option \<times> int option \<times> bool" where
  "payload q b = (ref_cnt (nodes q b), block_hash (nodes q b),
     block_hash_num_tokens (nodes q b), is_null (nodes q b))"

section \<open>Links under updates\<close>

named_theorems fq_simps

lemma nodes_upd [simp]: "nodes (upd a f q) = (nodes q)(a := f (nodes q a))"
  by (simp add: upd_def)

lemma num_free_upd [simp]: "num_free_blocks (upd a f q) = num_free_blocks q"
  by (simp add: upd_def)

lemma payload_links [simp]:
  "payload (set_next a v q) = payload q"
  "payload (set_prev a v q) = payload q"
  "payload (q\<lparr>num_free_blocks := n\<rparr>) = payload q"
  by (auto simp: payload_def fun_eq_iff)

lemma is_blk_iff: "is_blk b \<longleftrightarrow> b \<noteq> Fake_Head \<and> b \<noteq> Fake_Tail"
  by (cases b) auto

lemma linked_append: "linked s (xs @ a # ys) \<longleftrightarrow> linked s (xs @ [a]) \<and> linked s (a # ys)"
proof (induction xs)
  case (Cons x xs)
  then show ?case by (cases xs) auto
qed simp

lemma linked_cong:
  assumes "\<And>a. a \<in> set (butlast l) \<Longrightarrow> next_free_block (s a) = next_free_block (s' a)"
    and "\<And>b. b \<in> set (tl l) \<Longrightarrow> prev_free_block (s b) = prev_free_block (s' b)"
  shows "linked s l = linked s' l"
  using assms
proof (induction s l rule: linked.induct)
  case (1 s a b l)
  then have "linked s (b # l) = linked s' (b # l)"
    by (metis butlast.simps(2) list.distinct(1) list.sel(3) list.set_intros(2) list.set_sel(2))
  with 1 show ?case by auto
qed auto

lemma set_tl_subset: "x \<in> set (tl l) \<Longrightarrow> x \<in> set l"
  by (cases l) auto

lemma linked_nextD: "linked s (xs @ a # b # ys) \<Longrightarrow> next_free_block (s a) = Some b"
  using linked_append [of s xs a "b # ys"] by simp

lemma linked_prevD: "linked s (xs @ a # b # ys) \<Longrightarrow> prev_free_block (s b) = Some a"
  using linked_append [of s xs a "b # ys"] by simp

lemma linked_hd:
  "linked s (a # xs @ [e]) \<Longrightarrow> next_free_block (s a) = Some (hd (xs @ [e])) \<and> linked s (xs @ [e])"
  by (cases xs) auto

lemma fq_invD:
  assumes "fq_inv q xs"
  shows "linked (nodes q) (chain xs)" "distinct (chain xs)"
    "\<And>b. b \<notin> set (chain xs) \<Longrightarrow> nxt q b = None" "\<And>b. b \<notin> set (chain xs) \<Longrightarrow> prv q b = None"
    "prv q Fake_Head = None" "nxt q Fake_Tail = None" "num_free_blocks q = int (length xs)"
  using assms by (auto simp: fq_inv_def list_all_iff is_blk_iff)

lemma fq_invI:
  assumes "linked (nodes q) (chain xs)" "distinct (chain xs)"
    "\<And>b. b \<notin> set (chain xs) \<Longrightarrow> nxt q b = None \<and> prv q b = None"
    "prv q Fake_Head = None" "nxt q Fake_Tail = None" "num_free_blocks q = int (length xs)"
  shows "fq_inv q xs"
  using assms by (auto simp: fq_inv_def list_all_iff is_blk_iff)

lemma fq_inv_payload_cong:
  assumes "fq_inv q xs" "\<And>b. nxt q' b = nxt q b" "\<And>b. prv q' b = prv q b"
    "num_free_blocks q' = num_free_blocks q"
  shows "fq_inv q' xs"
  using assms linked_cong [of "chain xs" "nodes q" "nodes q'"] by (simp add: fq_inv_def)

section \<open>Removal from the middle\<close>

lemma chain_split:
  assumes "b \<in> set xs"
  obtains l p n r where "chain xs = l @ p # b # n # r"
proof -
  obtain ys zs where xs: "xs = ys @ b # zs" using assms by (meson split_list)
  obtain l p where "Fake_Head # ys = l @ [p]" by (metis list.distinct(1) rev_exhaust)
  moreover obtain n r where "zs @ [Fake_Tail] = n # r" by (metis append_is_Nil_conv neq_Nil_conv)
  ultimately have "chain xs = l @ p # b # n # r" using xs by simp
  then show ?thesis by (rule that)
qed

lemma chain_remove1:
  assumes "chain xs = l @ p # b # n # r" "b \<in> set xs" "distinct (chain xs)"
  shows "chain (remove1 b xs) = l @ p # n # r"
proof -
  have "remove1 b (chain xs) = chain (remove1 b xs)"
    using assms(2,3) by (auto simp: remove1_append)
  moreover have "remove1 b (l @ p # b # n # r) = l @ p # n # r"
    using assms(1,3) by (auto simp: remove1_append)
  ultimately show ?thesis using assms(1) by simp
qed

lemma remove_block_ok:
  assumes inv: "fq_inv q xs" and b: "b \<in> set xs"
  shows "\<exists>q'. remove_block b q = Inr q' \<and> fq_inv q' (remove1 b xs) \<and> payload q' = payload q"
proof -
  obtain l p n r where c: "chain xs = l @ p # b # n # r" using chain_split [OF b] .
  have d: "distinct (l @ p # b # n # r)" using fq_invD(2) [OF inv] c by simp
  have lk: "linked (nodes q) (l @ p # b # n # r)" using fq_invD(1) [OF inv] c by simp
  have pn: "prv q b = Some p" "nxt q b = Some n"
    using lk linked_prevD [of _ l p b "n # r"] linked_nextD [of _ "l @ [p]" b n r] by auto
  let ?q = "set_prev b None (set_next b None (set_prev n (Some p) (set_next p (Some n) q)))"
  let ?q' = "?q\<lparr>num_free_blocks := num_free_blocks q - 1\<rparr>"
  have c': "chain (remove1 b xs) = l @ p # n # r" using chain_remove1 [OF c b] c d by simp
  have l1: "linked (nodes ?q) (l @ [p])"
    using lk d linked_append [of "nodes q" l p "b # n # r"]
    by (subst linked_cong [where s' = "nodes q"]) (auto simp: butlast_append dest: set_tl_subset)
  have l2: "linked (nodes ?q) (n # r)"
    using lk d linked_append [of "nodes q" "l @ [p, b]" n r]
    by (subst linked_cong [where s' = "nodes q"]) (auto dest!: in_set_butlastD split: if_splits)
  have l12: "linked (nodes ?q) (l @ p # n # r)"
    using l1 l2 d linked_append [of "nodes ?q" l p "n # r"] by auto
  have set_c: "set (chain xs) = insert b (set (chain (remove1 b xs)))"
    unfolding c c' by auto
  have ends: "b \<noteq> Fake_Head" "b \<noteq> Fake_Tail" "n \<noteq> Fake_Head" "p \<noteq> Fake_Tail"
  proof -
    show "b \<noteq> Fake_Head" "b \<noteq> Fake_Tail" using b fq_invD(2) [OF inv] by auto
    show "n \<noteq> Fake_Head" using c d by (cases l) auto
    show "p \<noteq> Fake_Tail"
    proof
      assume "p = Fake_Tail"
      moreover have "last (chain xs) = Fake_Tail" by simp
      ultimately show False using c d
        by (metis append.assoc append_Cons append_Nil distinct.simps(2) distinct_append last_appendR
            last_in_set last_ConsR list.distinct(1))
    qed
  qed
  have np: "n \<in> set (chain (remove1 b xs))" "p \<in> set (chain (remove1 b xs))" unfolding c' by auto
  have "fq_inv ?q' (remove1 b xs)"
  proof (rule fq_invI)
    show "linked (nodes ?q') (chain (remove1 b xs))" using l12 c' by simp
    show "distinct (chain (remove1 b xs))" unfolding c' using d by simp
    show "nxt ?q' x = None \<and> prv ?q' x = None" if "x \<notin> set (chain (remove1 b xs))" for x
      using that np fq_invD(3,4) [OF inv, of x] set_c by auto
    show "prv ?q' Fake_Head = None" "nxt ?q' Fake_Tail = None"
      using fq_invD(5,6) [OF inv] ends by auto
    show "num_free_blocks ?q' = int (length (remove1 b xs))"
      using fq_invD(7) [OF inv] b by (simp add: length_remove1) (metis One_nat_def Suc_leI length_pos_if_in_set of_nat_1 of_nat_diff)
  qed
  moreover have "remove_block b q = Inr ?q'" by (simp add: remove_block_def pn Let_def)
  moreover have "payload ?q' = payload q" by simp
  ultimately show ?thesis by blast
qed

lemma remove_block_err:
  assumes "fq_inv q xs" "is_blk b" "b \<notin> set xs"
  shows "remove_block b q = Inl RuntimeError"
  using assms by (simp add: remove_block_def fq_inv_def)

section \<open>Popping from the front\<close>

lemma clear_links_simps [simp]:
  "nxt (clear_links b q) x = (if x = b then None else nxt q x)"
  "prv (clear_links b q) x = (if x = b then None else prv q x)"
  "payload (clear_links b q) = payload q"
  "num_free_blocks (clear_links b q) = num_free_blocks q"
  by (auto simp: clear_links_def)

lemma fold_clear_links [simp]:
  "nxt (fold clear_links xs q) x = (if x \<in> set xs then None else nxt q x)"
  "prv (fold clear_links xs q) x = (if x \<in> set xs then None else prv q x)"
  "payload (fold clear_links xs q) = payload q"
  "num_free_blocks (fold clear_links xs q) = num_free_blocks q"
  by (induction xs arbitrary: q) auto

lemma popleft_n_loop_ok:
  assumes "linked (nodes q) (xs @ [e])" "distinct (xs @ [e])"
  shows "popleft_n_loop (length xs) (Some (hd (xs @ [e]))) ret q =
    Inr (ret @ xs, Some e, fold clear_links xs q)"
  using assms
proof (induction xs arbitrary: q ret)
  case (Cons x xs)
  have n: "nxt q x = Some (hd (xs @ [e]))" using Cons.prems(1) by (cases xs) auto
  have "linked (nodes q) (xs @ [e])" using Cons.prems(1) by (cases xs) auto
  then have "linked (nodes (clear_links x q)) (xs @ [e])"
    using Cons.prems(2)
    by (subst linked_cong [where s' = "nodes q"]) (auto simp: butlast_append dest: set_tl_subset)
  then show ?case using Cons n by simp
qed simp

lemma popleft_n_ok:
  assumes inv: "fq_inv q xs" and n: "n \<le> length xs"
  shows "\<exists>q'. popleft_n (int n) q = Inr (take n xs, q') \<and> fq_inv q' (drop n xs) \<and> payload q' = payload q"
proof (cases "n = 0")
  case True
  with inv show ?thesis by (simp add: popleft_n_def)
next
  case False
  obtain e r where er: "drop n xs @ [Fake_Tail] = e # r" by (metis append_is_Nil_conv neq_Nil_conv)
  have c: "chain xs = Fake_Head # take n xs @ e # r"
    using er by (metis append.assoc append_take_drop_id)
  have d: "distinct (Fake_Head # take n xs @ e # r)" using fq_invD(2) [OF inv] c by simp
  have c': "chain (drop n xs) = Fake_Head # e # r" using er by simp
  let ?q0 = "q\<lparr>num_free_blocks := num_free_blocks q - int n\<rparr>"
  let ?q1 = "fold clear_links (take n xs) ?q0"
  let ?q' = "set_prev e (Some Fake_Head) (set_next Fake_Head (Some e) ?q1)"
  have lk: "linked (nodes q) (Fake_Head # take n xs @ e # r)" using fq_invD(1) [OF inv] c by simp
  have lk1: "linked (nodes q) (Fake_Head # take n xs @ [e])" "linked (nodes q) (e # r)"
    using lk linked_append [of "nodes q" "Fake_Head # take n xs" e r] by auto
  have hd: "nxt q Fake_Head = Some (hd (take n xs @ [e]))" "linked (nodes q) (take n xs @ [e])"
    using linked_hd [OF lk1(1)] by simp_all
  have len: "length (take n xs) = n" using n by simp
  have loop: "popleft_n_loop n (nxt ?q0 Fake_Head) [] ?q0 = Inr (take n xs, Some e, ?q1)"
    using popleft_n_loop_ok [of ?q0 "take n xs" e "[]"] hd d len by simp
  have "popleft_n (int n) q = Inr (take n xs, ?q')"
    using False n loop fq_invD(7) [OF inv] by (simp add: popleft_n_def)
  moreover have "fq_inv ?q' (drop n xs)"
  proof (rule fq_invI)
    have "linked (nodes ?q') (e # r)"
      using lk1(2) d
      by (subst linked_cong [where s' = "nodes q"]) (auto dest!: in_set_butlastD split: if_splits)
    then show "linked (nodes ?q') (chain (drop n xs))" using d unfolding c' by auto
    show "distinct (chain (drop n xs))" using d unfolding c' by auto
    show "nxt ?q' x = None \<and> prv ?q' x = None" if "x \<notin> set (chain (drop n xs))" for x
      using that fq_invD(3,4) [OF inv, of x] unfolding c c' by auto
    show "prv ?q' Fake_Head = None" "nxt ?q' Fake_Tail = None"
      using fq_invD(5,6) [OF inv] d by auto
    show "num_free_blocks ?q' = int (length (drop n xs))"
      using fq_invD(7) [OF inv] n by simp
  qed
  moreover have "payload ?q' = payload q" by simp
  ultimately show ?thesis by blast
qed

lemma popleft_n_too_many:
  assumes "fq_inv q xs" "int (length xs) < n"
  shows "popleft_n n q = Inl AssertionError"
  using assms by (simp add: popleft_n_def fq_inv_def py_assert_def)

lemma popleft_ok:
  assumes inv: "fq_inv q (x # xs)"
  shows "\<exists>q'. popleft q = Inr (x, q') \<and> fq_inv q' xs \<and> payload q' = payload q"
proof -
  obtain e r where er: "xs @ [Fake_Tail] = e # r" by (metis append_is_Nil_conv neq_Nil_conv)
  have c: "chain (x # xs) = Fake_Head # x # e # r" using er by simp
  have lk: "linked (nodes q) (Fake_Head # x # e # r)" using fq_invD(1) [OF inv] c by simp
  have d: "distinct (Fake_Head # x # e # r)" using fq_invD(2) [OF inv] c by metis
  have x: "x \<noteq> Fake_Tail" using fq_invD(2) [OF inv] by auto
  let ?q = "set_prev x None (set_next x None (set_prev e (Some Fake_Head) (set_next Fake_Head (Some e) q)))"
  let ?q' = "?q\<lparr>num_free_blocks := num_free_blocks q - 1\<rparr>"
  have "popleft q = Inr (x, ?q')" using lk d x by (simp add: popleft_def Let_def)
  moreover have "fq_inv ?q' xs"
  proof (rule fq_invI)
    have "linked (nodes ?q') (e # r)"
      using lk d
      by (subst linked_cong [where s' = "nodes q"]) (auto dest!: in_set_butlastD split: if_splits)
    then show "linked (nodes ?q') (chain xs)" using d unfolding er by auto
    show "distinct (chain xs)" using d unfolding er by auto
    show "nxt ?q' y = None \<and> prv ?q' y = None" if "y \<notin> set (chain xs)" for y
      using that fq_invD(3,4) [OF inv, of y] er unfolding c by auto
    show "prv ?q' Fake_Head = None" "nxt ?q' Fake_Tail = None"
      using fq_invD(5,6) [OF inv] d x by auto
    show "num_free_blocks ?q' = int (length xs)" using fq_invD(7) [OF inv] by simp
  qed
  moreover have "payload ?q' = payload q" by simp
  ultimately show ?thesis by blast
qed

lemma popleft_empty: "fq_inv q [] \<Longrightarrow> popleft q = Inl ValueError"
  by (simp add: popleft_def fq_inv_def)

section \<open>Putting blocks back\<close>

lemma link_chain_ok:
  assumes "link_chain p bs q = (m, q')" "distinct (p # bs)"
  shows "m = last (p # bs) \<and> linked (nodes q') (p # bs) \<and>
    (\<forall>b. b \<notin> set (butlast (p # bs)) \<longrightarrow> nxt q' b = nxt q b) \<and>
    (\<forall>b. b \<notin> set bs \<longrightarrow> prv q' b = prv q b) \<and>
    payload q' = payload q \<and> num_free_blocks q' = num_free_blocks q"
  using assms
proof (induction p bs q rule: link_chain.induct)
  case (2 p b bs q)
  let ?q = "set_next p (Some b) (set_prev b (Some p) q)"
  have IH: "m = last (b # bs)" "linked (nodes q') (b # bs)"
    "\<And>x. x \<notin> set (butlast (b # bs)) \<Longrightarrow> nxt q' x = nxt ?q x"
    "\<And>x. x \<notin> set bs \<Longrightarrow> prv q' x = prv ?q x"
    "payload q' = payload ?q" "num_free_blocks q' = num_free_blocks ?q"
    using 2 by simp_all
  have p: "p \<notin> set (butlast (b # bs))" using 2(3) in_set_butlastD [of p "b # bs"] by auto
  have "nxt q' p = Some b" "prv q' b = Some p" using IH(3) [OF p] IH(4) [of b] 2(3) by auto
  then have "linked (nodes q') (p # b # bs)" using IH(2) by simp
  moreover have "\<forall>x. x \<notin> set (butlast (p # b # bs)) \<longrightarrow> nxt q' x = nxt q x"
  proof (intro allI impI)
    fix x assume "x \<notin> set (butlast (p # b # bs))"
    then have "x \<noteq> p" "x \<notin> set (butlast (b # bs))" by simp_all
    then show "nxt q' x = nxt q x" using IH(3) [of x] by simp
  qed
  moreover have "\<forall>x. x \<notin> set (b # bs) \<longrightarrow> prv q' x = prv q x" using IH(4) by simp
  moreover have "m = last (p # b # bs)" using IH(1) by simp
  moreover have "payload q' = payload q" "num_free_blocks q' = num_free_blocks q"
    using IH(5,6) by simp_all
  ultimately show ?case by blast
qed simp

lemma linked_splice:
  assumes "linked s (l @ [p])" "linked s (e # r)" "linked s1 (p # bs)" "bs \<noteq> []"
    and d: "distinct (l @ p # bs @ e # r)"
    and nx: "\<And>b. b \<notin> set (butlast (p # bs)) \<Longrightarrow> next_free_block (s1 b) = next_free_block (s b)"
    and pv: "\<And>b. b \<notin> set bs \<Longrightarrow> prev_free_block (s1 b) = prev_free_block (s b)"
    and nx': "\<And>b. next_free_block (s' b) = (if b = last bs then Some e else next_free_block (s1 b))"
    and pv': "\<And>b. prev_free_block (s' b) = (if b = e then Some (last bs) else prev_free_block (s1 b))"
  shows "linked s' (l @ p # bs @ e # r)"
proof -
  have lb: "last bs \<in> set bs" using assms(4) by simp
  have bl: "set (butlast bs) \<subseteq> set bs - {last bs}"
    using d assms(4) by (cases bs rule: rev_cases) auto
  have nx2: "next_free_block (s1 a) = next_free_block (s a)" if "a \<noteq> p" "a \<notin> set bs" for a
    using that nx [of a] in_set_butlastD [of a bs] assms(4) by auto
  have L1: "linked s' (l @ [p])"
    using assms(1)
  proof (rule linked_cong [THEN iffD1, rotated -1])
    show "next_free_block (s a) = next_free_block (s' a)" if "a \<in> set (butlast (l @ [p]))" for a
    proof -
      have "a \<noteq> p" "a \<notin> set bs" using that d by (auto simp: butlast_append)
      then show ?thesis using nx2 lb by (metis nx')
    qed
    show "prev_free_block (s b) = prev_free_block (s' b)" if "b \<in> set (tl (l @ [p]))" for b
    proof -
      have "b \<noteq> e" "b \<notin> set bs" using set_tl_subset [OF that] d by auto
      then show ?thesis using pv by (simp add: pv')
    qed
  qed
  have L2: "linked s' (p # bs)"
    using assms(3)
  proof (rule linked_cong [THEN iffD1, rotated -1])
    show "next_free_block (s1 a) = next_free_block (s' a)" if "a \<in> set (butlast (p # bs))" for a
      using that d lb bl assms(4) by (auto simp: nx')
    show "prev_free_block (s1 b) = prev_free_block (s' b)" if "b \<in> set (tl (p # bs))" for b
      using that d by (auto simp: pv')
  qed
  have L3: "linked s' (e # r)"
    using assms(2)
  proof (rule linked_cong [THEN iffD1, rotated -1])
    show "next_free_block (s a) = next_free_block (s' a)" if "a \<in> set (butlast (e # r))" for a
    proof -
      have "a \<noteq> p" "a \<notin> set bs" using in_set_butlastD [OF that] d by auto
      then show ?thesis using nx2 lb by (metis nx')
    qed
    show "prev_free_block (s b) = prev_free_block (s' b)" if "b \<in> set (tl (e # r))" for b
    proof -
      have "b \<noteq> e" "b \<notin> set bs" using that d by auto
      then show ?thesis using pv by (simp add: pv')
    qed
  qed
  obtain bs' m where bs': "bs = bs' @ [m]" using assms(4) by (cases bs rule: rev_cases) auto
  have "linked s' (last bs # e # r)" using L3 by (simp add: nx' pv')
  then have "linked s' (p # bs @ e # r)"
    using L2 linked_append [of s' "p # bs'" m "e # r"] bs' by simp
  then show ?thesis using L1 linked_append [of s' l p "bs @ e # r"] by simp
qed

lemma splice_ok:
  assumes inv: "fq_inv q (ys @ zs)" and d: "distinct (ys @ bs @ zs)" and blk: "list_all is_blk bs"
    and bs: "bs \<noteq> []" and lc: "link_chain p bs q = (m, q1)"
    and l: "Fake_Head # ys = l @ [p]" and r: "zs @ [Fake_Tail] = e # r"
  defines "q' \<equiv> set_prev e (Some m) (set_next m (Some e) q1)"
  shows "fq_inv (q'\<lparr>num_free_blocks := num_free_blocks q' + int (length bs)\<rparr>) (ys @ bs @ zs) \<and>
    payload q' = payload q"
proof -
  have c: "chain (ys @ zs) = l @ p # e # r" and c': "chain (ys @ bs @ zs) = l @ p # bs @ e # r"
    using l r by (metis append.assoc append_Cons append_Nil)+
  have d': "distinct (l @ p # bs @ e # r)"
    using d blk unfolding c' [symmetric] by (auto simp: list_all_iff is_blk_iff)
      (use fq_invD(2) [OF inv] in auto)
  have dp: "distinct (p # bs)" using d' by simp
  note LC = link_chain_ok [OF lc dp]
  have m: "m = last bs" "m \<in> set bs" using LC bs by auto
  have nx: "nxt q1 b = nxt q b" if "b \<notin> set (butlast (p # bs))" for b using LC that by blast
  have pv: "prv q1 b = prv q b" if "b \<notin> set bs" for b using LC that by blast
  have lk: "linked (nodes q) (l @ p # e # r)" using fq_invD(1) [OF inv] c by simp
  have lkp: "linked (nodes q) (l @ [p])" "linked (nodes q) (e # r)"
    using lk linked_append [of "nodes q" l p "e # r"] by auto
  have "linked (nodes q') (l @ p # bs @ e # r)"
    using LC by (intro linked_splice [OF lkp _ bs d' nx pv]) (auto simp: q'_def m(1))
  moreover have "nxt q' x = None \<and> prv q' x = None" if "x \<notin> set (l @ p # bs @ e # r)" for x
    using that m fq_invD(3,4) [OF inv, of x] nx [of x] pv [of x] in_set_butlastD [of x "p # bs"]
    unfolding c by (auto simp: q'_def)
  moreover have "prv q' Fake_Head = None \<and> nxt q' Fake_Tail = None"
  proof -
    have ends: "Fake_Head \<notin> set bs" "Fake_Tail \<notin> set bs" using blk by (auto simp: list_all_iff)
    have "p \<in> set (Fake_Head # ys)" "e \<in> set (zs @ [Fake_Tail])" unfolding l r by auto
    then have "p \<noteq> Fake_Tail" "e \<noteq> Fake_Head" using fq_invD(2) [OF inv] by auto
    then show ?thesis
      using ends m fq_invD(5,6) [OF inv] nx [of Fake_Tail] pv [of Fake_Head]
        in_set_butlastD [of Fake_Tail "p # bs"] by (auto simp: q'_def)
  qed
  moreover have "num_free_blocks q' + int (length bs) = int (length (ys @ bs @ zs))"
    using fq_invD(7) [OF inv] LC by (simp add: q'_def)
  moreover have "payload q' = payload q" using LC by (simp add: q'_def)
  ultimately show ?thesis
    using d' unfolding c' [symmetric] by (intro conjI fq_invI) auto
qed

lemma fq_inv_tail:
  assumes inv: "fq_inv q xs"
  obtains l p where "Fake_Head # xs = l @ [p]" "prv q Fake_Tail = Some p" "p \<in> set (Fake_Head # xs)"
proof -
  obtain l p where l: "Fake_Head # xs = l @ [p]" by (metis list.distinct(1) rev_exhaust)
  have c: "chain xs = l @ p # [Fake_Tail]" using l by (metis append.assoc append_Cons append_Nil)
  have "prv q Fake_Tail = Some p"
    using fq_invD(1) [OF inv] unfolding c by (rule linked_prevD)
  moreover have "p \<in> set (Fake_Head # xs)" unfolding l by simp
  ultimately show ?thesis using that [OF l] by blast
qed

lemma prepend_n_ok:
  assumes inv: "fq_inv q xs" and d: "distinct (bs @ xs)" and blk: "list_all is_blk bs"
  shows "\<exists>q'. prepend_n bs q = Inr q' \<and> fq_inv q' (bs @ xs) \<and> payload q' = payload q"
proof (cases "bs = []")
  case False
  obtain e r where r: "xs @ [Fake_Tail] = e # r" by (metis append_is_Nil_conv neq_Nil_conv)
  have h: "nxt q Fake_Head = Some e" using linked_hd [OF fq_invD(1) [OF inv]] r by simp
  obtain m q1 where lc: "link_chain Fake_Head bs q = (m, q1)" by fastforce
  have l: "Fake_Head # [] = [] @ [Fake_Head]" by simp
  show ?thesis
    using splice_ok [of q "[]" xs bs Fake_Head m q1 "[]" e r] inv d blk False lc r h
    by (simp add: prepend_n_def)
qed (use inv in \<open>simp add: prepend_n_def\<close>)

lemma append_n_ok:
  assumes inv: "fq_inv q xs" and d: "distinct (xs @ bs)" and blk: "list_all is_blk bs"
  shows "\<exists>q'. append_n bs q = Inr q' \<and> fq_inv q' (xs @ bs) \<and> payload q' = payload q"
proof (cases "bs = []")
  case False
  obtain l p where l: "Fake_Head # xs = l @ [p]" and h: "prv q Fake_Tail = Some p"
    using fq_inv_tail [OF inv] .
  obtain m q1 where lc: "link_chain p bs q = (m, q1)" by fastforce
  show ?thesis
    using splice_ok [OF _ _ blk False lc l, of "[]" Fake_Tail "[]"] inv d lc h False
    by (simp add: append_n_def)
qed (use inv in \<open>simp add: append_n_def\<close>)

lemma append_block_eq:
  assumes inv: "fq_inv q xs" and b: "is_blk b" "b \<notin> set xs"
  shows "append_block b q = append_n [b] q"
proof -
  obtain p where h: "prv q Fake_Tail = Some p" and "p \<in> set (Fake_Head # xs)"
    using fq_inv_tail [OF inv] .
  then have "p \<noteq> b" using b by (auto simp: is_blk_iff)
  then have "set_prev b (Some p) (set_next p (Some b) q) = set_next p (Some b) (set_prev b (Some p) q)"
    by (simp add: upd_def fun_upd_twist)
  then show ?thesis using h by (simp only: append_block_def append_n_def) (simp add: Let_def)
qed

section \<open>Construction and enumeration\<close>

lemma linked_nth:
  "linked s l \<longleftrightarrow> (\<forall>i < length l - 1.
     next_free_block (s (l ! i)) = Some (l ! Suc i) \<and> prev_free_block (s (l ! Suc i)) = Some (l ! i))"
proof (induction s l rule: linked.induct)
  case (1 s a b l)
  show ?case unfolding linked.simps 1 by (simp add: All_less_Suc2)
qed auto

lemma init_links_fold:
  fixes q :: fqueue
  assumes d: "distinct bs" and k: "k \<le> length bs"
  defines "q' \<equiv> fold (init_links bs) [0..<k] q"
  shows "(\<forall>i < length bs. nxt q' (bs ! i) =
      (if i < k \<and> i + 1 < length bs then Some (bs ! (i + 1)) else nxt q (bs ! i))) \<and>
    (\<forall>i < length bs. prv q' (bs ! i) =
      (if i < k \<and> 0 < i then Some (bs ! (i - 1)) else prv q (bs ! i))) \<and>
    (\<forall>b. b \<notin> set bs \<longrightarrow> nodes q' b = nodes q b) \<and>
    payload q' = payload q \<and> num_free_blocks q' = num_free_blocks q"
  using k unfolding q'_def
proof (induction k)
  case (Suc k)
  let ?q = "fold (init_links bs) [0..<k] q"
  have e: "fold (init_links bs) [0..<Suc k] q = init_links bs k ?q" by simp
  have k: "k < length bs" using Suc.prems by simp
  have eq: "bs ! i = bs ! k \<longleftrightarrow> i = k" if "i < length bs" for i
    using that k d nth_eq_iff_index_eq by blast
  have lt: "i < Suc k \<longleftrightarrow> i < k \<or> i = k" for i by auto
  have n: "nxt (init_links bs k ?q) (bs ! i) =
      (if i = k \<and> k + 1 < length bs then Some (bs ! (k + 1)) else nxt ?q (bs ! i))"
    "prv (init_links bs k ?q) (bs ! i) =
      (if i = k \<and> 0 < k then Some (bs ! (k - 1)) else prv ?q (bs ! i))" if "i < length bs" for i
    using eq [OF that] by (auto simp: init_links_def Let_def)
  have o: "nodes (init_links bs k ?q) b = nodes ?q b" if "b \<notin> set bs" for b
    using that nth_mem [OF k] by (auto simp: init_links_def Let_def)
  have "payload (init_links bs k ?q) = payload ?q"
    "num_free_blocks (init_links bs k ?q) = num_free_blocks ?q"
    by (auto simp: init_links_def Let_def)
  then show ?case using Suc k unfolding e lt by (auto simp: n o)
qed simp

lemma fq_init_links:
  fixes s :: "kv_ref \<Rightarrow> kv_cache_block"
  assumes d: "distinct bs" and blk: "list_all is_blk bs"
  defines "r \<equiv> fq_init s bs"
  shows "i < length bs \<Longrightarrow> nxt r (bs ! i) = Some ((bs @ [Fake_Tail]) ! Suc i)"
    "i < length bs \<Longrightarrow> prv r (bs ! i) = Some ((Fake_Head # bs) ! i)"
    "nxt r Fake_Head = Some (hd (bs @ [Fake_Tail]))" "prv r Fake_Tail = Some (last (Fake_Head # bs))"
    "prv r Fake_Head = None" "nxt r Fake_Tail = None" "num_free_blocks r = int (length bs)"
    "b \<notin> set (chain bs) \<Longrightarrow> nodes r b = s b"
    "is_blk b \<Longrightarrow> payload r b = payload \<lparr>nodes = s, num_free_blocks = 0\<rparr> b"
proof -
  define q where "q = fold (init_links bs) [0..<length bs] \<lparr>nodes = s, num_free_blocks = int (length bs)\<rparr>"
  note I = init_links_fold [OF d order_refl, of "\<lparr>nodes = s, num_free_blocks = int (length bs)\<rparr>", folded q_def]
  have Inx: "nxt q (bs ! i) = Some (bs ! Suc i)" if "Suc i < length bs" for i using I that by simp
  have Ipv: "prv q (bs ! i) = Some (bs ! (i - 1))" if "i < length bs" "0 < i" for i using I that by simp
  have Iout: "nodes q b = s b" if "b \<notin> set bs" for b using I that by simp
  have Ipay: "payload q b = payload \<lparr>nodes = s, num_free_blocks = 0\<rparr> b" for b
    using I by (simp add: payload_def fun_eq_iff)
  have f: "Fake_Head \<notin> set bs" "Fake_Tail \<notin> set bs" using blk by (auto simp: list_all_iff)
  have r: "r = (let q = upd Fake_Tail (\<lambda>_. new_block) (upd Fake_Head (\<lambda>_. new_block) q)
     in if length bs > 0 then
          set_next (last bs) (Some Fake_Tail) (set_prev Fake_Tail (Some (last bs))
            (set_prev (hd bs) (Some Fake_Head) (set_next Fake_Head (Some (hd bs)) q)))
        else set_prev Fake_Tail (Some Fake_Head) (set_next Fake_Head (Some Fake_Tail) q))"
    unfolding r_def fq_init_def q_def by (simp add: Let_def)
  have nf: "bs ! i \<noteq> Fake_Head" "bs ! i \<noteq> Fake_Tail" if "i < length bs" for i
    using nth_mem [OF that] f by metis+
  have hlf: "hd bs \<noteq> Fake_Head" "hd bs \<noteq> Fake_Tail" "last bs \<noteq> Fake_Head" "last bs \<noteq> Fake_Tail" if "bs \<noteq> []"
    using that f hd_in_set last_in_set by metis+
  have hl: "bs ! i = hd bs \<longleftrightarrow> i = 0" "bs ! i = last bs \<longleftrightarrow> Suc i = length bs" if "i < length bs" for i
  proof -
    have ne: "0 < length bs" "length bs - 1 < length bs" using that by linarith+
    have e: "hd bs = bs ! 0" "last bs = bs ! (length bs - 1)"
      using ne by (auto simp: hd_conv_nth last_conv_nth)
    show "bs ! i = hd bs \<longleftrightarrow> i = 0" unfolding e by (rule nth_eq_iff_index_eq [OF d that ne(1)])
    have "bs ! i = last bs \<longleftrightarrow> i = length bs - 1"
      unfolding e by (rule nth_eq_iff_index_eq [OF d that ne(2)])
    then show "bs ! i = last bs \<longleftrightarrow> Suc i = length bs" using ne by linarith
  qed
  show "nxt r (bs ! i) = Some ((bs @ [Fake_Tail]) ! Suc i)" if "i < length bs"
    using that nf [OF that] hl(2) [OF that] Inx [of i] by (auto simp: r Let_def nth_append)
  show "prv r (bs ! i) = Some ((Fake_Head # bs) ! i)" if "i < length bs"
    using that nf [OF that] hl(1) [OF that] Ipv [of i] by (auto simp: r Let_def nth_Cons')
  show "nxt r Fake_Head = Some (hd (bs @ [Fake_Tail]))" "prv r Fake_Tail = Some (last (Fake_Head # bs))"
    "prv r Fake_Head = None" "nxt r Fake_Tail = None"
    using hlf by (cases "bs = []"; force simp: r Let_def new_block_def)+
  show "num_free_blocks r = int (length bs)" using I by (simp add: r Let_def)
  show "nodes r b = s b" if "b \<notin> set (chain bs)"
    using that Iout [of b] last_in_set [of bs] hd_in_set [of bs] by (cases "bs = []") (auto simp: r Let_def)
  show "payload r b = payload \<lparr>nodes = s, num_free_blocks = 0\<rparr> b" if "is_blk b"
    using that Ipay [of b] by (auto simp: r Let_def payload_def is_blk_iff)
qed

lemma fq_init_ok:
  assumes d: "distinct bs" and blk: "list_all is_blk bs"
    and s: "\<And>b. is_blk b \<Longrightarrow> next_free_block (s b) = None \<and> prev_free_block (s b) = None"
  shows "fq_inv (fq_init s bs) bs"
proof (rule fq_invI)
  note I = fq_init_links [OF d blk, where s = s]
  let ?r = "fq_init s bs"
  show "linked (nodes ?r) (chain bs)"
    unfolding linked_nth
  proof (intro allI impI)
    fix i assume "i < length (chain bs) - 1"
    then have i: "i < Suc (length bs)" by simp
    have c: "chain bs ! Suc i = (bs @ [Fake_Tail]) ! i" by simp
    have c0: "chain bs ! i = (Fake_Head # bs) ! i" using i by (cases i) (simp_all add: nth_append)
    have "nxt ?r ((Fake_Head # bs) ! i) = Some ((bs @ [Fake_Tail]) ! i)"
      using i I(1) [of "i - 1"] I(3) by (cases i) (auto simp: hd_conv_nth nth_append)
    moreover have "prv ?r ((bs @ [Fake_Tail]) ! i) = Some ((Fake_Head # bs) ! i)"
    proof (cases "i < length bs")
      case False
      then have "i = length bs" using i by simp
      then show ?thesis using I(4) by (simp add: last_conv_nth del: last.simps)
    qed (use I(2) [of i] in \<open>simp add: nth_append\<close>)
    ultimately show "nxt ?r (chain bs ! i) = Some (chain bs ! Suc i) \<and>
        prv ?r (chain bs ! Suc i) = Some (chain bs ! i)" unfolding c c0 by simp
  qed
  show "distinct (chain bs)" using d blk by (auto simp: list_all_iff)
  show "nxt ?r b = None \<and> prv ?r b = None" if "b \<notin> set (chain bs)" for b
    using I(8) [OF that] s [of b] that by (auto simp: is_blk_iff)
qed (use fq_init_links(5-7) [OF d blk] in auto)

lemma free_walk_ok:
  assumes "linked (nodes q) (xs @ [Fake_Tail])" "nxt q Fake_Tail = None"
  shows "free_walk q (hd (xs @ [Fake_Tail])) ret = Some (ret @ xs)"
  using assms(1)
proof (induction xs arbitrary: ret)
  case Nil
  then show ?case using assms(2) by (simp add: free_walk.simps)
next
  case (Cons x xs)
  have "nxt q x = Some (hd (xs @ [Fake_Tail]))" "linked (nodes q) (xs @ [Fake_Tail])"
    using Cons.prems linked_hd [of "nodes q" x xs Fake_Tail] by auto
  then show ?case using Cons.IH by (subst free_walk.simps) simp
qed

lemma get_all_free_blocks_ok: "fq_inv q xs \<Longrightarrow> get_all_free_blocks q = Inr (Some xs)"
  using linked_hd [of "nodes q" Fake_Head xs Fake_Tail] free_walk_ok [of q xs "[]"]
  by (simp add: get_all_free_blocks_def fq_inv_def)

section \<open>The queue as an interface\<close>

text \<open>What a client relies on: the queue is a list of blocks, each operation is the
  list operation, it succeeds whenever the list operation makes sense, and it
  leaves what the client keeps in a block (\<open>pay\<close>) alone.\<close>

locale block_queue =
  fixes repr :: "'q \<Rightarrow> 'b list \<Rightarrow> bool"
    and pay :: "'q \<Rightarrow> 'b \<Rightarrow> 'p"
    and ok :: "'b \<Rightarrow> bool"
    and count :: "'q \<Rightarrow> int"
    and pop_n :: "int \<Rightarrow> 'q \<Rightarrow> ('b list \<times> 'q) result"
    and del :: "'b \<Rightarrow> 'q \<Rightarrow> 'q result"
    and push_front :: "'b list \<Rightarrow> 'q \<Rightarrow> 'q result"
    and push_back :: "'b list \<Rightarrow> 'q \<Rightarrow> 'q result"
  assumes repr_distinct: "repr q xs \<Longrightarrow> distinct xs"
    and repr_ok: "repr q xs \<Longrightarrow> list_all ok xs"
    and count_repr: "repr q xs \<Longrightarrow> count q = int (length xs)"
    and pop_n_repr: "repr q xs \<Longrightarrow> n \<le> length xs \<Longrightarrow>
      \<exists>q'. pop_n (int n) q = Inr (take n xs, q') \<and> repr q' (drop n xs) \<and> pay q' = pay q"
    and del_repr: "repr q xs \<Longrightarrow> b \<in> set xs \<Longrightarrow>
      \<exists>q'. del b q = Inr q' \<and> repr q' (remove1 b xs) \<and> pay q' = pay q"
    and push_front_repr: "repr q xs \<Longrightarrow> distinct (bs @ xs) \<Longrightarrow> list_all ok bs \<Longrightarrow>
      \<exists>q'. push_front bs q = Inr q' \<and> repr q' (bs @ xs) \<and> pay q' = pay q"
    and push_back_repr: "repr q xs \<Longrightarrow> distinct (xs @ bs) \<Longrightarrow> list_all ok bs \<Longrightarrow>
      \<exists>q'. push_back bs q = Inr q' \<and> repr q' (xs @ bs) \<and> pay q' = pay q"
begin

text \<open>Returning two batches, one to each end, as the pool does when it frees.\<close>

lemma push_both:
  assumes "repr q xs" "distinct (as @ xs @ bs)" "list_all ok as" "list_all ok bs"
  shows "\<exists>q'. rbind (push_front as q) (push_back bs) = Inr q' \<and> repr q' (as @ xs @ bs) \<and> pay q' = pay q"
proof -
  obtain q1 where q1: "push_front as q = Inr q1" "repr q1 (as @ xs)" "pay q1 = pay q"
    using push_front_repr [OF assms(1) _ assms(3)] assms(2) by auto
  obtain q2 where "push_back bs q1 = Inr q2" "repr q2 ((as @ xs) @ bs)" "pay q2 = pay q1"
    using push_back_repr [OF q1(2) _ assms(4)] assms(2) by auto
  then show ?thesis using q1 by simp
qed

text \<open>Blocks appended now are handed out only after every block already queued.\<close>

lemma appended_last:
  assumes "repr q xs" "distinct (xs @ bs)" "list_all ok bs" "n \<le> length xs"
  shows "\<exists>q1 q2. push_back bs q = Inr q1 \<and> pop_n (int n) q1 = Inr (take n xs, q2) \<and>
    repr q2 (drop n xs @ bs)"
  using push_back_repr [OF assms(1-3)] pop_n_repr [of _ "xs @ bs" n] assms(4) by fastforce

text \<open>Blocks prepended now are handed out before every block already queued.\<close>

lemma prepended_first:
  assumes "repr q xs" "distinct (bs @ xs)" "list_all ok bs" "n \<le> length bs"
  shows "\<exists>q1 q2. push_front bs q = Inr q1 \<and> pop_n (int n) q1 = Inr (take n bs, q2) \<and>
    repr q2 (drop n bs @ xs)"
  using push_front_repr [OF assms(1-3)] pop_n_repr [of _ "bs @ xs" n] assms(4) by fastforce

end

interpretation fq: block_queue fq_inv payload is_blk num_free_blocks popleft_n remove_block prepend_n append_n
proof (unfold_locales, goal_cases)
  case (1 q xs) then show ?case by (simp add: fq_inv_def)
next
  case (2 q xs) then show ?case by (simp add: fq_inv_def)
next
  case (3 q xs) then show ?case by (simp add: fq_inv_def)
next
  case (4 q xs n) then show ?case by (rule popleft_n_ok)
next
  case (5 q xs b) then show ?case by (rule remove_block_ok)
next
  case (6 q xs bs) then show ?case by (rule prepend_n_ok)
next
  case (7 q xs bs) then show ?case by (rule append_n_ok)
qed

section \<open>Properties\<close>

text \<open>C12. The free queue implements a list of blocks: on a queue that represents the
  list \<open>xs\<close>, popping one block or \<open>n\<close> blocks takes them from the front, removal takes a
  block out of the middle, appending and prepending add at the ends, and the walk
  over the queue ends and returns the list; each operation leaves a queue that
  represents the new list, and changes no field of any block but its links.\<close>

theorem free_queue_implements_list:
  assumes "fq_inv q xs"
  shows "(xs \<noteq> [] \<longrightarrow> (\<exists>q'. popleft q = Inr (hd xs, q') \<and> fq_inv q' (tl xs) \<and> payload q' = payload q)) \<and>
    (n \<le> length xs \<longrightarrow>
      (\<exists>q'. popleft_n (int n) q = Inr (take n xs, q') \<and> fq_inv q' (drop n xs) \<and> payload q' = payload q)) \<and>
    (b \<in> set xs \<longrightarrow> (\<exists>q'. remove_block b q = Inr q' \<and> fq_inv q' (remove1 b xs) \<and> payload q' = payload q)) \<and>
    (is_blk b \<and> b \<notin> set xs \<longrightarrow> (\<exists>q'. append_block b q = Inr q' \<and> fq_inv q' (xs @ [b]) \<and> payload q' = payload q)) \<and>
    (list_all is_blk bs \<and> distinct (bs @ xs) \<longrightarrow>
      (\<exists>q'. prepend_n bs q = Inr q' \<and> fq_inv q' (bs @ xs) \<and> payload q' = payload q) \<and>
      (\<exists>q'. append_n bs q = Inr q' \<and> fq_inv q' (xs @ bs) \<and> payload q' = payload q)) \<and>
    get_all_free_blocks q = Inr (Some xs)"
proof -
  have "\<exists>q'. popleft q = Inr (hd xs, q') \<and> fq_inv q' (tl xs) \<and> payload q' = payload q" if "xs \<noteq> []"
    using popleft_ok [of q "hd xs" "tl xs"] assms that by simp
  moreover have "\<exists>q'. append_block b q = Inr q' \<and> fq_inv q' (xs @ [b]) \<and> payload q' = payload q"
    if "is_blk b" "b \<notin> set xs"
    using append_n_ok [OF assms, of "[b]"] append_block_eq [OF assms that] that fq.repr_distinct [OF assms] by simp
  moreover have "\<exists>q'. append_n bs q = Inr q' \<and> fq_inv q' (xs @ bs) \<and> payload q' = payload q"
    if "list_all is_blk bs" "distinct (bs @ xs)"
    using append_n_ok [OF assms _ that(1)] that(2) by (simp add: Int_commute)
  ultimately show ?thesis
    using popleft_n_ok [OF assms] remove_block_ok [OF assms] prepend_n_ok [OF assms] get_all_free_blocks_ok [OF assms] by simp
qed

theorem free_queue_implements_list_witness:
  "\<exists>q'. remove_block (Blk 1) (fq_init (\<lambda>_. new_block) [Blk 0, Blk 1, Blk 2]) = Inr q' \<and> fq_inv q' [Blk 0, Blk 2]"
proof -
  have "fq_inv (fq_init (\<lambda>_. new_block) [Blk 0, Blk 1, Blk 2]) [Blk 0, Blk 1, Blk 2]"
    by (rule fq_init_ok) (simp_all add: new_block_def)
  from free_queue_implements_list [OF this, of 0 "Blk 1" "[]"] show ?thesis by auto
qed

text \<open>C13. The error paths of the free queue: popping from an empty queue raises
  \<^verbatim>\<open>ValueError\<close>, asking for more blocks than are queued fails the assertion, and
  removing a block that is not queued raises \<^verbatim>\<open>RuntimeError\<close>.\<close>

theorem free_queue_errors:
  assumes "fq_inv q xs"
  shows "(popleft q = Inl ValueError \<longleftrightarrow> xs = []) \<and>
    (int (length xs) < n \<longrightarrow> popleft_n n q = Inl AssertionError) \<and>
    (is_blk b \<longrightarrow> (remove_block b q = Inl RuntimeError \<longleftrightarrow> b \<notin> set xs))"
proof -
  have "popleft q = Inl ValueError \<longleftrightarrow> xs = []"
    using popleft_empty [of q] popleft_ok [of q "hd xs" "tl xs"] assms by (cases xs) auto
  moreover have "remove_block b q = Inl RuntimeError \<longleftrightarrow> b \<notin> set xs" if "is_blk b"
    using remove_block_err [OF assms that] remove_block_ok [OF assms, of b] by auto
  ultimately show ?thesis using popleft_n_too_many [OF assms, of n] by simp
qed

theorem free_queue_errors_witness:
  "popleft (fq_init (\<lambda>_. new_block) []) = Inl ValueError \<and>
   popleft_n 1 (fq_init (\<lambda>_. new_block) []) = Inl AssertionError \<and>
   remove_block (Blk 3) (fq_init (\<lambda>_. new_block) []) = Inl RuntimeError"
proof -
  have "fq_inv (fq_init (\<lambda>_. new_block) []) []" by (rule fq_init_ok) (simp_all add: new_block_def)
  from free_queue_errors [OF this, of 1 "Blk 3"] show ?thesis by simp
qed

end
