(* ===== verification/Block_Map.thy ===== *)
theory Block_Map
  imports Free_Queue "HOL-Library.AList"
begin

text \<open>
  \<^verbatim>\<open>BlockHashToBlockMap\<close> of \<^verbatim>\<open>vllm/v1/core/block_pool.py\<close>: the prefix cache's index
  from a key to one block or to a dict of blocks.  It is shown to be a map from
  keys to lists of blocks, in order of insertion, with no block listed twice
  under a key.  The locale \<open>block_index\<close> is the interface the block pool uses.
\<close>

section \<open>The index\<close>

datatype cache_entry = Single kv_ref | Multi "(int \<times> kv_ref) list"

type_synonym block_map = "bytes \<Rightarrow> cache_entry option"

definition bm_empty :: block_map where
  "bm_empty = (\<lambda>_. None)"

definition get_one_block :: "block_map \<Rightarrow> bytes \<Rightarrow> kv_ref option result" where
  "get_one_block m key =
    (case m key of
       None \<Rightarrow> Inr None
     | Some (Single b) \<Rightarrow> Inr (Some b)
     | Some (Multi d) \<Rightarrow> (case d of [] \<Rightarrow> Inl StopIteration | (_, b) # _ \<Rightarrow> Inr (Some b)))"

definition bm_contain :: "block_map \<Rightarrow> bytes \<Rightarrow> int \<Rightarrow> bool" where
  "bm_contain m key i =
    (case m key of
       None \<Rightarrow> False
     | Some (Single b) \<Rightarrow> block_id b = i
     | Some (Multi d) \<Rightarrow> i \<in> fst ` set d)"

definition bm_insert :: "bytes \<Rightarrow> kv_ref \<Rightarrow> block_map \<Rightarrow> block_map" where
  "bm_insert key b m =
    (case m key of
       None \<Rightarrow> m(key \<mapsto> Single b)
     | Some (Single b0) \<Rightarrow> m(key \<mapsto> Multi (AList.update (block_id b) b [(block_id b0, b0)]))
     | Some (Multi d) \<Rightarrow> m(key \<mapsto> Multi (AList.update (block_id b) b d)))"

definition bm_pop :: "bytes \<Rightarrow> int \<Rightarrow> block_map \<Rightarrow> kv_ref option \<times> block_map" where
  "bm_pop key i m =
    (let m' = m(key := None) in
     case m key of
       None \<Rightarrow> (None, m')
     | Some (Single b) \<Rightarrow> if block_id b = i then (Some b, m') else (None, m'(key \<mapsto> Single b))
     | Some (Multi d) \<Rightarrow>
         let d' = AList.delete i d
         in (map_of d i, if length d' > 0 then m'(key \<mapsto> Multi d') else m'))"

section \<open>As a map to lists\<close>

definition bm_inv :: "block_map \<Rightarrow> bool" where
  "bm_inv m \<longleftrightarrow> (\<forall>key d. m key = Some (Multi d) \<longrightarrow>
     d \<noteq> [] \<and> distinct (map fst d) \<and> (\<forall>(i, b) \<in> set d. block_id b = i))"

fun entry_blocks :: "cache_entry option \<Rightarrow> kv_ref list" where
  "entry_blocks None = []"
| "entry_blocks (Some (Single b)) = [b]"
| "entry_blocks (Some (Multi d)) = map snd d"

definition bm_blocks :: "block_map \<Rightarrow> bytes \<Rightarrow> kv_ref list" where
  "bm_blocks m key = entry_blocks (m key)"

lemma bm_empty_ok [simp]: "bm_inv bm_empty" "bm_blocks bm_empty key = []"
  by (simp_all add: bm_inv_def bm_empty_def bm_blocks_def)

lemma get_one_block_ok:
  "bm_inv m \<Longrightarrow> get_one_block m key = Inr (case bm_blocks m key of [] \<Rightarrow> None | b # _ \<Rightarrow> Some b)"
  by (auto simp: get_one_block_def bm_blocks_def bm_inv_def split: option.splits cache_entry.splits list.splits)

lemma ids_of_dict: "(\<forall>(i, b) \<in> set d. block_id b = i) \<Longrightarrow> map block_id (map snd d) = map fst d"
  by auto

lemma bm_contain_ok: "bm_inv m \<Longrightarrow> bm_contain m key i \<longleftrightarrow> i \<in> block_id ` set (bm_blocks m key)"
  by (force simp: bm_contain_def bm_blocks_def bm_inv_def image_image split: option.splits cache_entry.splits)

lemma alist_update_fresh: "k \<notin> fst ` set d \<Longrightarrow> AList.update k v d = d @ [(k, v)]"
  by (induction d) auto

lemma bm_insert_ok:
  assumes inv: "bm_inv m" and new: "block_id b \<notin> block_id ` set (bm_blocks m key)"
  shows "bm_inv (bm_insert key b m)"
    "bm_blocks (bm_insert key b m) key' = (if key' = key then bm_blocks m key @ [b] else bm_blocks m key')"
proof -
  have d: "block_id b \<notin> fst ` set d" "distinct (map fst d)" "\<forall>(i, b) \<in> set d. block_id b = i"
    if "m key = Some (Multi d)" for d
    using that inv new by (force simp: bm_inv_def bm_blocks_def)+
  show "bm_inv (bm_insert key b m)"
    using inv new d by (auto simp: bm_inv_def bm_insert_def bm_blocks_def alist_update_fresh
        split: option.splits cache_entry.splits if_splits)
  show "bm_blocks (bm_insert key b m) key' = (if key' = key then bm_blocks m key @ [b] else bm_blocks m key')"
    using new d by (auto simp: bm_blocks_def bm_insert_def alist_update_fresh
        split: option.splits cache_entry.splits)
qed

lemma alist_delete_filter: "AList.delete k d = filter (\<lambda>x. fst x \<noteq> k) d"
  by (induction d) auto

lemma bm_pop_ok:
  assumes inv: "bm_inv m"
  shows "bm_inv (snd (bm_pop key i m))"
    "bm_blocks (snd (bm_pop key i m)) key' =
      (if key' = key then filter (\<lambda>b. block_id b \<noteq> i) (bm_blocks m key) else bm_blocks m key')"
    "fst (bm_pop key i m) = find (\<lambda>b. block_id b = i) (bm_blocks m key)"
proof -
  have d: "distinct (map fst d)" "\<forall>(i, b) \<in> set d. block_id b = i" if "m key = Some (Multi d)" for d
    using that inv by (force simp: bm_inv_def)+
  have f: "map snd (filter (\<lambda>x. fst x \<noteq> i) d) = filter (\<lambda>b. block_id b \<noteq> i) (map snd d)"
    if "\<forall>(i, b) \<in> set d. block_id b = i" for d
    using that by (induction d) auto
  have g: "map_of d i = find (\<lambda>b. block_id b = i) (map snd d)" if "\<forall>(i, b) \<in> set d. block_id b = i" for d
    using that by (induction d) auto
  show "bm_inv (snd (bm_pop key i m))"
    using inv d by (auto simp: bm_inv_def bm_pop_def Let_def alist_delete_filter distinct_map_filter
        split: option.splits cache_entry.splits if_splits)
  show "bm_blocks (snd (bm_pop key i m)) key' =
      (if key' = key then filter (\<lambda>b. block_id b \<noteq> i) (bm_blocks m key) else bm_blocks m key')"
  proof (cases "\<exists>d. m key = Some (Multi d)")
    case True
    then obtain d where md: "m key = Some (Multi d)" by blast
    show ?thesis using md f [OF d(2) [OF md]]
      by (cases "filter (\<lambda>x. fst x \<noteq> i) d = []") (auto simp: bm_blocks_def bm_pop_def Let_def alist_delete_filter)
  qed (auto simp: bm_blocks_def bm_pop_def Let_def split: option.splits cache_entry.splits)
  show "fst (bm_pop key i m) = find (\<lambda>b. block_id b = i) (bm_blocks m key)"
    using d g by (auto simp: bm_blocks_def bm_pop_def Let_def split: option.splits cache_entry.splits)
qed

section \<open>The index as an interface\<close>

locale block_index =
  fixes inv :: "'m \<Rightarrow> bool"
    and vals :: "'m \<Rightarrow> 'k \<Rightarrow> 'b list"
    and bid :: "'b \<Rightarrow> int"
    and ins :: "'k \<Rightarrow> 'b \<Rightarrow> 'm \<Rightarrow> 'm"
    and pop :: "'k \<Rightarrow> int \<Rightarrow> 'm \<Rightarrow> 'b option \<times> 'm"
  assumes inv_ins: "inv m \<Longrightarrow> bid b \<notin> bid ` set (vals m k) \<Longrightarrow> inv (ins k b m)"
    and vals_ins: "inv m \<Longrightarrow> bid b \<notin> bid ` set (vals m k) \<Longrightarrow>
      vals (ins k b m) k' = (if k' = k then vals m k @ [b] else vals m k')"
    and inv_pop: "inv m \<Longrightarrow> inv (snd (pop k i m))"
    and vals_pop: "inv m \<Longrightarrow> vals (snd (pop k i m)) k' =
      (if k' = k then filter (\<lambda>b. bid b \<noteq> i) (vals m k) else vals m k')"
    and popped: "inv m \<Longrightarrow> fst (pop k i m) = find (\<lambda>b. bid b = i) (vals m k)"
begin

text \<open>Removing one block under several keys, and collecting the keys it was found under.\<close>

fun pop_all :: "int \<Rightarrow> 'k list \<Rightarrow> 'm \<Rightarrow> 'k list \<times> 'm" where
  "pop_all i [] m = ([], m)"
| "pop_all i (k # ks) m =
    (let (b, m) = pop k i m; (removed, m) = pop_all i ks m
     in (if b \<noteq> None then k # removed else removed, m))"

lemma pop_all_ok:
  "inv m \<Longrightarrow> distinct ks \<Longrightarrow> inv (snd (pop_all i ks m)) \<and>
    vals (snd (pop_all i ks m)) k' = (if k' \<in> set ks then filter (\<lambda>b. bid b \<noteq> i) (vals m k') else vals m k') \<and>
    fst (pop_all i ks m) = filter (\<lambda>k. \<exists>b \<in> set (vals m k). bid b = i) ks"
proof (induction ks arbitrary: m)
  case (Cons k ks)
  let ?m = "snd (pop k i m)"
  have m: "inv ?m" using Cons.prems by (simp add: inv_pop)
  have v: "vals ?m k'' = vals m k''" if "k'' \<in> set ks" for k''
    using that Cons.prems by (auto simp: vals_pop)
  have f: "fst (pop k i m) \<noteq> None \<longleftrightarrow> (\<exists>b \<in> set (vals m k). bid b = i)"
    using Cons.prems by (auto simp: popped find_None_iff)
  have IH: "inv (snd (pop_all i ks ?m))"
    "vals (snd (pop_all i ks ?m)) k' = (if k' \<in> set ks then filter (\<lambda>b. bid b \<noteq> i) (vals ?m k') else vals ?m k')"
    "fst (pop_all i ks ?m) = filter (\<lambda>k. \<exists>b \<in> set (vals m k). bid b = i) ks"
    using Cons.IH [OF m] Cons.prems v by (auto cong: filter_cong)
  have e: "pop_all i (k # ks) m =
      (if fst (pop k i m) \<noteq> None then k # fst (pop_all i ks ?m) else fst (pop_all i ks ?m), snd (pop_all i ks ?m))"
    by (simp add: split_beta Let_def)
  show ?case unfolding e using IH f Cons.prems by (auto simp: vals_pop)
qed simp

end

interpretation bm: block_index bm_inv bm_blocks block_id bm_insert bm_pop
proof (unfold_locales, goal_cases)
  case (1 m b k) then show ?case by (rule bm_insert_ok(1))
next
  case (2 m b k k') then show ?case by (rule bm_insert_ok(2))
next
  case (3 m k i) then show ?case by (rule bm_pop_ok(1))
next
  case (4 m k i k') then show ?case by (rule bm_pop_ok(2))
next
  case (5 m k i) then show ?case by (rule bm_pop_ok(3))
qed

section \<open>Properties\<close>

text \<open>C14. The prefix-cache index implements a map from keys to lists of blocks in the
  order of insertion, whatever mix of single entries and dicts it stores: a lookup
  returns the first block of the list, insertion appends, removal takes out the
  block with the given id (and returns it), other keys are untouched, and the
  representation invariant is kept.\<close>

theorem block_map_implements_lists:
  assumes "bm_inv m"
  shows "get_one_block m key = Inr (case bm_blocks m key of [] \<Rightarrow> None | b # _ \<Rightarrow> Some b) \<and>
    (bm_contain m key i \<longleftrightarrow> (\<exists>b \<in> set (bm_blocks m key). block_id b = i)) \<and>
    (\<not> bm_contain m key (block_id b) \<longrightarrow> bm_inv (bm_insert key b m) \<and>
       bm_blocks (bm_insert key b m) = (bm_blocks m)(key := bm_blocks m key @ [b])) \<and>
    bm_inv (snd (bm_pop key i m)) \<and>
    bm_blocks (snd (bm_pop key i m)) = (bm_blocks m)(key := filter (\<lambda>b. block_id b \<noteq> i) (bm_blocks m key)) \<and>
    fst (bm_pop key i m) = find (\<lambda>b. block_id b = i) (bm_blocks m key)"
  using get_one_block_ok [OF assms] bm_contain_ok [OF assms] bm_insert_ok [OF assms] bm_pop_ok [OF assms]
  by (auto simp: fun_eq_iff)

theorem block_map_implements_lists_witness:
  "get_one_block (bm_insert [7] (Blk 2) (bm_insert [7] (Blk 1) bm_empty)) [7] = Inr (Some (Blk 1)) \<and>
   fst (bm_pop [7] 1 (bm_insert [7] (Blk 2) (bm_insert [7] (Blk 1) bm_empty))) = Some (Blk 1)"
proof -
  let ?m = "bm_insert [7] (Blk 2) (bm_insert [7] (Blk 1) bm_empty)"
  have m: "bm_inv ?m" "bm_blocks ?m [7] = [Blk 1, Blk 2]" by (simp_all add: bm_insert_ok)
  show ?thesis using block_map_implements_lists [OF m(1), of "[7]" 1] m(2) by simp
qed

end
