(* ===== verification/Block_Pool.thy ===== *)
theory Block_Pool
  imports Block_Hash Block_Map
begin

text \<open>
  \<^verbatim>\<open>BlockPool\<close> of \<^verbatim>\<open>vllm/v1/core/block_pool.py\<close>: reference-counted blocks, the free
  queue, the prefix-cache index and the KV cache events.  The metrics collector is
  an optional observer driven by the clock and by random sampling and is left out;
  every other effect of the methods is here.  The set of secondary keys of a block
  is kept as a list without duplicates, so the order in which its removal events
  are emitted is one of the orders Python may choose.  The environment flag
  \<^verbatim>\<open>VLLM_KV_EVENTS_USE_INT_BLOCK_HASHES\<close> is a field of the pool.  The only effect
  of event generation on a request is to fill its memo of embedding hashes, which
  changes no key; the pool's methods therefore return no request.
\<close>

section \<open>State\<close>

record block_stored =
  ev_block_hashes :: "external_block_hash list"
  ev_parent_block_hash :: "external_block_hash option"
  ev_token_ids :: "int list"
  ev_block_size :: int
  ev_lora_id :: "int option"
  ev_lora_name :: "string option"
  ev_extra_keys :: "extra_key list option list option"
  ev_group_idx :: int

datatype kv_event =
    BlockStored block_stored
  | BlockRemoved "external_block_hash list" int
  | AllBlocksCleared

record block_pool =
  num_gpu_blocks :: int
  enable_caching :: bool
  hash_block_size :: int
  free_block_queue :: fqueue
  cached_block_hash_to_block :: block_map
  cached_block_hashes_by_block :: "int \<Rightarrow> bytes list option"
  null_block :: kv_ref
  enable_kv_cache_events :: bool
  kv_event_queue :: "kv_event list"
  use_int_block_hashes :: bool

definition blk :: "block_pool \<Rightarrow> kv_ref \<Rightarrow> kv_cache_block" where
  "blk p b = nodes (free_block_queue p) b"

definition upd_blk :: "kv_ref \<Rightarrow> (kv_cache_block \<Rightarrow> kv_cache_block) \<Rightarrow> block_pool \<Rightarrow> block_pool" where
  "upd_blk b f p = p\<lparr>free_block_queue := upd b f (free_block_queue p)\<rparr>"

definition pool_blocks :: "block_pool \<Rightarrow> kv_ref list" where
  "pool_blocks p = map Blk [0..<nat (num_gpu_blocks p)]"

definition pool_init :: "int \<Rightarrow> bool \<Rightarrow> int \<Rightarrow> bool \<Rightarrow> bool \<Rightarrow> block_pool result" where
  "pool_init n caching hbs events use_int =
    py_assert (n > 0)
      (let q = fq_init (\<lambda>_. new_block) (map Blk [0..<nat n]) in
       rbind (popleft q) (\<lambda>(null, q).
         Inr \<lparr>num_gpu_blocks = n, enable_caching = caching, hash_block_size = hbs,
              free_block_queue = upd null (is_null_update (\<lambda>_. True)) q,
              cached_block_hash_to_block = bm_empty, cached_block_hashes_by_block = (\<lambda>_. None),
              null_block = null, enable_kv_cache_events = events, kv_event_queue = [],
              use_int_block_hashes = use_int\<rparr>))"

section \<open>Lookup\<close>

fun get_cached_loop :: "block_pool \<Rightarrow> bytes \<Rightarrow> int list \<Rightarrow> kv_ref list \<Rightarrow> kv_ref list option result" where
  "get_cached_loop p h [] acc = Inr (Some acc)"
| "get_cached_loop p h (g # gs) acc =
    rbind (make_block_hash_with_group_id h g) (\<lambda>key.
    rbind (get_one_block (cached_block_hash_to_block p) key) (\<lambda>b.
      case b of None \<Rightarrow> Inr None | Some b \<Rightarrow> get_cached_loop p h gs (acc @ [b])))"

definition get_cached_block :: "block_pool \<Rightarrow> bytes \<Rightarrow> int list \<Rightarrow> kv_ref list option result" where
  "get_cached_block p h group_ids = get_cached_loop p h group_ids []"

section \<open>Keys of a block\<close>

fun pop_hashes :: "int \<Rightarrow> bytes list \<Rightarrow> block_map \<Rightarrow> bytes list \<times> block_map" where
  "pop_hashes i [] m = ([], m)"
| "pop_hashes i (h # hs) m =
    (let (b, m) = bm_pop h i m; (removed, m) = pop_hashes i hs m
     in (if b \<noteq> None then h # removed else removed, m))"

definition remove_cached_block_hashes :: "kv_ref \<Rightarrow> block_pool \<Rightarrow> bytes list \<times> block_pool" where
  "remove_cached_block_hashes b p =
    (let i = block_id b;
         hs = (case block_hash (blk p b) of Some h \<Rightarrow> [h] | None \<Rightarrow> []) @
              (case cached_block_hashes_by_block p i of Some l \<Rightarrow> l | None \<Rightarrow> []);
         p = p\<lparr>cached_block_hashes_by_block := (cached_block_hashes_by_block p)(i := None)\<rparr>
     in if hs = [] then ([], p)
        else let (removed, m) = pop_hashes i hs (cached_block_hash_to_block p)
             in (removed, upd_blk b reset_hash (p\<lparr>cached_block_hash_to_block := m\<rparr>)))"

definition emit_block_removed_events :: "bytes list \<Rightarrow> block_pool \<Rightarrow> block_pool" where
  "emit_block_removed_events keys p =
    (if \<not> enable_kv_cache_events p then p
     else p\<lparr>kv_event_queue := kv_event_queue p @
       map (\<lambda>k. BlockRemoved [maybe_convert_block_hash (use_int_block_hashes p) (get_block_hash k)] (get_group_id k)) keys\<rparr>)"

definition insert_block_hash :: "bytes \<Rightarrow> kv_ref \<Rightarrow> int option \<Rightarrow> block_pool \<Rightarrow> block_pool result" where
  "insert_block_hash key b ntok p =
    (if block_hash (blk p b) = Some key then Inr p
     else if bm_contain (cached_block_hash_to_block p) key (block_id b) then Inr p
     else rbind
       (if block_hash (blk p b) = None
        then rbind (set_block_hash key ntok (blk p b)) (\<lambda>nb. Inr (upd_blk b (\<lambda>_. nb) p))
        else let l = (case cached_block_hashes_by_block p (block_id b) of Some l \<Rightarrow> l | None \<Rightarrow> [])
             in Inr (p\<lparr>cached_block_hashes_by_block := (cached_block_hashes_by_block p)
                      (block_id b \<mapsto> (if key \<in> set l then l else l @ [key]))\<rparr>))
       (\<lambda>p. Inr (p\<lparr>cached_block_hash_to_block := bm_insert key b (cached_block_hash_to_block p)\<rparr>)))"

definition maybe_evict_cached_block :: "kv_ref \<Rightarrow> block_pool \<Rightarrow> bool \<times> block_pool" where
  "maybe_evict_cached_block b p =
    (let (evicted, p) = remove_cached_block_hashes b p
     in if evicted = [] then (False, p) else (True, emit_block_removed_events evicted p))"

section \<open>Allocation, references, freeing\<close>

definition get_num_free_blocks :: "block_pool \<Rightarrow> int" where
  "get_num_free_blocks p = num_free_blocks (free_block_queue p)"

definition alloc_one :: "kv_ref \<Rightarrow> block_pool \<Rightarrow> block_pool result" where
  "alloc_one b p =
    (let p = (if enable_caching p then snd (maybe_evict_cached_block b p) else p)
     in py_assert (ref_cnt (blk p b) = 0) (Inr (upd_blk b (ref_cnt_update (\<lambda>n. n + 1)) p)))"

definition get_new_blocks :: "int \<Rightarrow> block_pool \<Rightarrow> (kv_ref list \<times> block_pool) result" where
  "get_new_blocks n p =
    (if n > get_num_free_blocks p then Inl ValueError
     else rbind (popleft_n n (free_block_queue p)) (\<lambda>(ret, q).
       rbind (rfold alloc_one ret (p\<lparr>free_block_queue := q\<rparr>)) (\<lambda>p. Inr (ret, p))))"

definition touch_one :: "kv_ref \<Rightarrow> block_pool \<Rightarrow> block_pool result" where
  "touch_one b p =
    rbind (if ref_cnt (blk p b) = 0 \<and> \<not> is_null (blk p b)
           then rbind (remove_block b (free_block_queue p)) (\<lambda>q. Inr (p\<lparr>free_block_queue := q\<rparr>))
           else Inr p)
      (\<lambda>p. Inr (upd_blk b (ref_cnt_update (\<lambda>n. n + 1)) p))"

definition touch :: "kv_ref list \<Rightarrow> block_pool \<Rightarrow> block_pool result" where
  "touch bs p = rfold touch_one bs p"

fun free_loop :: "kv_ref list \<Rightarrow> kv_ref list \<Rightarrow> kv_ref list \<Rightarrow> block_pool \<Rightarrow> kv_ref list \<times> kv_ref list \<times> block_pool" where
  "free_loop [] with_hash without_hash p = (with_hash, without_hash, p)"
| "free_loop (b # bs) with_hash without_hash p =
    (let p = upd_blk b (ref_cnt_update (\<lambda>n. n - 1)) p in
     if ref_cnt (blk p b) = 0 \<and> \<not> is_null (blk p b)
     then if block_hash (blk p b) = None then free_loop bs with_hash (without_hash @ [b]) p
          else free_loop bs (with_hash @ [b]) without_hash p
     else free_loop bs with_hash without_hash p)"

definition free_blocks :: "kv_ref list \<Rightarrow> block_pool \<Rightarrow> block_pool result" where
  "free_blocks bs p =
    (let (with_hash, without_hash, p) = free_loop bs [] [] p in
     rbind (prepend_n without_hash (free_block_queue p)) (\<lambda>q.
     rbind (append_n with_hash q) (\<lambda>q. Inr (p\<lparr>free_block_queue := q\<rparr>))))"

definition evict_blocks :: "int list \<Rightarrow> block_pool \<Rightarrow> block_pool result" where
  "evict_blocks ids p =
    rfold (\<lambda>i p. py_assert (i < int (length (pool_blocks p)))
      (rbind (py_index (pool_blocks p) i) (\<lambda>b. Inr (snd (maybe_evict_cached_block b p))))) ids p"

definition pool_reset_prefix_cache :: "block_pool \<Rightarrow> bool \<times> block_pool" where
  "pool_reset_prefix_cache p =
    (if num_gpu_blocks p - get_num_free_blocks p \<noteq> 1 then (False, p)
     else
       let p = p\<lparr>cached_block_hash_to_block := bm_empty, cached_block_hashes_by_block := (\<lambda>_. None)\<rparr>;
           p = fold (\<lambda>b. upd_blk b reset_hash) (pool_blocks p) p
       in (True, if enable_kv_cache_events p then p\<lparr>kv_event_queue := kv_event_queue p @ [AllBlocksCleared]\<rparr> else p))"

definition get_usage :: "block_pool \<Rightarrow> rat" where
  "get_usage p =
    (let total = num_gpu_blocks p - 1
     in if total = 0 then 0 else 1 - (of_int (get_num_free_blocks p) / of_int total))"

definition pool_take_events :: "block_pool \<Rightarrow> kv_event list \<times> block_pool" where
  "pool_take_events p =
    (if \<not> enable_kv_cache_events p then ([], p)
     else (kv_event_queue p, p\<lparr>kv_event_queue := []\<rparr>))"

section \<open>Caching full blocks\<close>

text \<open>The hashes at the block size asked for; a view is read as the list of its entries.\<close>

definition hashes_at :: "block_pool \<Rightarrow> request \<Rightarrow> int \<Rightarrow> bytes list result" where
  "hashes_at p r bs =
    (if bs = hash_block_size p then Inr (rq_block_hashes r)
     else py_assert (bs mod hash_block_size p = 0)
       (rbind (block_hash_list_with_block_size (rq_block_hashes r) (hash_block_size p) bs) (\<lambda>v. hl_from v 0)))"

definition masked_out :: "bool list option \<Rightarrow> int \<Rightarrow> bool result" where
  "masked_out bmask i = (case bmask of None \<Rightarrow> Inr False | Some m \<Rightarrow> rbind (py_index m i) (\<lambda>b. Inr (\<not> b)))"

definition cache_one ::
  "bytes list \<Rightarrow> int \<Rightarrow> int \<Rightarrow> int \<Rightarrow> bool list option \<Rightarrow> int \<times> kv_ref \<Rightarrow>
   block_pool \<times> external_block_hash list \<Rightarrow> (block_pool \<times> external_block_hash list) result" where
  "cache_one new_hashes nc bs gid bmask ib pe =
    (let (i, b) = ib; (p, ext) = pe in
     rbind (if is_null (blk p b) then Inr True else masked_out bmask i) (\<lambda>skip.
     if skip then Inr (p, ext)
     else rbind (py_index new_hashes i) (\<lambda>h.
       let nht = (nc + i + 1) * bs in
       rbind (make_block_hash_with_group_id h gid) (\<lambda>key.
       rbind (case block_hash (blk p b) of
                None \<Rightarrow> Inr p
              | Some _ \<Rightarrow> py_assert (case block_hash_num_tokens (blk p b) of None \<Rightarrow> False | Some t \<Rightarrow> t < nht)
                  (let (removed, p) = remove_cached_block_hashes b p in Inr (emit_block_removed_events removed p))) (\<lambda>p.
       rbind (insert_block_hash key b (Some nht) p) (\<lambda>p.
         Inr (p, if enable_kv_cache_events p
                 then ext @ [maybe_convert_block_hash (use_int_block_hashes p) h] else ext)))))))"

definition stored_keys_one ::
  "(bytes \<Rightarrow> bytes) \<Rightarrow> block_pool \<Rightarrow> kv_ref list \<Rightarrow> int \<Rightarrow> int \<Rightarrow> bool list option \<Rightarrow> int \<Rightarrow>
   extra_key list option list \<times> int \<times> request \<Rightarrow> (extra_key list option list \<times> int \<times> request) result" where
  "stored_keys_one sha256 p blocks nc bs bmask i st =
    (let (keys, idx, r) = st in
     rbind (py_index blocks i) (\<lambda>b.
     rbind (if is_null (blk p b) then Inr True else masked_out bmask (i - nc)) (\<lambda>skip.
     if skip then Inr (keys, idx, r)
     else rbind (generate_block_hash_extra_keys sha256 r (i * bs) (i * bs + bs) idx) (\<lambda>(k, idx, r).
       Inr (keys @ [k], idx, r)))))"

definition cache_full_blocks ::
  "(bytes \<Rightarrow> bytes) \<Rightarrow> request \<Rightarrow> kv_ref list \<Rightarrow> int \<Rightarrow> int \<Rightarrow> int \<Rightarrow> int \<Rightarrow> bool list option \<Rightarrow>
   block_pool \<Rightarrow> block_pool result" where
  "cache_full_blocks sha256 r blocks nc nf bs gid bmask p =
    (if nc \<ge> nf then Inr p
     else let new_full = py_slice blocks nc nf in
       py_assert (case bmask of None \<Rightarrow> True | Some m \<Rightarrow> length m = length new_full)
      (rbind (hashes_at p r bs) (\<lambda>hashes.
       py_assert (int (length hashes) \<ge> nf)
      (rbind (rfold (cache_one (py_from hashes nc) nc bs gid bmask)
               (zip (map int [0..<length new_full]) new_full) (p, [])) (\<lambda>(p, ext).
       if \<not> enable_kv_cache_events p then Inr p
       else rbind (if nc = 0 then Inr None
                   else rbind (py_index hashes (nc - 1)) (\<lambda>h. Inr (Some (maybe_convert_block_hash (use_int_block_hashes p) h)))) (\<lambda>parent.
         rbind (rfold (stored_keys_one sha256 p blocks nc bs bmask) [nc..nf - 1] ([], 0, r)) (\<lambda>(keys, _, _).
           Inr (p\<lparr>kv_event_queue := kv_event_queue p @ [BlockStored
             \<lparr>ev_block_hashes = ext, ev_parent_block_hash = parent,
              ev_token_ids = py_slice (all_token_ids r) (nc * bs) (nf * bs),
              ev_block_size = bs,
              ev_lora_id = map_option lora_int_id (rq_lora_request r),
              ev_lora_name = map_option lora_name (rq_lora_request r),
              ev_extra_keys = (if keys = [] then None else Some keys),
              ev_group_idx = gid\<rparr>]\<rparr>)))))))) "

section \<open>Caching a partial block\<close>

definition get_partial_block_hash :: "block_pool \<Rightarrow> request \<Rightarrow> int \<Rightarrow> bytes result" where
  "get_partial_block_hash p r ntok =
    py_assert (ntok mod hash_block_size p = 0)
      (let n = ntok div hash_block_size p in
       py_assert (0 < n \<and> n \<le> int (length (rq_block_hashes r))) (py_index (rq_block_hashes r) (n - 1)))"

definition get_partial_block_parent_hash_and_start :: "block_pool \<Rightarrow> request \<Rightarrow> int \<Rightarrow> (bytes option \<times> int) result" where
  "get_partial_block_parent_hash_and_start p r ntok =
    (let n = ntok div hash_block_size p in
     rbind (if n > 1 then rbind (py_index (rq_block_hashes r) (n - 2)) (\<lambda>h. Inr (Some h)) else Inr None) (\<lambda>parent.
       Inr (parent, (n - 1) * hash_block_size p)))"

definition emit_partial_stored :: "(bytes \<Rightarrow> bytes) \<Rightarrow> request \<Rightarrow> bytes \<Rightarrow> int \<Rightarrow> int \<Rightarrow> block_pool \<Rightarrow> block_pool result" where
  "emit_partial_stored sha256 r h ntok gid p =
    rbind (get_partial_block_parent_hash_and_start p r ntok) (\<lambda>(parent, start).
    rbind (generate_block_hash_extra_keys sha256 r start ntok (if start > 0 then -1 else 0)) (\<lambda>(keys, _, _).
      Inr (p\<lparr>kv_event_queue := kv_event_queue p @ [BlockStored
        \<lparr>ev_block_hashes = [maybe_convert_block_hash (use_int_block_hashes p) h],
         ev_parent_block_hash = map_option (maybe_convert_block_hash (use_int_block_hashes p)) parent,
         ev_token_ids = py_slice (all_token_ids r) start ntok,
         ev_block_size = ntok - start,
         ev_lora_id = map_option lora_int_id (rq_lora_request r),
         ev_lora_name = map_option lora_name (rq_lora_request r),
         ev_extra_keys = Some [keys],
         ev_group_idx = gid\<rparr>]\<rparr>)))"

definition cache_partial_block ::
  "(bytes \<Rightarrow> bytes) \<Rightarrow> request \<Rightarrow> kv_ref \<Rightarrow> int \<Rightarrow> int \<Rightarrow> int \<Rightarrow> block_pool \<Rightarrow> (bytes option \<times> block_pool) result" where
  "cache_partial_block sha256 r b ntok gid bs p =
    (if is_null (blk p b) then Inr (None, p)
     else py_assert (bs > hash_block_size p)
      (py_assert (bs mod hash_block_size p = 0)
      (py_assert (ntok mod bs \<noteq> 0)
      (rbind (get_partial_block_hash p r ntok) (\<lambda>h.
       let nht = ntok div hash_block_size p * hash_block_size p in
       rbind (make_block_hash_with_group_id h gid) (\<lambda>key.
       let already_cached = (block_hash (blk p b) = Some key \<or>
             bm_contain (cached_block_hash_to_block p) key (block_id b));
           p = (if \<not> already_cached \<and> block_hash (blk p b) \<noteq> None \<and>
                   (case block_hash_num_tokens (blk p b) of None \<Rightarrow> False | Some t \<Rightarrow> t < nht)
                then let (removed, p) = remove_cached_block_hashes b p in emit_block_removed_events removed p
                else p)
       in rbind (insert_block_hash key b (Some nht) p) (\<lambda>p.
          rbind (if enable_kv_cache_events p \<and> \<not> already_cached then emit_partial_stored sha256 r h ntok gid p else Inr p) (\<lambda>p.
            Inr (Some key, p)))))))))"

section \<open>Invariants\<close>

text \<open>The blocks a pool hands out: all of its blocks but the null block.\<close>

definition in_pool :: "block_pool \<Rightarrow> kv_ref \<Rightarrow> bool" where
  "in_pool p b \<longleftrightarrow> (\<exists>i. b = Blk i \<and> 0 < i \<and> int i < num_gpu_blocks p)"

text \<open>Allocation: the free list \<open>xs\<close> holds exactly the blocks that nobody references.\<close>

definition alloc_inv :: "block_pool \<Rightarrow> kv_ref list \<Rightarrow> bool" where
  "alloc_inv p xs \<longleftrightarrow>
    num_gpu_blocks p > 0 \<and> null_block p = Blk 0 \<and> is_null (blk p (Blk 0)) \<and>
    fq_inv (free_block_queue p) xs \<and>
    (\<forall>b. in_pool p b \<longrightarrow> 0 \<le> ref_cnt (blk p b) \<and> \<not> is_null (blk p b)) \<and>
    set xs = {b. in_pool p b \<and> ref_cnt (blk p b) = 0}"

text \<open>All the keys under which a block can be found.\<close>

definition keys_of :: "block_pool \<Rightarrow> kv_ref \<Rightarrow> bytes list" where
  "keys_of p b =
    (case block_hash (blk p b) of Some h \<Rightarrow> [h] | None \<Rightarrow> []) @
    (case cached_block_hashes_by_block p (block_id b) of Some l \<Rightarrow> l | None \<Rightarrow> [])"

text \<open>Caching: the index and the keys recorded in the blocks say the same, and only
  blocks of the pool have keys.\<close>

definition cache_inv :: "block_pool \<Rightarrow> bool" where
  "cache_inv p \<longleftrightarrow>
    bm_inv (cached_block_hash_to_block p) \<and>
    (\<forall>key b. b \<in> set (bm_blocks (cached_block_hash_to_block p) key) \<longleftrightarrow> in_pool p b \<and> key \<in> set (keys_of p b)) \<and>
    (\<forall>b. in_pool p b \<longrightarrow> distinct (keys_of p b) \<and>
      (block_hash (blk p b) = None \<longrightarrow> block_hash_num_tokens (blk p b) = None \<and> keys_of p b = [])) \<and>
    (\<forall>i. \<not> in_pool p (Blk i) \<longrightarrow> block_hash (blk p (Blk i)) = None) \<and>
    (\<forall>i l. cached_block_hashes_by_block p i = Some l \<longrightarrow> (\<exists>b. in_pool p b \<and> block_id b = i))"

definition pool_inv :: "block_pool \<Rightarrow> kv_ref list \<Rightarrow> bool" where
  "pool_inv p xs \<longleftrightarrow> alloc_inv p xs \<and> cache_inv p"

text \<open>What an operation on cache metadata leaves alone, and what an operation on
  references leaves alone.\<close>

definition pool_config :: "block_pool \<Rightarrow> int \<times> bool \<times> int \<times> kv_ref \<times> bool \<times> bool" where
  "pool_config p = (num_gpu_blocks p, enable_caching p, hash_block_size p, null_block p,
     enable_kv_cache_events p, use_int_block_hashes p)"

definition same_alloc :: "block_pool \<Rightarrow> block_pool \<Rightarrow> bool" where
  "same_alloc p p' \<longleftrightarrow> pool_config p' = pool_config p \<and>
    num_free_blocks (free_block_queue p') = num_free_blocks (free_block_queue p) \<and>
    (\<forall>b. ref_cnt (blk p' b) = ref_cnt (blk p b) \<and> is_null (blk p' b) = is_null (blk p b) \<and>
      next_free_block (blk p' b) = next_free_block (blk p b) \<and> prev_free_block (blk p' b) = prev_free_block (blk p b))"

definition same_cache :: "block_pool \<Rightarrow> block_pool \<Rightarrow> bool" where
  "same_cache p p' \<longleftrightarrow> pool_config p' = pool_config p \<and>
    cached_block_hash_to_block p' = cached_block_hash_to_block p \<and>
    cached_block_hashes_by_block p' = cached_block_hashes_by_block p \<and>
    (\<forall>b. block_hash (blk p' b) = block_hash (blk p b) \<and>
      block_hash_num_tokens (blk p' b) = block_hash_num_tokens (blk p b))"

named_theorems pool_simps

lemma same_alloc_refl [simp]: "same_alloc p p"
  by (simp add: same_alloc_def)

lemma same_alloc_trans [trans]: "same_alloc p p' \<Longrightarrow> same_alloc p' p'' \<Longrightarrow> same_alloc p p''"
  by (simp add: same_alloc_def)

lemma same_cache_refl [simp]: "same_cache p p"
  by (simp add: same_cache_def)

lemma same_cache_trans [trans]: "same_cache p p' \<Longrightarrow> same_cache p' p'' \<Longrightarrow> same_cache p p''"
  by (simp add: same_cache_def)

lemma in_pool_config: "pool_config p' = pool_config p \<Longrightarrow> in_pool p' b \<longleftrightarrow> in_pool p b"
  by (simp add: pool_config_def in_pool_def)

lemma alloc_inv_same:
  assumes "same_alloc p p'" "alloc_inv p xs"
  shows "alloc_inv p' xs"
proof -
  have c: "pool_config p' = pool_config p" using assms(1) by (simp add: same_alloc_def)
  have "fq_inv (free_block_queue p') xs"
    by (rule fq_inv_payload_cong [of "free_block_queue p"])
      (use assms in \<open>simp_all add: same_alloc_def alloc_inv_def blk_def\<close>)
  then show ?thesis using assms in_pool_config [OF c] c
    by (simp add: alloc_inv_def same_alloc_def pool_config_def)
qed

lemma keys_of_same: "same_cache p p' \<Longrightarrow> keys_of p' b = keys_of p b"
  by (simp add: same_cache_def keys_of_def)

lemma cache_inv_same:
  assumes "same_cache p p'" "cache_inv p"
  shows "cache_inv p'"
proof -
  have c: "pool_config p' = pool_config p" using assms(1) by (simp add: same_cache_def)
  have k: "keys_of p' b = keys_of p b" for b using keys_of_same assms(1) .
  show ?thesis using assms unfolding cache_inv_def in_pool_config [OF c] k by (simp add: same_cache_def)
qed

lemma blk_upd_blk [simp]: "blk (upd_blk b f p) x = (if x = b then f (blk p b) else blk p x)"
  by (simp add: blk_def upd_blk_def)

lemma upd_blk_fields [simp]:
  "pool_config (upd_blk b f p) = pool_config p"
  "cached_block_hash_to_block (upd_blk b f p) = cached_block_hash_to_block p"
  "cached_block_hashes_by_block (upd_blk b f p) = cached_block_hashes_by_block p"
  "num_free_blocks (free_block_queue (upd_blk b f p)) = num_free_blocks (free_block_queue p)"
  "kv_event_queue (upd_blk b f p) = kv_event_queue p"
  by (simp_all add: upd_blk_def pool_config_def)

lemma pool_config_updates [simp]:
  "pool_config (p\<lparr>cached_block_hash_to_block := m\<rparr>) = pool_config p"
  "pool_config (p\<lparr>cached_block_hashes_by_block := c\<rparr>) = pool_config p"
  "pool_config (p\<lparr>kv_event_queue := ev\<rparr>) = pool_config p"
  "pool_config (p\<lparr>free_block_queue := q\<rparr>) = pool_config p"
  by (simp_all add: pool_config_def)

lemma blk_updates [simp]:
  "blk (p\<lparr>cached_block_hash_to_block := m\<rparr>) = blk p"
  "blk (p\<lparr>cached_block_hashes_by_block := c\<rparr>) = blk p"
  "blk (p\<lparr>kv_event_queue := ev\<rparr>) = blk p"
  "blk (p\<lparr>free_block_queue := q\<rparr>) = nodes q"
  by (simp_all add: blk_def fun_eq_iff)

lemma in_pool_updates [simp]:
  "in_pool (p\<lparr>cached_block_hash_to_block := m\<rparr>) = in_pool p"
  "in_pool (p\<lparr>cached_block_hashes_by_block := c\<rparr>) = in_pool p"
  "in_pool (p\<lparr>kv_event_queue := ev\<rparr>) = in_pool p"
  "in_pool (p\<lparr>free_block_queue := q\<rparr>) = in_pool p"
  "in_pool (upd_blk b f p) = in_pool p"
  by (simp_all add: in_pool_def upd_blk_def fun_eq_iff)

lemma block_id_inj: "in_pool p b \<Longrightarrow> in_pool p b' \<Longrightarrow> block_id b = block_id b' \<longleftrightarrow> b = b'"
  by (auto simp: in_pool_def)

lemma emit_events_same:
  "same_alloc p (emit_block_removed_events ks p)" "same_cache p (emit_block_removed_events ks p)"
  by (auto simp: emit_block_removed_events_def same_alloc_def same_cache_def)

lemma cache_invD:
  assumes "cache_inv p"
  shows "bm_inv (cached_block_hash_to_block p)"
    "b \<in> set (bm_blocks (cached_block_hash_to_block p) key) \<longleftrightarrow> in_pool p b \<and> key \<in> set (keys_of p b)"
    "in_pool p b \<Longrightarrow> distinct (keys_of p b)"
    "in_pool p b \<Longrightarrow> block_hash (blk p b) = None \<Longrightarrow> block_hash_num_tokens (blk p b) = None"
    "in_pool p b \<Longrightarrow> block_hash (blk p b) = None \<Longrightarrow> keys_of p b = []"
    "\<not> in_pool p (Blk i) \<Longrightarrow> block_hash (blk p (Blk i)) = None"
    "cached_block_hashes_by_block p j = Some l \<Longrightarrow> \<exists>b. in_pool p b \<and> block_id b = j"
  using assms by (simp_all add: cache_inv_def)

lemma cache_invI:
  assumes "bm_inv (cached_block_hash_to_block p)"
    and "\<And>b key. b \<in> set (bm_blocks (cached_block_hash_to_block p) key) \<longleftrightarrow> in_pool p b \<and> key \<in> set (keys_of p b)"
    and "\<And>b. in_pool p b \<Longrightarrow> distinct (keys_of p b)"
    and "\<And>b. in_pool p b \<Longrightarrow> block_hash (blk p b) = None \<Longrightarrow>
      block_hash_num_tokens (blk p b) = None \<and> keys_of p b = []"
    and "\<And>i. \<not> in_pool p (Blk i) \<Longrightarrow> block_hash (blk p (Blk i)) = None"
    and "\<And>i l. cached_block_hashes_by_block p i = Some l \<Longrightarrow> \<exists>b. in_pool p b \<and> block_id b = i"
  shows "cache_inv p"
  using assms unfolding cache_inv_def by blast

section \<open>Removing the keys of a block\<close>

lemma pop_hashes_eq: "pop_hashes i hs m = bm.pop_all i hs m"
  by (induction hs arbitrary: m) (simp_all add: Let_def split_beta)

lemma remove_hashes_eq:
  "remove_cached_block_hashes b p =
    (let p1 = p\<lparr>cached_block_hashes_by_block := (cached_block_hashes_by_block p)(block_id b := None)\<rparr>;
         r = pop_hashes (block_id b) (keys_of p b) (cached_block_hash_to_block p)
     in if keys_of p b = [] then ([], p1)
        else (fst r, upd_blk b reset_hash (p1\<lparr>cached_block_hash_to_block := snd r\<rparr>)))"
  unfolding remove_cached_block_hashes_def keys_of_def Let_def by (simp add: split_beta)

lemma pop_keys_ok:
  assumes inv: "cache_inv p" and b: "in_pool p b"
  defines "r \<equiv> pop_hashes (block_id b) (keys_of p b) (cached_block_hash_to_block p)"
  shows "fst r = keys_of p b" "bm_inv (snd r)"
    "x \<in> set (bm_blocks (snd r) key) \<longleftrightarrow> x \<noteq> b \<and> in_pool p x \<and> key \<in> set (keys_of p x)"
proof -
  let ?m = "cached_block_hash_to_block p"
  have mi: "bm_inv ?m" and mk: "\<And>key x. x \<in> set (bm_blocks ?m key) \<longleftrightarrow> in_pool p x \<and> key \<in> set (keys_of p x)"
    and dk: "distinct (keys_of p b)" using inv b by (simp_all add: cache_inv_def)
  note P = bm.pop_all_ok [OF mi dk, of "block_id b", folded pop_hashes_eq r_def]
  show "bm_inv (snd r)" using P by blast
  have "fst r = filter (\<lambda>key. \<exists>x \<in> set (bm_blocks ?m key). block_id x = block_id b) (keys_of p b)" using P by blast
  then show "fst r = keys_of p b" using mk b by (auto simp: filter_id_conv)
  have "bm_blocks (snd r) key = (if key \<in> set (keys_of p b)
      then filter (\<lambda>x. block_id x \<noteq> block_id b) (bm_blocks ?m key) else bm_blocks ?m key)" using P by blast
  then show "x \<in> set (bm_blocks (snd r) key) \<longleftrightarrow> x \<noteq> b \<and> in_pool p x \<and> key \<in> set (keys_of p x)"
    using mk b block_id_inj [of p x b] by auto
qed

lemma cache_inv_nil:
  assumes "cache_inv p" "in_pool p b"
  shows "block_hash (blk p b) = None \<longleftrightarrow> keys_of p b = []"
proof
  show "keys_of p b = []" if "block_hash (blk p b) = None" using assms that by (simp add: cache_inv_def)
  show "block_hash (blk p b) = None" if "keys_of p b = []" using that by (simp add: keys_of_def split: option.splits)
qed

lemma remove_hashes_fields:
  assumes inv: "cache_inv p" and b: "in_pool p b"
  defines "p' \<equiv> snd (remove_cached_block_hashes b p)"
  shows "fst (remove_cached_block_hashes b p) = keys_of p b" "same_alloc p p'" "in_pool p' = in_pool p"
    "block_hash (blk p' x) = (if x = b then None else block_hash (blk p x))"
    "block_hash_num_tokens (blk p' x) = (if x = b then None else block_hash_num_tokens (blk p x))"
    "cached_block_hashes_by_block p' = (cached_block_hashes_by_block p)(block_id b := None)"
    "bm_inv (cached_block_hash_to_block p')"
    "y \<in> set (bm_blocks (cached_block_hash_to_block p') key) \<longleftrightarrow> y \<noteq> b \<and> in_pool p y \<and> key \<in> set (keys_of p y)"
proof -
  note P = pop_keys_ok [OF inv b]
  show "fst (remove_cached_block_hashes b p) = keys_of p b" using P(1) by (simp add: remove_hashes_eq Let_def)
  show "same_alloc p p'" by (auto simp: p'_def remove_hashes_eq Let_def same_alloc_def reset_hash_def)
  show "in_pool p' = in_pool p" by (simp add: p'_def remove_hashes_eq Let_def)
  show "block_hash (blk p' x) = (if x = b then None else block_hash (blk p x))"
    using cache_inv_nil [OF inv b] by (auto simp: p'_def remove_hashes_eq Let_def reset_hash_def)
  show "block_hash_num_tokens (blk p' x) = (if x = b then None else block_hash_num_tokens (blk p x))"
    using cache_inv_nil [OF inv b] cache_invD(4) [OF inv b] by (auto simp: p'_def remove_hashes_eq Let_def reset_hash_def)
  show "cached_block_hashes_by_block p' = (cached_block_hashes_by_block p)(block_id b := None)"
    by (simp add: p'_def remove_hashes_eq Let_def)
  show "bm_inv (cached_block_hash_to_block p')"
    using P(2) cache_invD(1) [OF inv] by (simp add: p'_def remove_hashes_eq Let_def)
  show "y \<in> set (bm_blocks (cached_block_hash_to_block p') key) \<longleftrightarrow> y \<noteq> b \<and> in_pool p y \<and> key \<in> set (keys_of p y)"
  proof (cases "keys_of p b = []")
    case True
    then show ?thesis using cache_invD(2) [OF inv, of y key] by (auto simp: p'_def remove_hashes_eq Let_def)
  qed (simp add: p'_def remove_hashes_eq Let_def P(3))
qed

lemma in_pool_id: "in_pool p b \<Longrightarrow> block_id x = block_id b \<Longrightarrow> x = b"
  by (cases x) (auto simp: in_pool_def)

lemma remove_hashes_ok:
  assumes inv: "cache_inv p" and b: "in_pool p b"
  defines "p' \<equiv> snd (remove_cached_block_hashes b p)"
  shows "keys_of p' x = (if x = b then [] else keys_of p x)" "cache_inv p'"
proof -
  note F = remove_hashes_fields [OF inv b, folded p'_def]
  show kx: "keys_of p' x = (if x = b then [] else keys_of p x)" for x
    using in_pool_id [OF b, of x] by (auto simp: keys_of_def F(4,6))
  show "cache_inv p'"
  proof (rule cache_invI, unfold F(3))
    show "bm_inv (cached_block_hash_to_block p')" by (rule F(7))
    show "x \<in> set (bm_blocks (cached_block_hash_to_block p') key) \<longleftrightarrow> in_pool p x \<and> key \<in> set (keys_of p' x)" for key x
      by (auto simp: F(8) kx)
    show "distinct (keys_of p' x)" if "in_pool p x" for x using cache_invD(3) [OF inv that] by (simp add: kx)
    show "block_hash_num_tokens (blk p' x) = None \<and> keys_of p' x = []"
      if "in_pool p x" "block_hash (blk p' x) = None" for x
      using cache_invD(4,5) [OF inv that(1)] that(2) by (simp add: kx F(4,5) split: if_splits)
    show "block_hash (blk p' (Blk i)) = None" if "\<not> in_pool p (Blk i)" for i
      using cache_invD(6) [OF inv that] by (simp add: F(4))
    show "\<exists>x. in_pool p x \<and> block_id x = i" if "cached_block_hashes_by_block p' i = Some l" for i l
      using cache_invD(7) [OF inv, of i] that by (auto simp: F(6) split: if_splits)
  qed
qed

lemma keys_of_outside: "cache_inv p \<Longrightarrow> \<not> in_pool p (Blk i) \<Longrightarrow> keys_of p (Blk i) = []"
  using cache_invD(6) [of p i] cache_invD(7) [of p "int i"] in_pool_id [of p _ "Blk i"]
  by (fastforce simp: keys_of_def split: option.splits)

lemma maybe_evict_ok:
  assumes inv: "cache_inv p" and b: "in_pool p b"
  defines "p' \<equiv> snd (maybe_evict_cached_block b p)"
  shows "fst (maybe_evict_cached_block b p) \<longleftrightarrow> keys_of p b \<noteq> []" "same_alloc p p'" "cache_inv p'"
    "keys_of p' x = (if x = b then [] else keys_of p x)"
proof -
  let ?r = "remove_cached_block_hashes b p"
  have e: "maybe_evict_cached_block b p =
      (keys_of p b \<noteq> [], if keys_of p b = [] then snd ?r else emit_block_removed_events (fst ?r) (snd ?r))"
    using remove_hashes_fields(1) [OF inv b] by (simp add: maybe_evict_cached_block_def split_beta)
  have s: "same_cache (snd ?r) p'" "same_alloc (snd ?r) p'" using emit_events_same by (simp_all add: p'_def e)
  show "fst (maybe_evict_cached_block b p) \<longleftrightarrow> keys_of p b \<noteq> []" by (simp add: e)
  show "same_alloc p p'" using remove_hashes_fields(2) [OF inv b] s(2) by (rule same_alloc_trans)
  show "cache_inv p'" using s(1) remove_hashes_ok(2) [OF inv b] by (rule cache_inv_same)
  show "keys_of p' x = (if x = b then [] else keys_of p x)"
    using keys_of_same [OF s(1)] remove_hashes_ok(1) [OF inv b] by simp
qed

lemma maybe_evict_outside:
  assumes "cache_inv p" "\<not> in_pool p (Blk i)"
  shows "maybe_evict_cached_block (Blk i) p = (False, p)"
proof -
  have "cached_block_hashes_by_block p (int i) = None"
    using cache_invD(7) [OF assms(1), of "int i"] in_pool_id [of p _ "Blk i"] assms(2)
    by (metis block_id.simps(1) not_None_eq)
  then have "(cached_block_hashes_by_block p)(int i := None) = cached_block_hashes_by_block p" by (simp add: fun_upd_idem)
  then show ?thesis
    using keys_of_outside [OF assms] by (simp add: maybe_evict_cached_block_def remove_hashes_eq Let_def)
qed

section \<open>Adding a key to a block\<close>

lemma contain_iff:
  assumes "cache_inv p" "in_pool p b"
  shows "bm_contain (cached_block_hash_to_block p) key (block_id b) \<longleftrightarrow> key \<in> set (keys_of p b)"
proof -
  have "block_id b \<in> block_id ` set (bm_blocks (cached_block_hash_to_block p) key) \<longleftrightarrow>
      b \<in> set (bm_blocks (cached_block_hash_to_block p) key)"
    using in_pool_id [OF assms(2)] by force
  then show ?thesis using bm_contain_ok [OF cache_invD(1)] cache_invD(2) assms by simp
qed

lemma insert_hash_cases:
  assumes inv: "cache_inv p" and b: "in_pool p b" and new: "key \<notin> set (keys_of p b)"
  shows "\<exists>p'. insert_block_hash key b ntok p = Inr p' \<and> same_alloc p p' \<and> in_pool p' = in_pool p \<and>
    cached_block_hash_to_block p' = bm_insert key b (cached_block_hash_to_block p) \<and>
    (\<forall>x. keys_of p' x = (if x = b then keys_of p b @ [key] else keys_of p x)) \<and>
    (\<forall>x. block_hash (blk p' x) = None \<longleftrightarrow> x \<noteq> b \<and> block_hash (blk p x) = None) \<and>
    (\<forall>x. x \<noteq> b \<longrightarrow> block_hash_num_tokens (blk p' x) = block_hash_num_tokens (blk p x)) \<and>
    (\<forall>i. i \<noteq> block_id b \<longrightarrow> cached_block_hashes_by_block p' i = cached_block_hashes_by_block p i)"
proof -
  have nc: "\<not> bm_contain (cached_block_hash_to_block p) key (block_id b)" using contain_iff [OF inv b] new by simp
  have nk: "block_hash (blk p b) \<noteq> Some key" using new by (auto simp: keys_of_def)
  show ?thesis
  proof (cases "block_hash (blk p b)")
    case None
    have k0: "keys_of p b = []" using cache_invD(5) [OF inv b None] .
    have t0: "block_hash_num_tokens (blk p b) = None" using cache_invD(4) [OF inv b None] .
    let ?p = "(upd_blk b (\<lambda>_. (blk p b)\<lparr>block_hash := Some key, block_hash_num_tokens := ntok\<rparr>) p)
      \<lparr>cached_block_hash_to_block := bm_insert key b (cached_block_hash_to_block p)\<rparr>"
    have "insert_block_hash key b ntok p = Inr ?p"
      using None nc nk t0 by (simp add: insert_block_hash_def set_block_hash_def)
    moreover have "keys_of ?p x = (if x = b then keys_of p b @ [key] else keys_of p x)" for x
      using k0 None by (auto simp: keys_of_def)
    ultimately show ?thesis by (intro exI [of _ ?p]) (auto simp: same_alloc_def)
  next
    case (Some h)
    let ?l = "case cached_block_hashes_by_block p (block_id b) of Some l \<Rightarrow> l | None \<Rightarrow> []"
    have nl: "key \<notin> set ?l" using new by (simp add: keys_of_def)
    let ?p = "p\<lparr>cached_block_hashes_by_block := (cached_block_hashes_by_block p)(block_id b \<mapsto> ?l @ [key]),
        cached_block_hash_to_block := bm_insert key b (cached_block_hash_to_block p)\<rparr>"
    have "insert_block_hash key b ntok p = Inr ?p"
      using Some nc nk nl
      by (cases "cached_block_hashes_by_block p (block_id b)") (simp_all add: insert_block_hash_def Let_def)
    moreover have "keys_of ?p x = (if x = b then keys_of p b @ [key] else keys_of p x)" for x
      using in_pool_id [OF b, of x] by (auto simp: keys_of_def)
    ultimately show ?thesis using Some by (intro exI [of _ ?p]) (auto simp: same_alloc_def)
  qed
qed

lemma insert_hash_ok:
  assumes inv: "cache_inv p" and b: "in_pool p b"
  shows "\<exists>p'. insert_block_hash key b ntok p = Inr p' \<and> same_alloc p p' \<and> cache_inv p' \<and>
    (\<forall>x. keys_of p' x = (if x = b \<and> key \<notin> set (keys_of p b) then keys_of p b @ [key] else keys_of p x))"
proof (cases "key \<in> set (keys_of p b)")
  case True
  then have "insert_block_hash key b ntok p = Inr p"
    using contain_iff [OF inv b] by (simp add: insert_block_hash_def)
  then show ?thesis using True inv by auto
next
  case False
  obtain p' where p': "insert_block_hash key b ntok p = Inr p'" "same_alloc p p'" "in_pool p' = in_pool p"
    "cached_block_hash_to_block p' = bm_insert key b (cached_block_hash_to_block p)"
    "\<And>x. keys_of p' x = (if x = b then keys_of p b @ [key] else keys_of p x)"
    "\<And>x. block_hash (blk p' x) = None \<longleftrightarrow> x \<noteq> b \<and> block_hash (blk p x) = None"
    "\<And>x. x \<noteq> b \<Longrightarrow> block_hash_num_tokens (blk p' x) = block_hash_num_tokens (blk p x)"
    "\<And>i. i \<noteq> block_id b \<Longrightarrow> cached_block_hashes_by_block p' i = cached_block_hashes_by_block p i"
    using insert_hash_cases [OF inv b False] by blast
  have fresh: "block_id b \<notin> block_id ` set (bm_blocks (cached_block_hash_to_block p) key)"
    using False cache_invD(2) [OF inv] in_pool_id [OF b] by force
  have "cache_inv p'"
  proof (rule cache_invI, unfold p'(3))
    show "bm_inv (cached_block_hash_to_block p')"
      unfolding p'(4) by (rule bm.inv_ins [OF cache_invD(1) [OF inv] fresh])
    show "x \<in> set (bm_blocks (cached_block_hash_to_block p') k) \<longleftrightarrow> in_pool p x \<and> k \<in> set (keys_of p' x)" for x k
      unfolding p'(4) bm.vals_ins [OF cache_invD(1) [OF inv] fresh] p'(5)
      using b cache_invD(2) [OF inv, of x] by auto
    show "distinct (keys_of p' x)" if "in_pool p x" for x
      using cache_invD(3) [OF inv that] cache_invD(3) [OF inv b] False by (simp add: p'(5))
    show "block_hash_num_tokens (blk p' x) = None \<and> keys_of p' x = []"
      if "in_pool p x" "block_hash (blk p' x) = None" for x
      using that cache_invD(4,5) [OF inv that(1)] p'(7) [of x] by (simp add: p'(5,6))
    show "block_hash (blk p' (Blk i)) = None" if "\<not> in_pool p (Blk i)" for i
      using that b cache_invD(6) [OF inv that] by (auto simp: p'(6))
    show "\<exists>x. in_pool p x \<and> block_id x = i" if "cached_block_hashes_by_block p' i = Some l" for i l
      using that b cache_invD(7) [OF inv, of i l] p'(8) [of i] by (cases "i = block_id b") auto
  qed
  then show ?thesis using p'(1,2,5) False by (intro exI [of _ p']) auto
qed


section \<open>Changing reference counts\<close>

text \<open>Like \<open>same_alloc\<close>, with the reference counts changed by \<open>d\<close>.\<close>

definition adj :: "block_pool \<Rightarrow> (kv_ref \<Rightarrow> int) \<Rightarrow> block_pool \<Rightarrow> bool" where
  "adj p d p' \<longleftrightarrow> pool_config p' = pool_config p \<and>
    num_free_blocks (free_block_queue p') = num_free_blocks (free_block_queue p) \<and>
    (\<forall>b. ref_cnt (blk p' b) = ref_cnt (blk p b) + d b \<and> is_null (blk p' b) = is_null (blk p b) \<and>
      next_free_block (blk p' b) = next_free_block (blk p b) \<and> prev_free_block (blk p' b) = prev_free_block (blk p b))"

lemma adj_zero: "adj p (\<lambda>_. 0) p' \<longleftrightarrow> same_alloc p p'"
  by (simp add: adj_def same_alloc_def)

lemma adj_trans: "adj p d p' \<Longrightarrow> adj p' e p'' \<Longrightarrow> adj p (\<lambda>b. d b + e b) p''"
  by (simp add: adj_def)

lemma adj_upd_ref: "adj p (\<lambda>x. if x = b then k else 0) (upd_blk b (ref_cnt_update (\<lambda>n. n + k)) p)"
  by (simp add: adj_def)

lemma same_cache_upd_ref: "same_cache p (upd_blk b (ref_cnt_update f) p)"
  by (simp add: same_cache_def)

lemma same_cache_queue:
  "payload q = payload (free_block_queue p) \<Longrightarrow> same_cache p (p\<lparr>free_block_queue := q\<rparr>)"
  by (simp add: same_cache_def payload_def fun_eq_iff blk_def)

lemma in_pool_adj: "adj p d p' \<Longrightarrow> in_pool p' b \<longleftrightarrow> in_pool p b"
  by (rule in_pool_config) (simp add: adj_def)

lemma in_pool_is_blk: "in_pool p b \<Longrightarrow> is_blk b"
  by (auto simp: in_pool_def)

lemma alloc_invD:
  assumes "alloc_inv p xs"
  shows "num_gpu_blocks p > 0" "null_block p = Blk 0" "is_null (blk p (Blk 0))" "fq_inv (free_block_queue p) xs"
    "in_pool p b \<Longrightarrow> 0 \<le> ref_cnt (blk p b)" "in_pool p b \<Longrightarrow> \<not> is_null (blk p b)"
    "b \<in> set xs \<longleftrightarrow> in_pool p b \<and> ref_cnt (blk p b) = 0" "distinct xs"
    "get_num_free_blocks p = int (length xs)"
  using assms by (auto simp: alloc_inv_def fq_inv_def get_num_free_blocks_def)

lemma fq_inv_adj:
  assumes "adj p d p'" "fq_inv (free_block_queue p) xs"
  shows "fq_inv (free_block_queue p') xs"
  by (rule fq_inv_payload_cong [OF assms(2)]) (use assms(1) in \<open>simp_all add: adj_def blk_def\<close>)

text \<open>The invariant after the queue was replaced and the counts were changed.\<close>

lemma alloc_inv_change:
  assumes inv: "alloc_inv p xs" and cfg: "pool_config p' = pool_config p"
    and q: "fq_inv (free_block_queue p') ys"
    and n: "\<And>b. is_null (blk p' b) = is_null (blk p b)"
    and r: "\<And>b. in_pool p b \<Longrightarrow> 0 \<le> ref_cnt (blk p' b)"
    and f: "set ys = {b. in_pool p b \<and> ref_cnt (blk p' b) = 0}"
  shows "alloc_inv p' ys"
  using inv cfg q n r f in_pool_config [OF cfg] by (auto simp: alloc_inv_def pool_config_def)

section \<open>Allocation\<close>

lemma alloc_one_ok:
  assumes inv: "cache_inv p" and b: "in_pool p b" and r: "ref_cnt (blk p b) = 0"
  shows "\<exists>p'. alloc_one b p = Inr p' \<and> cache_inv p' \<and> adj p (\<lambda>x. if x = b then 1 else 0) p' \<and>
    (\<forall>x. keys_of p' x = (if enable_caching p \<and> x = b then [] else keys_of p x))"
proof -
  let ?p = "if enable_caching p then snd (maybe_evict_cached_block b p) else p"
  let ?p' = "upd_blk b (ref_cnt_update (\<lambda>n. n + 1)) ?p"
  have s: "same_alloc p ?p" "cache_inv ?p"
    "\<And>x. keys_of ?p x = (if enable_caching p \<and> x = b then [] else keys_of p x)"
    using inv maybe_evict_ok [OF inv b] by auto
  have "alloc_one b p = Inr ?p'" using r s(1) by (simp add: alloc_one_def Let_def same_alloc_def)
  moreover have "cache_inv ?p'" using same_cache_upd_ref s(2) by (rule cache_inv_same)
  moreover have "adj p (\<lambda>x. if x = b then 1 else 0) ?p'"
    using adj_trans [OF s(1) [folded adj_zero] adj_upd_ref] by simp
  moreover have "keys_of ?p' x = (if enable_caching p \<and> x = b then [] else keys_of p x)" for x
    using keys_of_same [OF same_cache_upd_ref] s(3) by simp
  ultimately show ?thesis by blast
qed

lemma adj_fields:
  assumes "adj p d p'"
  shows "enable_caching p' = enable_caching p" "ref_cnt (blk p' b) = ref_cnt (blk p b) + d b"
    "is_null (blk p' b) = is_null (blk p b)" "pool_config p' = pool_config p"
  using assms by (simp_all add: adj_def pool_config_def)

lemma alloc_loop_ok:
  assumes "cache_inv p" "distinct bs" "\<And>b. b \<in> set bs \<Longrightarrow> in_pool p b \<and> ref_cnt (blk p b) = 0"
  shows "\<exists>p'. rfold alloc_one bs p = Inr p' \<and> cache_inv p' \<and> adj p (\<lambda>x. of_bool (x \<in> set bs)) p' \<and>
    (\<forall>x. keys_of p' x = (if enable_caching p \<and> x \<in> set bs then [] else keys_of p x))"
  using assms
proof (induction bs arbitrary: p)
  case Nil
  then show ?case by (simp add: adj_zero)
next
  case (Cons b bs)
  obtain p1 where p1: "alloc_one b p = Inr p1" "cache_inv p1" "adj p (\<lambda>x. if x = b then 1 else 0) p1"
    "\<And>x. keys_of p1 x = (if enable_caching p \<and> x = b then [] else keys_of p x)"
    using alloc_one_ok [of p b] Cons.prems by auto
  have pre: "in_pool p1 x \<and> ref_cnt (blk p1 x) = 0" if "x \<in> set bs" for x
    using that Cons.prems(2,3) adj_fields(2) [OF p1(3), of x] in_pool_adj [OF p1(3), of x] by auto
  obtain p2 where p2: "rfold alloc_one bs p1 = Inr p2" "cache_inv p2" "adj p1 (\<lambda>x. of_bool (x \<in> set bs)) p2"
    "\<And>x. keys_of p2 x = (if enable_caching p1 \<and> x \<in> set bs then [] else keys_of p1 x)"
    using Cons.IH [OF p1(2) _ pre] Cons.prems(2) by auto
  have "(\<lambda>x. (if x = b then 1 else 0) + of_bool (x \<in> set bs)) = (\<lambda>x. of_bool (x \<in> set (b # bs)) :: int)"
    using Cons.prems(2) by auto
  then have A: "adj p (\<lambda>x. of_bool (x \<in> set (b # bs))) p2" using adj_trans [OF p1(3) p2(3)] by simp
  have K: "keys_of p2 x = (if enable_caching p \<and> x \<in> set (b # bs) then [] else keys_of p x)" for x
    unfolding p2(4) p1(4) adj_fields(1) [OF p1(3)] by auto
  have R: "rfold alloc_one (b # bs) p = Inr p2" using p1(1) p2(1) by simp
  show ?case by (intro exI [of _ p2] conjI allI A K R p2(2))
qed

lemma payload_blk:
  "payload q = payload (free_block_queue p) \<Longrightarrow> ref_cnt (nodes q b) = ref_cnt (blk p b) \<and> is_null (nodes q b) = is_null (blk p b)"
  by (simp add: payload_def fun_eq_iff blk_def)

lemma get_new_blocks_ok:
  assumes inv: "pool_inv p xs" and n: "n \<le> length xs"
  shows "\<exists>p'. get_new_blocks (int n) p = Inr (take n xs, p') \<and> pool_inv p' (drop n xs) \<and>
    pool_config p' = pool_config p \<and>
    (\<forall>b. ref_cnt (blk p' b) = ref_cnt (blk p b) + of_bool (b \<in> set (take n xs))) \<and>
    (\<forall>b. keys_of p' b = (if enable_caching p \<and> b \<in> set (take n xs) then [] else keys_of p b))"
proof -
  have a: "alloc_inv p xs" and c: "cache_inv p" using inv by (simp_all add: pool_inv_def)
  obtain q where q: "popleft_n (int n) (free_block_queue p) = Inr (take n xs, q)" "fq_inv q (drop n xs)"
    "payload q = payload (free_block_queue p)"
    using fq.pop_n_repr [OF alloc_invD(4) [OF a] n] by blast
  let ?p = "p\<lparr>free_block_queue := q\<rparr>"
  have c': "cache_inv ?p" using same_cache_queue [OF q(3)] c by (rule cache_inv_same)
  have pre: "in_pool ?p b \<and> ref_cnt (blk ?p b) = 0" if "b \<in> set (take n xs)" for b
    using in_set_takeD [OF that] alloc_invD(7) [OF a] payload_blk [OF q(3)] by simp
  have d: "distinct xs" using alloc_invD(8) [OF a] .
  obtain p' where p': "rfold alloc_one (take n xs) ?p = Inr p'" "cache_inv p'"
    "adj ?p (\<lambda>x. of_bool (x \<in> set (take n xs))) p'"
    "\<And>x. keys_of p' x = (if enable_caching ?p \<and> x \<in> set (take n xs) then [] else keys_of ?p x)"
    using alloc_loop_ok [OF c' distinct_take [OF d] pre] by auto
  have r: "ref_cnt (blk p' b) = ref_cnt (blk p b) + of_bool (b \<in> set (take n xs))" for b
    using adj_fields(2) [OF p'(3), of b] payload_blk [OF q(3)] by simp
  have A: "alloc_inv p' (drop n xs)"
  proof (rule alloc_inv_change [OF a])
    show "pool_config p' = pool_config p" using adj_fields(4) [OF p'(3)] by simp
    show "fq_inv (free_block_queue p') (drop n xs)" using fq_inv_adj [OF p'(3)] q(2) by simp
    show "is_null (blk p' b) = is_null (blk p b)" for b
      using adj_fields(3) [OF p'(3)] payload_blk [OF q(3)] by simp
    show "0 \<le> ref_cnt (blk p' b)" if "in_pool p b" for b using r alloc_invD(5) [OF a that] by simp
    have "set xs = set (take n xs) \<union> set (drop n xs)" by (metis append_take_drop_id set_append)
    moreover have "set (take n xs) \<inter> set (drop n xs) = {}"
      using set_take_disj_set_drop_if_distinct [OF d order_refl] .
    ultimately have m: "b \<in> set (drop n xs) \<longleftrightarrow> b \<in> set xs \<and> b \<notin> set (take n xs)" for b by blast
    show "set (drop n xs) = {b. in_pool p b \<and> ref_cnt (blk p' b) = 0}"
    proof (rule set_eqI)
      fix b
      show "b \<in> set (drop n xs) \<longleftrightarrow> b \<in> {b. in_pool p b \<and> ref_cnt (blk p' b) = 0}"
        using alloc_invD(5,7) [OF a, of b] r [of b] in_set_takeD [of b n xs] by (auto simp: m)
    qed
  qed
  have K: "keys_of p' x = (if enable_caching p \<and> x \<in> set (take n xs) then [] else keys_of p x)" for x
    unfolding p'(4) keys_of_same [OF same_cache_queue [OF q(3)]] by simp
  have G: "get_new_blocks (int n) p = Inr (take n xs, p')"
    using n q(1) p'(1) alloc_invD(9) [OF a] by (simp add: get_new_blocks_def)
  have C: "pool_config p' = pool_config p" using adj_fields(4) [OF p'(3)] by simp
  show ?thesis unfolding pool_inv_def by (intro exI [of _ p'] conjI allI A K G C r p'(2))
qed

lemma get_new_blocks_too_many:
  "pool_inv p xs \<Longrightarrow> int (length xs) < n \<Longrightarrow> get_new_blocks n p = Inl ValueError"
  using alloc_invD(9) [of p xs] by (simp add: get_new_blocks_def pool_inv_def)

section \<open>Touching\<close>

text \<open>The blocks a caller may name: blocks of the pool and the null block.\<close>

definition known :: "block_pool \<Rightarrow> kv_ref \<Rightarrow> bool" where
  "known p b \<longleftrightarrow> in_pool p b \<or> b = Blk 0"

lemma known_config: "pool_config p' = pool_config p \<Longrightarrow> known p' b \<longleftrightarrow> known p b"
  unfolding known_def by (rule disj_cong [OF in_pool_config refl])

lemma null_iff: "alloc_inv p xs \<Longrightarrow> known p b \<Longrightarrow> is_null (blk p b) \<longleftrightarrow> \<not> in_pool p b"
  using alloc_invD(3,6) [of p xs] by (auto simp: known_def in_pool_def)

lemma same_cacheD: "same_cache p p' \<Longrightarrow> pool_config p' = pool_config p"
  by (simp add: same_cache_def)

lemma touch_one_ok:
  assumes a: "alloc_inv p xs" and b: "known p b"
  shows "\<exists>p'. touch_one b p = Inr p' \<and> alloc_inv p' (filter (\<lambda>x. x \<noteq> b) xs) \<and> same_cache p p' \<and>
    (\<forall>x. ref_cnt (blk p' x) = ref_cnt (blk p x) + of_bool (x = b))"
proof -
  have d: "distinct xs" using alloc_invD(8) [OF a] .
  obtain q where q: "(if ref_cnt (blk p b) = 0 \<and> \<not> is_null (blk p b)
      then rbind (remove_block b (free_block_queue p)) (\<lambda>q. Inr (p\<lparr>free_block_queue := q\<rparr>)) else Inr p) =
      Inr (p\<lparr>free_block_queue := q\<rparr>)"
    "fq_inv q (filter (\<lambda>x. x \<noteq> b) xs)" "payload q = payload (free_block_queue p)"
  proof (cases "ref_cnt (blk p b) = 0 \<and> \<not> is_null (blk p b)")
    case True
    then have "b \<in> set xs" using alloc_invD(7) [OF a] null_iff [OF a b] by simp
    then obtain q where "remove_block b (free_block_queue p) = Inr q" "fq_inv q (remove1 b xs)"
      "payload q = payload (free_block_queue p)"
      using fq.del_repr [OF alloc_invD(4) [OF a]] by blast
    then show ?thesis using True that distinct_remove1_removeAll [OF d, of b]
      by (simp add: removeAll_filter_not_eq neq_commute)
  next
    case False
    then have "filter (\<lambda>x. x \<noteq> b) xs = xs"
      using alloc_invD(7) [OF a, of b] null_iff [OF a b] by (auto simp: filter_id_conv)
    then show ?thesis using that [of "free_block_queue p"] False alloc_invD(4) [OF a] by auto
  qed
  let ?p = "p\<lparr>free_block_queue := q\<rparr>"
  let ?p' = "upd_blk b (ref_cnt_update (\<lambda>n. n + 1)) ?p"
  have r: "ref_cnt (blk ?p' x) = ref_cnt (blk p x) + of_bool (x = b)" for x
    using payload_blk [OF q(3)] by simp
  have A: "alloc_inv ?p' (filter (\<lambda>x. x \<noteq> b) xs)"
  proof (rule alloc_inv_change [OF a])
    show "pool_config ?p' = pool_config p" by simp
    show "fq_inv (free_block_queue ?p') (filter (\<lambda>x. x \<noteq> b) xs)"
      using fq_inv_adj [OF adj_upd_ref, of ?p] q(2) by simp
    show "is_null (blk ?p' x) = is_null (blk p x)" for x using payload_blk [OF q(3)] by simp
    show "0 \<le> ref_cnt (blk ?p' x)" if "in_pool p x" for x unfolding r using alloc_invD(5) [OF a that] by simp
    show "set (filter (\<lambda>x. x \<noteq> b) xs) = {x. in_pool p x \<and> ref_cnt (blk ?p' x) = 0}"
    proof (rule set_eqI)
      fix x
      show "x \<in> set (filter (\<lambda>x. x \<noteq> b) xs) \<longleftrightarrow> x \<in> {x. in_pool p x \<and> ref_cnt (blk ?p' x) = 0}"
        unfolding r using alloc_invD(5,7) [OF a, of x] by auto
    qed
  qed
  have "same_cache p ?p'" using same_cache_queue [OF q(3)] same_cache_upd_ref by (rule same_cache_trans)
  moreover have "touch_one b p = Inr ?p'" unfolding touch_one_def q(1) by simp
  ultimately show ?thesis using A r by blast
qed

lemma touch_ok:
  assumes "alloc_inv p xs" "\<And>b. b \<in> set bs \<Longrightarrow> known p b"
  shows "\<exists>p'. touch bs p = Inr p' \<and> alloc_inv p' (filter (\<lambda>x. x \<notin> set bs) xs) \<and> same_cache p p' \<and>
    (\<forall>x. ref_cnt (blk p' x) = ref_cnt (blk p x) + int (count_list bs x))"
  using assms unfolding touch_def
proof (induction bs arbitrary: p xs)
  case Nil
  then show ?case by simp
next
  case (Cons b bs)
  obtain p1 where p1: "touch_one b p = Inr p1" "alloc_inv p1 (filter (\<lambda>x. x \<noteq> b) xs)" "same_cache p p1"
    "\<And>x. ref_cnt (blk p1 x) = ref_cnt (blk p x) + of_bool (x = b)"
    using touch_one_ok [OF Cons.prems(1), of b] Cons.prems(2) by auto
  have k: "known p1 x" if "x \<in> set bs" for x
    using Cons.prems(2) [of x] that known_config [OF same_cacheD [OF p1(3)]] by simp
  obtain p2 where p2: "rfold touch_one bs p1 = Inr p2"
    "alloc_inv p2 (filter (\<lambda>x. x \<notin> set bs) (filter (\<lambda>x. x \<noteq> b) xs))" "same_cache p1 p2"
    "\<And>x. ref_cnt (blk p2 x) = ref_cnt (blk p1 x) + int (count_list bs x)"
    using Cons.IH [OF p1(2) k] by auto
  have "filter (\<lambda>x. x \<notin> set bs) (filter (\<lambda>x. x \<noteq> b) xs) = filter (\<lambda>x. x \<notin> set (b # bs)) xs"
    by (simp add: conj_commute)
  then show ?case using p1(1) p2(1,2) same_cache_trans [OF p1(3) p2(3)]
    by (intro exI [of _ p2]) (auto simp: p1(4) p2(4))
qed

section \<open>Freeing\<close>

definition freed :: "block_pool \<Rightarrow> kv_ref list \<Rightarrow> kv_ref \<Rightarrow> bool" where
  "freed p bs b \<longleftrightarrow> ref_cnt (blk p b) = int (count_list bs b) \<and> \<not> is_null (blk p b)"

abbreviation unref :: "kv_ref list \<Rightarrow> block_pool \<Rightarrow> block_pool" where
  "unref \<equiv> fold (\<lambda>b. upd_blk b (ref_cnt_update (\<lambda>n. n - 1)))"

lemma unref_ok: "adj p (\<lambda>b. - int (count_list bs b)) (unref bs p) \<and> same_cache p (unref bs p)"
proof (induction bs arbitrary: p)
  case Nil
  then show ?case by (simp add: adj_zero)
next
  case (Cons b bs)
  let ?p = "upd_blk b (ref_cnt_update (\<lambda>n. n - 1)) p"
  have a: "adj p (\<lambda>x. if x = b then - 1 else 0) ?p" using adj_upd_ref [of p b "-1"] by simp
  have "adj p (\<lambda>x. - int (count_list (b # bs) x)) (unref bs ?p)"
    using adj_trans [OF a conjunct1 [OF Cons]] by (rule back_subst [of "\<lambda>d. adj p d (unref bs ?p)"]) auto
  moreover have "same_cache p (unref bs ?p)" using same_cache_upd_ref conjunct2 [OF Cons] by (rule same_cache_trans)
  ultimately show ?case by simp
qed

lemma free_loop_ok:
  assumes "\<And>b. b \<in> set bs \<Longrightarrow> \<not> is_null (blk p b) \<Longrightarrow> int (count_list bs b) \<le> ref_cnt (blk p b)"
  shows "free_loop bs w wo p =
      (w @ filter (\<lambda>b. freed p bs b \<and> block_hash (blk p b) \<noteq> None) (remdups bs),
       wo @ filter (\<lambda>b. freed p bs b \<and> block_hash (blk p b) = None) (remdups bs), unref bs p)"
  using assms
proof (induction bs arbitrary: p w wo)
  case Nil
  then show ?case by simp
next
  case (Cons b bs)
  let ?p = "upd_blk b (ref_cnt_update (\<lambda>n. n - 1)) p"
  have pre: "int (count_list bs x) \<le> ref_cnt (blk ?p x)" if "x \<in> set bs" "\<not> is_null (blk ?p x)" for x
    using Cons.prems [of x] that by (auto split: if_splits)
  have f: "freed ?p bs x = freed p (b # bs) x" for x by (auto simp: freed_def)
  have h: "block_hash (blk ?p x) = block_hash (blk p x)" for x by simp
  have IH: "free_loop bs w wo ?p =
      (w @ filter (\<lambda>x. freed p (b # bs) x \<and> block_hash (blk p x) \<noteq> None) (remdups bs),
       wo @ filter (\<lambda>x. freed p (b # bs) x \<and> block_hash (blk p x) = None) (remdups bs), unref bs ?p)" for w wo
    using Cons.IH [OF pre] unfolding f h .
  show ?case
  proof (cases "b \<in> set bs")
    case True
    then have "count_list bs b \<noteq> 0" by (simp add: count_list_0_iff)
    then have "\<not> (ref_cnt (blk ?p b) = 0 \<and> \<not> is_null (blk ?p b))" using pre [OF True] by (cases "is_null (blk ?p b)") auto
    then have "free_loop (b # bs) w wo p = free_loop bs w wo ?p" unfolding free_loop.simps Let_def by (rule if_not_P)
    then show ?thesis using True by (simp add: IH)
  next
    case False
    have e: "ref_cnt (blk ?p b) = 0 \<and> \<not> is_null (blk ?p b) \<longleftrightarrow> freed p (b # bs) b"
      using False by (auto simp: freed_def count_list_0_iff)
    show ?thesis using False unfolding free_loop.simps Let_def e h IH by auto
  qed
qed

lemma free_blocks_ok:
  assumes a: "alloc_inv p xs" and k: "\<And>b. b \<in> set bs \<Longrightarrow> known p b"
    and r: "\<And>b. in_pool p b \<Longrightarrow> int (count_list bs b) \<le> ref_cnt (blk p b)"
  defines "w \<equiv> filter (\<lambda>b. freed p bs b \<and> block_hash (blk p b) \<noteq> None) (remdups bs)"
    and "wo \<equiv> filter (\<lambda>b. freed p bs b \<and> block_hash (blk p b) = None) (remdups bs)"
  shows "\<exists>p'. free_blocks bs p = Inr p' \<and> alloc_inv p' (wo @ xs @ w) \<and> same_cache p p' \<and>
    (\<forall>b. ref_cnt (blk p' b) = ref_cnt (blk p b) - int (count_list bs b))"
proof -
  have fl: "free_loop bs [] [] p = (w, wo, unref bs p)"
    using free_loop_ok [of bs p "[]" "[]"] r k null_iff [OF a] unfolding w_def wo_def by auto
  have U: "adj p (\<lambda>b. - int (count_list bs b)) (unref bs p)" "same_cache p (unref bs p)" using unref_ok by auto
  have fr: "freed p bs b \<longleftrightarrow> in_pool p b \<and> ref_cnt (blk p b) = int (count_list bs b)" if "b \<in> set bs" for b
    using null_iff [OF a k [OF that]] by (auto simp: freed_def)
  have pos: "0 < count_list bs b" if "b \<in> set bs" for b using that by (metis count_list_0_iff gr0I)
  have m: "b \<in> set (wo @ w) \<longleftrightarrow> b \<in> set bs \<and> in_pool p b \<and> ref_cnt (blk p b) = int (count_list bs b)" for b
    using fr [of b] by (auto simp: w_def wo_def)
  have disj: "set wo \<inter> set w = {}" "distinct wo" "distinct w" by (auto simp: w_def wo_def)
  have out: "b \<notin> set xs" if "b \<in> set (wo @ w)" for b
    using that alloc_invD(7) [OF a, of b] pos [of b] unfolding m by auto
  have "list_all is_blk (wo @ w)" using m in_pool_is_blk unfolding list_all_iff by blast
  then have lb: "list_all is_blk wo" "list_all is_blk w" by auto
  have d: "distinct (wo @ xs @ w)" using disj out alloc_invD(8) [OF a] by auto
  obtain q where q: "rbind (prepend_n wo (free_block_queue (unref bs p))) (append_n w) = Inr q"
    "fq_inv q (wo @ xs @ w)" "payload q = payload (free_block_queue (unref bs p))"
    using fq.push_both [OF fq_inv_adj [OF U(1) alloc_invD(4) [OF a]] d lb] by blast
  let ?p' = "(unref bs p)\<lparr>free_block_queue := q\<rparr>"
  have R: "ref_cnt (blk ?p' b) = ref_cnt (blk p b) - int (count_list bs b)" for b
    using payload_blk [OF q(3)] adj_fields(2) [OF U(1)] by simp
  have A: "alloc_inv ?p' (wo @ xs @ w)"
  proof (rule alloc_inv_change [OF a])
    show "pool_config ?p' = pool_config p" using adj_fields(4) [OF U(1)] by simp
    show "fq_inv (free_block_queue ?p') (wo @ xs @ w)" using q(2) by simp
    show "is_null (blk ?p' b) = is_null (blk p b)" for b using payload_blk [OF q(3)] adj_fields(3) [OF U(1)] by simp
    show "0 \<le> ref_cnt (blk ?p' b)" if "in_pool p b" for b unfolding R using r [OF that] by simp
    have "b \<in> set (wo @ xs @ w) \<longleftrightarrow> in_pool p b \<and> ref_cnt (blk p b) = int (count_list bs b)" for b
    proof (cases "b \<in> set bs")
      case True
      then show ?thesis using m [of b] alloc_invD(7) [OF a, of b] pos [OF True] r [of b] by auto
    next
      case False
      then have "b \<notin> set wo" "b \<notin> set w" "count_list bs b = 0" by (auto simp: w_def wo_def)
      then show ?thesis using alloc_invD(7) [OF a, of b] by auto
    qed
    then show "set (wo @ xs @ w) = {b. in_pool p b \<and> ref_cnt (blk ?p' b) = 0}" unfolding R by auto
  qed
  have S: "same_cache p ?p'" using U(2) same_cache_queue [OF q(3)] by (rule same_cache_trans)
  have E: "free_blocks bs p = Inr ?p'"
    using q(1) unfolding free_blocks_def fl by auto
  show ?thesis by (intro exI [of _ ?p'] conjI allI A S E R)
qed

section \<open>Eviction, reset and construction\<close>

lemma known_cases: "alloc_inv p xs \<Longrightarrow> 0 \<le> i \<Longrightarrow> i < num_gpu_blocks p \<Longrightarrow> known p (Blk (nat i))"
  by (cases "i = 0") (auto simp: known_def in_pool_def)

lemma evict_known_ok:
  assumes c: "cache_inv p" and b: "known p b"
  defines "p' \<equiv> snd (maybe_evict_cached_block b p)"
  shows "same_alloc p p' \<and> cache_inv p' \<and> (\<forall>x. in_pool p x \<longrightarrow> keys_of p' x = (if x = b then [] else keys_of p x))"
proof (cases "in_pool p b")
  case True
  then show ?thesis using maybe_evict_ok [OF c True] unfolding p'_def by blast
next
  case False
  then have "p' = p" using b maybe_evict_outside [OF c, of 0] by (simp add: p'_def known_def)
  then show ?thesis using c False by auto
qed

lemma evict_blocks_ok:
  assumes "alloc_inv p xs" "cache_inv p" "\<And>i. i \<in> set ids \<Longrightarrow> 0 \<le> i \<and> i < num_gpu_blocks p"
  shows "\<exists>p'. evict_blocks ids p = Inr p' \<and> same_alloc p p' \<and> cache_inv p' \<and>
    (\<forall>b. in_pool p b \<longrightarrow> keys_of p' b = (if block_id b \<in> set ids then [] else keys_of p b))"
  using assms unfolding evict_blocks_def
proof (induction ids arbitrary: p)
  case Nil
  then show ?case by simp
next
  case (Cons i ids)
  have i: "0 \<le> i" "i < num_gpu_blocks p" using Cons.prems(3) by auto
  let ?b = "Blk (nat i)"
  let ?p = "snd (maybe_evict_cached_block ?b p)"
  note E = evict_known_ok [OF Cons.prems(2) known_cases [OF Cons.prems(1) i]]
  have a: "same_alloc p ?p" and c: "cache_inv ?p"
    and kk: "\<And>x. in_pool p x \<Longrightarrow> keys_of ?p x = (if x = ?b then [] else keys_of p x)" using E by blast+
  have cfg: "pool_config ?p = pool_config p" using a by (simp add: same_alloc_def)
  have ids: "0 \<le> j \<and> j < num_gpu_blocks ?p" if "j \<in> set ids" for j
    using Cons.prems(3) [of j] that cfg by (simp add: pool_config_def)
  obtain p' where p': "rfold (\<lambda>i p. py_assert (i < int (length (pool_blocks p)))
      (rbind (py_index (pool_blocks p) i) (\<lambda>b. Inr (snd (maybe_evict_cached_block b p))))) ids ?p = Inr p'"
    "same_alloc ?p p'" "cache_inv p'"
    "\<And>x. in_pool ?p x \<Longrightarrow> keys_of p' x = (if block_id x \<in> set ids then [] else keys_of ?p x)"
    using Cons.IH [OF alloc_inv_same [OF a Cons.prems(1)] c ids] by auto
  have l: "i < int (length (pool_blocks p))" "py_index (pool_blocks p) i = Inr ?b"
    using i by (simp_all add: pool_blocks_def py_index_def nat_less_iff)
  have K: "keys_of p' x = (if block_id x \<in> set (i # ids) then [] else keys_of p x)" if x: "in_pool p x" for x
  proof -
    have "x = ?b \<longleftrightarrow> block_id x = i" using x i by (auto simp: in_pool_def)
    then show ?thesis using p'(4) [of x] kk [OF x] x in_pool_config [OF cfg, of x] by simp
  qed
  have S: "same_alloc p p'" using a p'(2) by (rule same_alloc_trans)
  show ?case using l p'(1,3) S K by (intro exI [of _ p']) simp
qed

lemma evict_blocks_bad_id:
  assumes "alloc_inv p xs" "cache_inv p" "\<And>i. i \<in> set ids \<Longrightarrow> 0 \<le> i \<and> i < num_gpu_blocks p" "num_gpu_blocks p \<le> j"
  shows "evict_blocks (ids @ j # js) p = Inl AssertionError"
proof -
  obtain p' where p': "evict_blocks ids p = Inr p'" "same_alloc p p'" using evict_blocks_ok [OF assms(1-3)] by blast
  have "num_gpu_blocks p' = num_gpu_blocks p" using p'(2) by (simp add: same_alloc_def pool_config_def)
  then show ?thesis
    using p'(1) assms(4) alloc_invD(1) [OF assms(1)] unfolding evict_blocks_def rfold_append by (simp add: pool_blocks_def py_assert_def)
qed

lemma reset_fold:
  "nodes (free_block_queue (fold (\<lambda>b. upd_blk b reset_hash) bs p)) b =
     (if b \<in> set bs then reset_hash (blk p b) else blk p b)"
  "pool_config (fold (\<lambda>b. upd_blk b reset_hash) bs p) = pool_config p"
  "num_free_blocks (free_block_queue (fold (\<lambda>b. upd_blk b reset_hash) bs p)) = num_free_blocks (free_block_queue p)"
  "cached_block_hash_to_block (fold (\<lambda>b. upd_blk b reset_hash) bs p) = cached_block_hash_to_block p"
  "cached_block_hashes_by_block (fold (\<lambda>b. upd_blk b reset_hash) bs p) = cached_block_hashes_by_block p"
  by (induction bs arbitrary: p) (auto simp: reset_hash_def blk_def [symmetric])

lemma in_pool_blocks: "in_pool p b \<Longrightarrow> b \<in> set (pool_blocks p)"
  by (force simp: in_pool_def pool_blocks_def)

lemma reset_ok:
  assumes a: "alloc_inv p xs" and c: "cache_inv p"
  shows "fst (pool_reset_prefix_cache p) \<longleftrightarrow> int (length xs) = num_gpu_blocks p - 1"
    "same_alloc p (snd (pool_reset_prefix_cache p))" "cache_inv (snd (pool_reset_prefix_cache p))"
    "fst (pool_reset_prefix_cache p) \<Longrightarrow> bm_blocks (cached_block_hash_to_block (snd (pool_reset_prefix_cache p))) key = []"
    "\<not> fst (pool_reset_prefix_cache p) \<Longrightarrow> snd (pool_reset_prefix_cache p) = p"
proof -
  show f: "fst (pool_reset_prefix_cache p) \<longleftrightarrow> int (length xs) = num_gpu_blocks p - 1"
    using alloc_invD(9) [OF a] by (auto simp: pool_reset_prefix_cache_def Let_def)
  show n: "\<not> fst (pool_reset_prefix_cache p) \<Longrightarrow> snd (pool_reset_prefix_cache p) = p"
    by (auto simp: pool_reset_prefix_cache_def Let_def split: if_splits)
  let ?p = "p\<lparr>cached_block_hash_to_block := bm_empty, cached_block_hashes_by_block := (\<lambda>_. None)\<rparr>"
  let ?r = "fold (\<lambda>b. upd_blk b reset_hash) (pool_blocks p) ?p"
  let ?p' = "snd (pool_reset_prefix_cache p)"
  have pb: "pool_blocks ?p = pool_blocks p" by (simp add: pool_blocks_def)
  show "same_alloc p ?p'"
    by (auto simp: pool_reset_prefix_cache_def Let_def pb same_alloc_def blk_def reset_fold reset_hash_def)
  have m: "cached_block_hash_to_block ?p' = bm_empty" "cached_block_hashes_by_block ?p' = (\<lambda>_. None)"
    "pool_config ?p' = pool_config p" "blk ?p' b = (if b \<in> set (pool_blocks p) then reset_hash (blk p b) else blk p b)"
    if "fst (pool_reset_prefix_cache p)" for b
    using that by (auto simp: pool_reset_prefix_cache_def Let_def pb reset_fold blk_def split: if_splits)
  show "fst (pool_reset_prefix_cache p) \<Longrightarrow> bm_blocks (cached_block_hash_to_block ?p') key = []"
    using m(1) by simp
  show "cache_inv ?p'"
  proof (cases "fst (pool_reset_prefix_cache p)")
    case False
    then show ?thesis using n c by simp
  next
    case True
    have h: "block_hash (blk ?p' (Blk i)) = None" "block_hash_num_tokens (blk ?p' (Blk i)) = None" if "in_pool p (Blk i)" for i
      using in_pool_blocks [OF that] by (simp_all add: m(4) [OF True] reset_hash_def)
    have h': "block_hash (blk ?p' (Blk i)) = None" for i
      using h(1) [of i] cache_invD(6) [OF c, of i] by (cases "in_pool p (Blk i)") (auto simp: m(4) [OF True] reset_hash_def)
    have k: "keys_of ?p' (Blk i) = []" for i using h' [of i] by (simp add: keys_of_def m(2) [OF True])
    show ?thesis
    proof (rule cache_invI, unfold in_pool_config [OF m(3) [OF True]])
      show "bm_inv (cached_block_hash_to_block ?p')" by (simp add: m(1) [OF True])
      show "b \<in> set (bm_blocks (cached_block_hash_to_block ?p') key) \<longleftrightarrow> in_pool p b \<and> key \<in> set (keys_of ?p' b)" for b key
        using k by (auto simp: m(1) [OF True] in_pool_def)
      show "distinct (keys_of ?p' b)" if "in_pool p b" for b using k that by (auto simp: in_pool_def)
      show "block_hash_num_tokens (blk ?p' b) = None \<and> keys_of ?p' b = []" if "in_pool p b" for b
        using that h(2) k by (cases b) (auto simp: in_pool_def)
      show "block_hash (blk ?p' (Blk i)) = None" for i using h' .
      show "\<exists>b. in_pool p b \<and> block_id b = i" if "cached_block_hashes_by_block ?p' i = Some l" for i l
        using that by (simp add: m(2) [OF True])
    qed
  qed
qed

lemma pool_init_ok:
  assumes n: "n > 0"
  shows "\<exists>p. pool_init n caching hbs events ui = Inr p \<and> pool_inv p (map Blk [1..<nat n]) \<and>
    pool_config p = (n, caching, hbs, Blk 0, events, ui) \<and> (\<forall>b. keys_of p b = []) \<and> kv_event_queue p = []"
proof -
  let ?bs = "map Blk [0..<nat n]"
  have bs: "?bs = Blk 0 # map Blk [1..<nat n]" using n by (simp add: upt_conv_Cons)
  have d: "distinct ?bs" by (simp add: distinct_map inj_on_def)
  have l: "list_all is_blk ?bs" by (simp add: list_all_iff)
  let ?s = "\<lambda>_ :: kv_ref. new_block"
  have i: "fq_inv (fq_init ?s ?bs) ?bs" by (rule fq_init_ok [OF d l]) (simp add: new_block_def)
  obtain q where q: "popleft (fq_init ?s ?bs) = Inr (Blk 0, q)" "fq_inv q (map Blk [1..<nat n])"
    "payload q = payload (fq_init ?s ?bs)"
    using popleft_ok [OF i [unfolded bs]] unfolding bs by blast
  have pay: "ref_cnt (nodes q (Blk i)) = 0" "block_hash (nodes q (Blk i)) = None"
    "block_hash_num_tokens (nodes q (Blk i)) = None" "is_null (nodes q (Blk i)) = False" for i
    using fun_cong [OF q(3), of "Blk i"] fq_init_links(9) [OF d l, of "Blk i" ?s]
    by (simp_all add: payload_def new_block_def)
  have hd: "block_hash (nodes q b) = None" for b
    using fun_cong [OF q(3), of b] pay by (cases b) (simp_all add: payload_def fq_init_def Let_def new_block_def)
  let ?p = "\<lparr>num_gpu_blocks = n, enable_caching = caching, hash_block_size = hbs,
              free_block_queue = upd (Blk 0) (is_null_update (\<lambda>_. True)) q,
              cached_block_hash_to_block = bm_empty, cached_block_hashes_by_block = (\<lambda>_. None),
              null_block = Blk 0, enable_kv_cache_events = events, kv_event_queue = [],
              use_int_block_hashes = ui\<rparr>"
  have e: "pool_init n caching hbs events ui = Inr ?p" using n q(1) by (simp add: pool_init_def Let_def)
  have f: "fq_inv (free_block_queue ?p) (map Blk [1..<nat n])"
    by (rule fq_inv_payload_cong [OF q(2)]) auto
  have A: "alloc_inv ?p (map Blk [1..<nat n])"
    unfolding alloc_inv_def using n f by (auto simp: in_pool_def blk_def pay image_iff)
  have k: "keys_of ?p b = []" for b using hd by (simp add: keys_of_def blk_def)
  have C: "cache_inv ?p"
    by (rule cache_invI) (auto simp: k blk_def pay in_pool_def)
  show ?thesis using e A C k by (intro exI [of _ ?p]) (simp add: pool_inv_def pool_config_def)
qed

section \<open>Registering blocks in the cache\<close>

text \<open>Dropping the keys a block has, if any, and giving it one new key.\<close>

lemma rekey_ok:
  assumes c: "cache_inv p" and b: "in_pool p b"
    and p1: "p1 = p \<or> p1 = emit_block_removed_events ks (snd (remove_cached_block_hashes b p))"
    and k: "p1 = p \<Longrightarrow> keys_of p b = []"
  shows "\<exists>p'. insert_block_hash key b ntok p1 = Inr p' \<and> same_alloc p p' \<and> cache_inv p' \<and>
    (\<forall>x. keys_of p' x = (if x = b then [key] else keys_of p x))"
proof -
  let ?r = "snd (remove_cached_block_hashes b p)"
  have q: "same_alloc p p1" "cache_inv p1" "keys_of p1 x = (if x = b then [] else keys_of p x)" for x
  proof -
    note E = emit_events_same [of ?r ks]
    note F = remove_hashes_fields(2) [OF c b] remove_hashes_ok [OF c b]
    show "same_alloc p p1" using p1 same_alloc_trans [OF F(1) E(1)] by auto
    show "cache_inv p1" using p1 c cache_inv_same [OF E(2) F(3)] by auto
    show "keys_of p1 x = (if x = b then [] else keys_of p x)"
      using p1 k keys_of_same [OF E(2)] F(2) by auto
  qed
  have b1: "in_pool p1 b" using b in_pool_config [of p1 p b] q(1) by (simp add: same_alloc_def)
  obtain p' where p': "insert_block_hash key b ntok p1 = Inr p'" "same_alloc p1 p'" "cache_inv p'"
    "\<And>x. keys_of p' x = (if x = b \<and> key \<notin> set (keys_of p1 b) then keys_of p1 b @ [key] else keys_of p1 x)"
    using insert_hash_ok [OF q(2) b1, of key ntok] by blast
  have K: "keys_of p' x = (if x = b then [key] else keys_of p x)" for x
    unfolding p'(4) q(3) by simp
  show ?thesis by (intro exI [of _ p'] conjI allI p'(1,3) same_alloc_trans [OF q(1) p'(2)] K)
qed

text \<open>Whether \<^verbatim>\<open>cache_full_blocks\<close> registers the block at position \<open>i\<close> of its slice.\<close>

definition registers :: "block_pool \<Rightarrow> bool list option \<Rightarrow> int \<Rightarrow> kv_ref \<Rightarrow> bool" where
  "registers p bmask i b \<longleftrightarrow> in_pool p b \<and> masked_out bmask i = Inr False"

definition key_at :: "bytes list \<Rightarrow> int \<Rightarrow> int \<Rightarrow> bytes result" where
  "key_at hs gid i = rbind (py_index hs i) (\<lambda>h. make_block_hash_with_group_id h gid)"

lemma cache_one_ok:
  assumes a: "alloc_inv p xs" and c: "cache_inv p" and b: "known p b"
    and r: "cache_one hs nc bs gid bmask (i, b) (p, ext) = Inr (p', ext')"
  shows "same_alloc p p' \<and> cache_inv p' \<and> (\<forall>x. x \<noteq> b \<longrightarrow> keys_of p' x = keys_of p x) \<and>
    (if registers p bmask i b then \<exists>key. key_at hs gid i = Inr key \<and> keys_of p' b = [key] else p' = p)"
proof (cases "registers p bmask i b")
  case False
  then have "p' = p" using r null_iff [OF a b] by (auto simp: cache_one_def registers_def split: if_splits)
  then show ?thesis using False c by simp
next
  case True
  then have ib: "in_pool p b" and nn: "\<not> is_null (blk p b)" "masked_out bmask i = Inr False"
    using null_iff [OF a b] by (auto simp: registers_def)
  let ?r = "remove_cached_block_hashes b p"
  let ?nht = "(nc + i + 1) * bs"
  obtain h key p1 where hk: "py_index hs i = Inr h" "make_block_hash_with_group_id h gid = Inr key"
    and p1: "p1 = p \<and> block_hash (blk p b) = None \<or> p1 = emit_block_removed_events (fst ?r) (snd ?r)"
    and i1: "insert_block_hash key b (Some ?nht) p1 = Inr p'"
    using r nn by (auto simp: cache_one_def Let_def split_beta split: option.splits if_splits)
  have "\<exists>p'. insert_block_hash key b (Some ?nht) p1 = Inr p' \<and> same_alloc p p' \<and> cache_inv p' \<and>
    (\<forall>x. keys_of p' x = (if x = b then [key] else keys_of p x))"
  proof (cases "p1 = emit_block_removed_events (fst ?r) (snd ?r)")
    case True
    show ?thesis using True remove_hashes_ok(1) [OF c ib] keys_of_same [OF emit_events_same(2)]
      by (intro rekey_ok [OF c ib, of p1 "fst ?r"]) (metis, metis)
  next
    case False
    then show ?thesis using p1 cache_invD(5) [OF c ib] by (intro rekey_ok [OF c ib, of p1 "fst ?r"]) auto
  qed
  then show ?thesis using i1 hk True by (auto simp: key_at_def)
qed

lemma registers_config: "pool_config p' = pool_config p \<Longrightarrow> registers p' bmask i b \<longleftrightarrow> registers p bmask i b"
  unfolding registers_def by (rule conj_cong [OF in_pool_config refl])

lemma cache_loop_ok:
  assumes "alloc_inv p xs" "cache_inv p" "\<And>b. b \<in> snd ` set ibs \<Longrightarrow> known p b"
    and "distinct (filter (in_pool p) (map snd ibs))"
    and "rfold (cache_one hs nc bs gid bmask) ibs (p, ext) = Inr (p', ext')"
  shows "same_alloc p p' \<and> cache_inv p' \<and>
    (\<forall>x. (\<forall>(i, b) \<in> set ibs. b = x \<longrightarrow> \<not> registers p bmask i b) \<longrightarrow> keys_of p' x = keys_of p x) \<and>
    (\<forall>(i, b) \<in> set ibs. registers p bmask i b \<longrightarrow> (\<exists>key. key_at hs gid i = Inr key \<and> keys_of p' b = [key]))"
  using assms
proof (induction ibs arbitrary: p ext)
  case Nil
  then show ?case by simp
next
  case (Cons ib ibs)
  obtain i b where ib: "ib = (i, b)" by fastforce
  obtain p1 ext1 where p1: "cache_one hs nc bs gid bmask (i, b) (p, ext) = Inr (p1, ext1)"
    and rest: "rfold (cache_one hs nc bs gid bmask) ibs (p1, ext1) = Inr (p', ext')"
    using Cons.prems(5) ib by auto
  have C: "same_alloc p p1" "cache_inv p1" "\<And>x. x \<noteq> b \<Longrightarrow> keys_of p1 x = keys_of p x"
    "registers p bmask i b \<Longrightarrow> \<exists>key. key_at hs gid i = Inr key \<and> keys_of p1 b = [key]"
    "\<not> registers p bmask i b \<Longrightarrow> p1 = p"
    using cache_one_ok [OF Cons.prems(1,2) _ p1] Cons.prems(3) [of b] ib by (auto split: if_splits)
  have cfg: "pool_config p1 = pool_config p" using C(1) by (simp add: same_alloc_def)
  have R: "registers p1 bmask j x = registers p bmask j x" for j x using registers_config [OF cfg] .
  have ip: "in_pool p1 = in_pool p" using in_pool_config [OF cfg] by blast
  have k: "known p1 y" if "y \<in> snd ` set ibs" for y
    using Cons.prems(3) [of y] that known_config [OF cfg] by auto
  have d: "distinct (filter (in_pool p1) (map snd ibs))" using Cons.prems(4) ib unfolding ip by (simp split: if_splits)
  have IH: "same_alloc p1 p'" "cache_inv p'"
    "\<And>x. (\<And>j y. (j, y) \<in> set ibs \<Longrightarrow> y = x \<Longrightarrow> \<not> registers p bmask j y) \<Longrightarrow> keys_of p' x = keys_of p1 x"
    "\<And>j y. (j, y) \<in> set ibs \<Longrightarrow> registers p bmask j y \<Longrightarrow> \<exists>key. key_at hs gid j = Inr key \<and> keys_of p' y = [key]"
    using Cons.IH [OF alloc_inv_same [OF C(1) Cons.prems(1)] C(2) k d rest] unfolding R by blast+
  have last: "\<exists>key. key_at hs gid i = Inr key \<and> keys_of p' b = [key]" if "registers p bmask i b"
  proof -
    have "in_pool p b" using that by (simp add: registers_def)
    then have "b \<notin> snd ` set ibs" using Cons.prems(4) ib by auto
    then have "keys_of p' b = keys_of p1 b" by (intro IH(3)) force
    then show ?thesis using C(4) [OF that] by simp
  qed
  have other: "keys_of p' x = keys_of p x" if "\<forall>(j, y) \<in> set ((i, b) # ibs). y = x \<longrightarrow> \<not> registers p bmask j y" for x
  proof -
    have "keys_of p' x = keys_of p1 x" using that by (intro IH(3)) auto
    then show ?thesis using C(3,5) that by (cases "x = b") auto
  qed
  show ?case unfolding ib using same_alloc_trans [OF C(1) IH(1)] IH(2) other last IH(4) by auto
qed

lemma set_enumerate: "(j, b) \<in> set (zip (map int [0..<length l]) l) \<longleftrightarrow> (\<exists>k < length l. j = int k \<and> b = l ! k)"
  by (auto simp: in_set_zip) (metis add.left_neutral diff_zero length_upt nth_map nth_upt)

lemma slice_enumerate:
  assumes nc: "0 \<le> nc" and lt: "nc < nf" and nf: "nf \<le> int (length l)"
  shows "(j, b) \<in> set (zip (map int [0..<length (py_slice l nc nf)]) (py_slice l nc nf)) \<longleftrightarrow>
    (\<exists>i. nc \<le> int i \<and> int i < nf \<and> j = int i - nc \<and> b = l ! i)"
proof -
  let ?new = "py_slice l nc nf"
  have sl: "?new = take (nat nf - nat nc) (drop (nat nc) l)" using lt nc by (simp add: py_slice_nat)
  have len: "length ?new = nat (nf - nc)" using lt nc nf by (simp add: sl)
  have nth: "?new ! k = l ! (nat nc + k)" if "k < length ?new" for k using that nc nf lt by (simp add: sl)
  show ?thesis unfolding set_enumerate
  proof
    assume "\<exists>k < length ?new. j = int k \<and> b = ?new ! k"
    then obtain k where "k < nat (nf - nc)" "j = int k" "b = l ! (nat nc + k)" using nth len by auto
    then show "\<exists>i. nc \<le> int i \<and> int i < nf \<and> j = int i - nc \<and> b = l ! i"
      using nc by (intro exI [of _ "nat nc + k"]) auto
  next
    assume "\<exists>i. nc \<le> int i \<and> int i < nf \<and> j = int i - nc \<and> b = l ! i"
    then obtain i where i: "nc \<le> int i" "int i < nf" "j = int i - nc" "b = l ! i" by blast
    then have "i - nat nc < length ?new" using nc len by auto
    then show "\<exists>k < length ?new. j = int k \<and> b = ?new ! k"
      using i nc nth by (intro exI [of _ "i - nat nc"]) auto
  qed
qed

text \<open>Entry \<open>i\<close> of the hashes at block size \<open>bs\<close> is the hash of the prefix of
  \<open>(i + 1) * bs\<close> tokens.\<close>

lemma hashes_at_nth:
  assumes h: "hashes_at p r bs = Inr hashes" and i: "i < length hashes" and bs: "0 < bs" and hbs: "0 < hash_block_size p"
  defines "n \<equiv> (int i + 1) * bs"
  shows "n mod hash_block_size p = 0" "0 < n div hash_block_size p"
    "n div hash_block_size p \<le> int (length (rq_block_hashes r))"
    "hashes ! i = rq_block_hashes r ! nat (n div hash_block_size p - 1)"
proof -
  let ?h = "hash_block_size p"
  have "n mod ?h = 0 \<and> 0 < n div ?h \<and> n div ?h \<le> int (length (rq_block_hashes r)) \<and>
      hashes ! i = rq_block_hashes r ! nat (n div ?h - 1)"
  proof (cases "bs = ?h")
    case True
    then show ?thesis using h i hbs by (simp add: hashes_at_def n_def)
  next
    case False
    define f where "f = bs div ?h"
    let ?v = "\<lparr>hl_block_hashes = rq_block_hashes r, hl_scale_factor = f\<rparr>"
    have m: "bs mod ?h = 0" and hf: "hl_from ?v 0 = Inr hashes"
      using h False by (auto simp: hashes_at_def block_hash_list_with_block_size_def f_def)
    have bf: "bs = f * ?h" using m div_mult_mod_eq [of bs ?h] by (simp add: f_def)
    have f: "0 < f" using bs hbs bf by (simp add: zero_less_mult_iff)
    have hs: "hashes = map (\<lambda>i. rq_block_hashes r ! nat ((i + 1) * f - 1)) [0..hl_len ?v - 1]"
      using hl_from_ok(1) [of ?v] f hf by simp
    have il: "int i < hl_len ?v" using i hs by simp
    have n: "n = (int i + 1) * f * ?h" by (simp add: n_def bf)
    have "n div ?h = (int i + 1) * f" "n mod ?h = 0" using hbs unfolding n by simp_all
    moreover have "0 < (int i + 1) * f" using f by simp
    moreover have "(int i + 1) * f \<le> int (length (rq_block_hashes r))" using hl_from_ok(2) [of ?v "int i"] f il by simp
    moreover have "hashes ! i = rq_block_hashes r ! nat ((int i + 1) * f - 1)" using i il unfolding hs by simp
    ultimately show ?thesis by simp
  qed
  then show "n mod ?h = 0" "0 < n div ?h" "n div ?h \<le> int (length (rq_block_hashes r))"
    "hashes ! i = rq_block_hashes r ! nat (n div ?h - 1)" by blast+
qed

text \<open>Event generation fails only where the extra keys cannot be computed; it changes
  the event queue alone.\<close>

lemma cache_full_blocks_cases:
  assumes r: "cache_full_blocks sha256 r blocks nc nf bs gid bmask p = Inr p'" and lt: "nc < nf"
  shows "\<exists>hashes p1 ext ev. hashes_at p r bs = Inr hashes \<and> nf \<le> int (length hashes) \<and>
    (case bmask of None \<Rightarrow> True | Some m \<Rightarrow> length m = length (py_slice blocks nc nf)) \<and>
    rfold (cache_one (py_from hashes nc) nc bs gid bmask)
      (zip (map int [0..<length (py_slice blocks nc nf)]) (py_slice blocks nc nf)) (p, []) = Inr (p1, ext) \<and>
    (p' = p1 \<or> p' = p1\<lparr>kv_event_queue := ev\<rparr>)"
  using assms unfolding cache_full_blocks_def
  by (auto simp: Let_def split: if_splits prod.splits)

lemma cache_full_blocks_ok:
  assumes a: "alloc_inv p xs" and c: "cache_inv p" and kn: "list_all (known p) blocks"
    and d: "distinct (filter (in_pool p) blocks)" and nc: "0 \<le> nc" and nf: "nf \<le> int (length blocks)"
    and r: "cache_full_blocks sha256 r blocks nc nf bs gid bmask p = Inr p'"
  shows "same_alloc p p'" "cache_inv p'"
    "nc \<le> int i \<Longrightarrow> int i < nf \<Longrightarrow> registers p bmask (int i - nc) (blocks ! i) \<Longrightarrow>
      \<exists>hashes key. hashes_at p r bs = Inr hashes \<and> i < length hashes \<and>
        make_block_hash_with_group_id (hashes ! i) gid = Inr key \<and> keys_of p' (blocks ! i) = [key]"
    "(\<And>i. nc \<le> int i \<Longrightarrow> int i < nf \<Longrightarrow> blocks ! i = x \<Longrightarrow> \<not> registers p bmask (int i - nc) x) \<Longrightarrow>
      keys_of p' x = keys_of p x"
proof -
  let ?new = "py_slice blocks nc nf"
  let ?ibs = "zip (map int [0..<length ?new]) ?new"
  have sl: "?new = take (nat nf - nat nc) (drop (nat nc) blocks)" if "nc < nf"
    using that nc by (simp add: py_slice_nat)
  have len: "length ?new = nat (nf - nc)" if "nc < nf" using that nc nf by (simp add: sl)
  note mem = slice_enumerate [OF nc _ nf]
  have *: "same_alloc p p' \<and> cache_inv p' \<and>
    (\<forall>i. nc \<le> int i \<longrightarrow> int i < nf \<longrightarrow> registers p bmask (int i - nc) (blocks ! i) \<longrightarrow>
      (\<exists>hashes key. hashes_at p r bs = Inr hashes \<and> i < length hashes \<and>
        make_block_hash_with_group_id (hashes ! i) gid = Inr key \<and> keys_of p' (blocks ! i) = [key])) \<and>
    (\<forall>x. (\<forall>i. nc \<le> int i \<longrightarrow> int i < nf \<longrightarrow> blocks ! i = x \<longrightarrow> \<not> registers p bmask (int i - nc) x) \<longrightarrow>
      keys_of p' x = keys_of p x)"
  proof (cases "nc < nf")
    case False
    then show ?thesis using r c by (simp add: cache_full_blocks_def)
  next
    case True
    obtain hashes p1 ext ev where h: "hashes_at p r bs = Inr hashes" "nf \<le> int (length hashes)"
      "rfold (cache_one (py_from hashes nc) nc bs gid bmask) ?ibs (p, []) = Inr (p1, ext)"
      and p1: "p' = p1 \<or> p' = p1\<lparr>kv_event_queue := ev\<rparr>"
      using cache_full_blocks_cases [OF r True] by blast
    have sub: "set ?new \<subseteq> set blocks" using sl [OF True] by (metis in_set_dropD in_set_takeD subsetI)
    have ms: "map snd ?ibs = ?new" by simp
    have df: "distinct (filter (in_pool p) (map snd ?ibs))"
    proof -
      have "blocks = take (nat nc) blocks @ ?new @ drop (nat nf - nat nc) (drop (nat nc) blocks)"
        unfolding sl [OF True] by (simp only: append_take_drop_id)
      then show ?thesis using d unfolding ms by (metis distinct_append filter_append)
    qed
    have kn': "known p b" if "b \<in> snd ` set ?ibs" for b
    proof -
      have "b \<in> set (map snd ?ibs)" using that by (simp only: set_map)
      then show ?thesis unfolding ms using sub kn by (auto simp: list_all_iff)
    qed
    note L = cache_loop_ok [OF a c kn' df h(3)]
    have s: "same_alloc p1 p'" "same_cache p1 p'" using p1 by (auto simp: same_alloc_def same_cache_def)
    have R: "\<exists>hashes key. hashes_at p r bs = Inr hashes \<and> i < length hashes \<and>
        make_block_hash_with_group_id (hashes ! i) gid = Inr key \<and> keys_of p' (blocks ! i) = [key]"
      if i: "nc \<le> int i" "int i < nf" "registers p bmask (int i - nc) (blocks ! i)" for i
    proof -
      have "(int i - nc, blocks ! i) \<in> set ?ibs" using i mem [OF True] by blast
      then obtain key where key: "key_at (py_from hashes nc) gid (int i - nc) = Inr key" "keys_of p1 (blocks ! i) = [key]"
        using L i(3) by blast
      have "py_index (py_from hashes nc) (int i - nc) = Inr (hashes ! i)"
        using i nc h(2) by (simp add: py_index_def nat_diff_distrib)
      then show ?thesis using key h(1,2) i keys_of_same [OF s(2)] by (auto simp: key_at_def)
    qed
    have O: "keys_of p' x = keys_of p x"
      if "\<forall>i. nc \<le> int i \<longrightarrow> int i < nf \<longrightarrow> blocks ! i = x \<longrightarrow> \<not> registers p bmask (int i - nc) x" for x
    proof -
      have "\<forall>(j, b) \<in> set ?ibs. b = x \<longrightarrow> \<not> registers p bmask j b"
        using that mem [OF True] by (intro ballI case_prodI2 impI) metis
      then have "keys_of p1 x = keys_of p x" using L by blast
      then show ?thesis using keys_of_same [OF s(2)] by simp
    qed
    have "same_alloc p p1" "cache_inv p1" using L by blast+
    then show ?thesis using s same_alloc_trans cache_inv_same R O by blast
  qed
  then show "same_alloc p p'" "cache_inv p'" by blast+
  show "nc \<le> int i \<Longrightarrow> int i < nf \<Longrightarrow> registers p bmask (int i - nc) (blocks ! i) \<Longrightarrow>
      \<exists>hashes key. hashes_at p r bs = Inr hashes \<and> i < length hashes \<and>
        make_block_hash_with_group_id (hashes ! i) gid = Inr key \<and> keys_of p' (blocks ! i) = [key]"
    using * by blast
  show "(\<And>i. nc \<le> int i \<Longrightarrow> int i < nf \<Longrightarrow> blocks ! i = x \<Longrightarrow> \<not> registers p bmask (int i - nc) x) \<Longrightarrow>
      keys_of p' x = keys_of p x" using * by blast
qed


text \<open>Registration succeeds on blocks that carry no key yet.\<close>

lemma cache_one_succeeds:
  assumes a: "alloc_inv p xs" and c: "cache_inv p" and b: "known p b" and ev: "\<not> enable_kv_cache_events p"
    and i: "0 \<le> i" "i < int (length hs)" and g: "0 \<le> gid" "gid < 2 ^ 32"
    and m: "case bmask of None \<Rightarrow> True | Some m \<Rightarrow> i < int (length m)" and k: "in_pool p b \<Longrightarrow> keys_of p b = []"
  shows "\<exists>p'. cache_one hs nc bs gid bmask (i, b) (p, ext) = Inr (p', ext) \<and> \<not> enable_kv_cache_events p'"
proof -
  have "\<exists>sk. masked_out bmask i = Inr sk" using i m by (cases bmask) (auto simp: masked_out_def py_index_def)
  then obtain sk where sk: "(if is_null (blk p b) then Inr True else masked_out bmask i) = Inr sk" by (cases "is_null (blk p b)") auto
  show ?thesis
  proof (cases sk)
    case True
    then show ?thesis using sk ev by (simp add: cache_one_def)
  next
    case False
    then have ib: "in_pool p b" using sk null_iff [OF a b] by (auto split: if_splits)
    obtain h key where h: "py_index hs i = Inr h" "make_block_hash_with_group_id h gid = Inr key"
      using i make_key_ok [OF g, of "hs ! nat i"] by (auto simp: py_index_def)
    have n: "block_hash (blk p b) = None" using cache_inv_nil [OF c ib] k [OF ib] by simp
    obtain p' where p': "insert_block_hash key b (Some ((nc + i + 1) * bs)) p = Inr p'" "same_alloc p p'"
      using insert_hash_ok [OF c ib] by blast
    have ev': "\<not> enable_kv_cache_events p'" using ev p'(2) by (simp add: same_alloc_def pool_config_def)
    then show ?thesis using sk False h n p'(1) by (simp add: cache_one_def Let_def)
  qed
qed

lemma cache_loop_succeeds:
  assumes "alloc_inv p xs" "cache_inv p" "\<not> enable_kv_cache_events p" "0 \<le> gid" "gid < 2 ^ 32"
    and "distinct (filter (in_pool p) (map snd ibs))"
    and "\<And>i b. (i, b) \<in> set ibs \<Longrightarrow> known p b \<and> 0 \<le> i \<and> i < int (length hs) \<and> (in_pool p b \<longrightarrow> keys_of p b = []) \<and>
      (case bmask of None \<Rightarrow> True | Some m \<Rightarrow> i < int (length m))"
  shows "\<exists>p'. rfold (cache_one hs nc bs gid bmask) ibs (p, ext) = Inr (p', ext) \<and> \<not> enable_kv_cache_events p'"
  using assms
proof (induction ibs arbitrary: p)
  case Nil
  then show ?case by simp
next
  case (Cons ib ibs)
  obtain i b where ib: "ib = (i, b)" by fastforce
  have H: "known p b" "0 \<le> i" "i < int (length hs)" "in_pool p b \<Longrightarrow> keys_of p b = []"
    "case bmask of None \<Rightarrow> True | Some m \<Rightarrow> i < int (length m)" using Cons.prems(7) [of i b] ib by auto
  obtain p1 where p1: "cache_one hs nc bs gid bmask (i, b) (p, ext) = Inr (p1, ext)" "\<not> enable_kv_cache_events p1"
    using cache_one_succeeds [OF Cons.prems(1,2) H(1) Cons.prems(3) H(2,3) Cons.prems(4,5) H(5,4)] by blast
  have C: "same_alloc p p1" "cache_inv p1" "\<And>x. x \<noteq> b \<Longrightarrow> keys_of p1 x = keys_of p x"
    using cache_one_ok [OF Cons.prems(1,2) H(1) p1(1)] by blast+
  have cfg: "pool_config p1 = pool_config p" using C(1) by (simp add: same_alloc_def)
  have ip: "in_pool p1 = in_pool p" using in_pool_config [OF cfg] by blast
  have d: "distinct (filter (in_pool p1) (map snd ibs))" using Cons.prems(6) ib unfolding ip by (simp split: if_splits)
  have "known p1 y \<and> 0 \<le> j \<and> j < int (length hs) \<and> (in_pool p1 y \<longrightarrow> keys_of p1 y = []) \<and>
      (case bmask of None \<Rightarrow> True | Some m \<Rightarrow> j < int (length m))" if jy: "(j, y) \<in> set ibs" for j y
  proof -
    have "y \<noteq> b" if "in_pool p y" using Cons.prems(6) ib jy that by force
    then show ?thesis using Cons.prems(7) [of j y] jy C(3) known_config [OF cfg] unfolding ip by auto
  qed
  then show ?case using Cons.IH [OF alloc_inv_same [OF C(1) Cons.prems(1)] C(2) p1(2) Cons.prems(4,5) d] p1(1) ib by auto
qed

lemma cache_full_blocks_succeeds:
  assumes a: "alloc_inv p xs" and c: "cache_inv p" and ev: "\<not> enable_kv_cache_events p"
    and kn: "list_all (known p) blocks" and d: "distinct (filter (in_pool p) blocks)"
    and nc: "0 \<le> nc" and nf: "nf \<le> int (length blocks)" and g: "0 \<le> gid" "gid < 2 ^ 32"
    and h: "hashes_at p r bs = Inr hashes" "nf \<le> int (length hashes)"
    and m: "case bmask of None \<Rightarrow> True | Some m \<Rightarrow> int (length m) = nf - nc"
    and k: "\<And>i. nc \<le> int i \<Longrightarrow> int i < nf \<Longrightarrow> in_pool p (blocks ! i) \<Longrightarrow> keys_of p (blocks ! i) = []"
  shows "\<exists>p'. cache_full_blocks sha256 r blocks nc nf bs gid bmask p = Inr p' \<and> \<not> enable_kv_cache_events p'"
proof (cases "nc < nf")
  case False
  then show ?thesis using ev by (simp add: cache_full_blocks_def)
next
  case True
  let ?new = "py_slice blocks nc nf"
  let ?ibs = "zip (map int [0..<length ?new]) ?new"
  have sl: "?new = take (nat nf - nat nc) (drop (nat nc) blocks)" using True nc by (simp add: py_slice_nat)
  have len: "length ?new = nat (nf - nc)" using True nc nf by (simp add: sl)
  have "blocks = take (nat nc) blocks @ ?new @ drop (nat nf - nat nc) (drop (nat nc) blocks)"
    unfolding sl by (simp only: append_take_drop_id)
  then have "distinct (filter (in_pool p) ?new)" using d by (metis distinct_append filter_append)
  moreover have "map snd ?ibs = ?new" by simp
  ultimately have df: "distinct (filter (in_pool p) (map snd ?ibs))" by metis
  have pre: "known p b \<and> 0 \<le> j \<and> j < int (length (py_from hashes nc)) \<and> (in_pool p b \<longrightarrow> keys_of p b = []) \<and>
      (case bmask of None \<Rightarrow> True | Some m \<Rightarrow> j < int (length m))" if "(j, b) \<in> set ?ibs" for j b
  proof -
    obtain i where i: "nc \<le> int i" "int i < nf" "j = int i - nc" "b = blocks ! i"
      using slice_enumerate [OF nc True nf] \<open>(j, b) \<in> set ?ibs\<close> by blast
    have "blocks ! i \<in> set blocks" using i(2) nf by (intro nth_mem) linarith
    then have "known p b" using kn i(4) by (simp add: list_all_iff)
    then show ?thesis using i h(2) nc m k [OF i(1,2)] by (auto split: option.splits)
  qed
  obtain p' where p': "rfold (cache_one (py_from hashes nc) nc bs gid bmask) ?ibs (p, []) = Inr (p', [])"
    "\<not> enable_kv_cache_events p'"
    using cache_loop_succeeds [OF a c ev g df pre] by blast
  have "case bmask of None \<Rightarrow> True | Some m \<Rightarrow> length m = length ?new" using m True by (auto simp: len split: option.splits)
  then show ?thesis using True p' h by (simp add: cache_full_blocks_def Let_def)
qed

lemma cache_partial_block_ok:
  assumes a: "alloc_inv p xs" and c: "cache_inv p" and b: "in_pool p b"
    and r: "cache_partial_block sha256 r b ntok gid bs p = Inr (k, p')"
  shows "\<exists>key. k = Some key \<and> same_alloc p p' \<and> cache_inv p' \<and>
    key \<in> set (keys_of p' b) \<and> set (keys_of p' b) \<subseteq> insert key (set (keys_of p b)) \<and>
    make_block_hash_with_group_id (rq_block_hashes r ! nat (ntok div hash_block_size p - 1)) gid = Inr key \<and>
    (\<forall>x. x \<noteq> b \<longrightarrow> keys_of p' x = keys_of p x)"
proof -
  have nn: "\<not> is_null (blk p b)" using alloc_invD(6) [OF a b] .
  let ?r = "remove_cached_block_hashes b p"
  let ?nht = "ntok div hash_block_size p * hash_block_size p"
  define rem where "rem key \<longleftrightarrow> \<not> (block_hash (blk p b) = Some key \<or>
      bm_contain (cached_block_hash_to_block p) key (block_id b)) \<and> block_hash (blk p b) \<noteq> None \<and>
    (case block_hash_num_tokens (blk p b) of None \<Rightarrow> False | Some t \<Rightarrow> t < ?nht)" for key
  define q1 where "q1 key = (if rem key then emit_block_removed_events (fst ?r) (snd ?r) else p)" for key
  obtain h key p2 where h: "get_partial_block_hash p r ntok = Inr h"
    "make_block_hash_with_group_id h gid = Inr key" "insert_block_hash key b (Some ?nht) (q1 key) = Inr p2"
    "\<exists>ev. k = Some key \<and> (p' = p2 \<or> p' = p2\<lparr>kv_event_queue := ev\<rparr>)"
  proof -
    obtain h key p2 where h: "get_partial_block_hash p r ntok = Inr h"
      "make_block_hash_with_group_id h gid = Inr key" "insert_block_hash key b (Some ?nht) (q1 key) = Inr p2"
      and fin: "(if enable_kv_cache_events p2 \<and> \<not> (block_hash (blk p b) = Some key \<or>
         bm_contain (cached_block_hash_to_block p) key (block_id b)) then emit_partial_stored sha256 r h ntok gid p2
         else Inr p2) = Inr p'" and k: "k = Some key"
      using r nn unfolding cache_partial_block_def q1_def rem_def Let_def split_beta
      by (simp only: if_False py_assert_eq_Inr rbind_eq_Inr) blast
    show ?thesis by (rule that [OF h]) (use fin k in \<open>auto simp: emit_partial_stored_def split: if_splits prod.splits\<close>)
  qed
  obtain ev where k: "k = Some key" and p': "p' = p2 \<or> p' = p2\<lparr>kv_event_queue := ev\<rparr>" using h(4) by blast
  have p1: "q1 key = p \<or> q1 key = emit_block_removed_events (fst ?r) (snd ?r)" by (simp add: q1_def)
  note p2 = h(3)
  have s: "same_alloc p2 p'" "same_cache p2 p'" using p' by (auto simp: same_alloc_def same_cache_def)
  have "same_alloc p p2 \<and> cache_inv p2 \<and> key \<in> set (keys_of p2 b) \<and>
      set (keys_of p2 b) \<subseteq> insert key (set (keys_of p b)) \<and> (\<forall>x. x \<noteq> b \<longrightarrow> keys_of p2 x = keys_of p x)"
  proof (cases "q1 key = p")
    case True
    then show ?thesis using insert_hash_ok [OF c b, of key "Some ?nht"] p2 by auto
  next
    case False
    then have "\<exists>p'. insert_block_hash key b (Some ?nht) (q1 key) = Inr p' \<and> same_alloc p p' \<and> cache_inv p' \<and>
        (\<forall>x. keys_of p' x = (if x = b then [key] else keys_of p x))"
      using p1 by (intro rekey_ok [OF c b, of "q1 key" "fst ?r"]) auto
    then show ?thesis using p2 by auto
  qed
  moreover have "h = rq_block_hashes r ! nat (ntok div hash_block_size p - 1)"
    using h(1) by (auto simp: get_partial_block_hash_def Let_def py_index_def split: if_splits)
  ultimately show ?thesis
    using h(2) k s keys_of_same [OF s(2)] same_alloc_trans cache_inv_same by (intro exI [of _ key]) auto
qed

section \<open>Lookup\<close>

lemma get_cached_loop_ok:
  assumes c: "cache_inv p" and g: "\<And>g. g \<in> set gs \<Longrightarrow> 0 \<le> g \<and> g < 2 ^ 32"
  shows "\<exists>res. get_cached_loop p h gs acc = Inr res \<and>
    (case res of
       Some bs \<Rightarrow> \<exists>bs'. bs = acc @ bs' \<and> length bs' = length gs \<and>
         (\<forall>i < length gs. \<exists>key. make_block_hash_with_group_id h (gs ! i) = Inr key \<and>
            in_pool p (bs' ! i) \<and> key \<in> set (keys_of p (bs' ! i)))
     | None \<Rightarrow> \<exists>g \<in> set gs. \<exists>key. make_block_hash_with_group_id h g = Inr key \<and>
         (\<forall>b. in_pool p b \<longrightarrow> key \<notin> set (keys_of p b)))"
  using g
proof (induction gs arbitrary: acc)
  case (Cons g gs)
  obtain key where key: "make_block_hash_with_group_id h g = Inr key"
    using make_key_ok [of g h] Cons.prems by auto
  have G: "get_one_block (cached_block_hash_to_block p) key =
      Inr (case bm_blocks (cached_block_hash_to_block p) key of [] \<Rightarrow> None | b # _ \<Rightarrow> Some b)"
    using get_one_block_ok [OF cache_invD(1) [OF c]] .
  show ?case
  proof (cases "bm_blocks (cached_block_hash_to_block p) key")
    case Nil
    then have "get_cached_loop p h (g # gs) acc = Inr None" using key G by simp
    moreover have "\<forall>b. in_pool p b \<longrightarrow> key \<notin> set (keys_of p b)" using Nil cache_invD(2) [OF c, of _ key] by auto
    ultimately show ?thesis using key by auto
  next
    case (Cons b bl)
    then have e: "get_cached_loop p h (g # gs) acc = get_cached_loop p h gs (acc @ [b])" using key G by simp
    have b: "in_pool p b" "key \<in> set (keys_of p b)" using Cons cache_invD(2) [OF c, of b key] by auto
    obtain res where res: "get_cached_loop p h gs (acc @ [b]) = Inr res"
      "case res of
       Some bs \<Rightarrow> \<exists>bs'. bs = (acc @ [b]) @ bs' \<and> length bs' = length gs \<and>
         (\<forall>i < length gs. \<exists>key. make_block_hash_with_group_id h (gs ! i) = Inr key \<and>
            in_pool p (bs' ! i) \<and> key \<in> set (keys_of p (bs' ! i)))
      | None \<Rightarrow> \<exists>g \<in> set gs. \<exists>key. make_block_hash_with_group_id h g = Inr key \<and>
         (\<forall>b. in_pool p b \<longrightarrow> key \<notin> set (keys_of p b))"
      using Cons.IH [of "acc @ [b]"] Cons.prems by auto
    show ?thesis
    proof (cases res)
      case None
      then show ?thesis using res unfolding e by auto
    next
      case (Some bs)
      then obtain bs' where bs': "bs = (acc @ [b]) @ bs'" "length bs' = length gs"
        "\<forall>i < length gs. \<exists>key. make_block_hash_with_group_id h (gs ! i) = Inr key \<and>
            in_pool p (bs' ! i) \<and> key \<in> set (keys_of p (bs' ! i))"
        using res(2) by auto
      then show ?thesis using res(1) Some b key unfolding e
        by (intro exI [of _ res]) (auto simp: less_Suc_eq_0_disj intro!: exI [of _ "b # bs'"])
    qed
  qed
qed simp


end
