(* ===== verification/Pool_Safety.thy ===== *)
theory Pool_Safety
  imports Block_Pool
begin

text \<open>
  Every run of the block pool under the discipline its callers follow: they free
  only references they hold, and name only blocks of the pool or the null block.
  The ghost multiset \<open>held\<close> counts the references handed out by \<^verbatim>\<open>get_new_blocks\<close> and
  \<^verbatim>\<open>touch\<close> and not yet returned by \<^verbatim>\<open>free_blocks\<close>.  Over all reachable states: the
  reference counts are exactly the held references, no block is handed out while
  it is held, blocks are neither lost nor duplicated, a lookup never returns a
  block that was given to someone else since it was registered, and no operation
  raises on admissible arguments.
\<close>

section \<open>Runs\<close>

text \<open>What a block was registered for since it was last allocated: triples of a request,
  a number of tokens of its prefix and a KV cache group.\<close>

type_synonym registry = "kv_ref \<Rightarrow> (request \<times> int \<times> int) set"

type_synonym pool_state = "block_pool \<times> kv_ref multiset \<times> registry"

abbreviation real_blocks :: "block_pool \<Rightarrow> kv_ref list \<Rightarrow> kv_ref multiset" where
  "real_blocks p bs \<equiv> mset (filter (in_pool p) bs)"

inductive pool_step :: "(bytes \<Rightarrow> bytes) \<Rightarrow> (request \<Rightarrow> bool) \<Rightarrow> pool_state \<Rightarrow> pool_state \<Rightarrow> bool" for sha256 okr where
  allocate: "\<lbrakk>0 \<le> n; get_new_blocks n p = Inr (bs, p')\<rbrakk> \<Longrightarrow>
    pool_step sha256 okr (p, held, reg) (p', held + mset bs, \<lambda>b. if b \<in> set bs then {} else reg b)"
| touch: "\<lbrakk>list_all (known p) bs; touch bs p = Inr p'\<rbrakk> \<Longrightarrow>
    pool_step sha256 okr (p, held, reg) (p', held + real_blocks p bs, reg)"
| free: "\<lbrakk>list_all (known p) bs; real_blocks p bs \<subseteq># held; free_blocks bs p = Inr p'\<rbrakk> \<Longrightarrow>
    pool_step sha256 okr (p, held, reg) (p', held - real_blocks p bs, reg)"
| cache_full: "\<lbrakk>list_all (known p) blocks; distinct (filter (in_pool p) blocks); 0 \<le> nc; nf \<le> int (length blocks);
     cache_full_blocks sha256 r blocks nc nf bs gid bmask p = Inr p'; 0 < bs; okr r\<rbrakk> \<Longrightarrow>
    pool_step sha256 okr (p, held, reg) (p', held,
      \<lambda>b. reg b \<union> {(r, (int i + 1) * bs, gid) | i. nc \<le> int i \<and> int i < nf \<and> blocks ! i = b})"
| cache_partial: "\<lbrakk>in_pool p b; cache_partial_block sha256 r b ntok gid bs p = Inr (k, p'); okr r\<rbrakk> \<Longrightarrow>
    pool_step sha256 okr (p, held, reg) (p', held, reg(b := reg b \<union> {(r, ntok, gid)}))"
| evict: "\<lbrakk>list_all (\<lambda>i. 0 \<le> i) ids; evict_blocks ids p = Inr p'\<rbrakk> \<Longrightarrow>
    pool_step sha256 okr (p, held, reg) (p', held, reg)"
| reset: "pool_step sha256 okr (p, held, reg) (snd (pool_reset_prefix_cache p), held, reg)"
| take_events: "pool_step sha256 okr (p, held, reg) (snd (pool_take_events p), held, reg)"

inductive pool_reach :: "(bytes \<Rightarrow> bytes) \<Rightarrow> (request \<Rightarrow> bool) \<Rightarrow> pool_state \<Rightarrow> bool" for sha256 okr where
  start: "\<lbrakk>pool_init n caching hbs events ui = Inr p; 0 < hbs\<rbrakk> \<Longrightarrow> pool_reach sha256 okr (p, {#}, \<lambda>_. {})"
| step: "pool_reach sha256 okr s \<Longrightarrow> pool_step sha256 okr s s' \<Longrightarrow> pool_reach sha256 okr s'"

definition counted :: "block_pool \<Rightarrow> kv_ref multiset \<Rightarrow> bool" where
  "counted p held \<longleftrightarrow> (\<forall>b. in_pool p b \<longrightarrow> ref_cnt (blk p b) = int (count held b)) \<and> (\<forall>b \<in># held. in_pool p b)"

text \<open>The key of a registration: the hash of the request's prefix of that length, and the group.\<close>

fun reg_key :: "int \<Rightarrow> request \<times> int \<times> int \<Rightarrow> bytes result" where
  "reg_key hbs (r, n, gid) = make_block_hash_with_group_id (rq_block_hashes r ! nat (n div hbs - 1)) gid"

fun reg_ok :: "(request \<Rightarrow> bool) \<Rightarrow> int \<Rightarrow> request \<times> int \<times> int \<Rightarrow> bool" where
  "reg_ok okr hbs (r, n, gid) \<longleftrightarrow> okr r \<and> n mod hbs = 0 \<and> 0 < n div hbs \<and> n div hbs \<le> int (length (rq_block_hashes r))"

definition registered :: "(request \<Rightarrow> bool) \<Rightarrow> block_pool \<Rightarrow> registry \<Rightarrow> bool" where
  "registered okr p reg \<longleftrightarrow> 0 < hash_block_size p \<and> (enable_caching p \<longrightarrow>
    (\<forall>b. in_pool p b \<longrightarrow> (\<forall>key \<in> set (keys_of p b). \<exists>x \<in> reg b.
      reg_ok okr (hash_block_size p) x \<and> reg_key (hash_block_size p) x = Inr key)))"

fun safe :: "(request \<Rightarrow> bool) \<Rightarrow> pool_state \<Rightarrow> bool" where
  "safe okr (p, held, reg) \<longleftrightarrow> (\<exists>xs. pool_inv p xs) \<and> counted p held \<and> registered okr p reg"

section \<open>The invariant\<close>

lemma count_mset_list [simp]: "count (mset bs) b = count_list bs b"
  by (induction bs) auto

lemma count_real: "in_pool p b \<Longrightarrow> count (real_blocks p bs) b = count_list bs b"
  by simp

lemma counted_same: "same_alloc p p' \<Longrightarrow> counted p held \<Longrightarrow> counted p' held"
  using in_pool_config [of p' p] by (simp add: same_alloc_def counted_def)

lemma registeredD:
  "registered okr p reg \<Longrightarrow> enable_caching p \<Longrightarrow> in_pool p b \<Longrightarrow> key \<in> set (keys_of p b) \<Longrightarrow>
    \<exists>x \<in> reg b. reg_ok okr (hash_block_size p) x \<and> reg_key (hash_block_size p) x = Inr key"
  by (simp add: registered_def)

text \<open>Registrations survive when keys only disappear.\<close>

lemma registered_mono:
  assumes "registered okr p reg" "pool_config p' = pool_config p"
    and "\<And>b. in_pool p b \<Longrightarrow> set (keys_of p' b) \<subseteq> set (keys_of p b) \<and> reg b \<subseteq> reg' b"
  shows "registered okr p' reg'"
proof -
  have e: "hash_block_size p' = hash_block_size p" "enable_caching p' = enable_caching p"
    using assms(2) by (simp_all add: pool_config_def)
  show ?thesis using assms(1,3) unfolding registered_def in_pool_config [OF assms(2)] e by (meson subsetD)
qed

lemma registered_same: "same_cache p p' \<Longrightarrow> registered okr p reg \<Longrightarrow> registered okr p' reg"
  by (rule registered_mono [where p = p and reg = reg]) (simp_all add: same_cacheD keys_of_same)

lemma safeI: "alloc_inv p xs \<Longrightarrow> cache_inv p \<Longrightarrow> counted p held \<Longrightarrow> registered okr p reg \<Longrightarrow> safe okr (p, held, reg)"
  by (auto simp: pool_inv_def intro: exI [of _ xs])

lemma safe_same:
  assumes "same_alloc p p'" "cache_inv p'" "safe okr (p, held, reg)" "registered okr p' reg'"
  shows "safe okr (p', held, reg')"
proof -
  obtain xs where "alloc_inv p xs" "counted p held" using assms(3) by (auto simp: pool_inv_def)
  then show ?thesis
    using assms(2,4) alloc_inv_same [OF assms(1)] counted_same [OF assms(1)] by (intro safeI)
qed

lemma same_allocD: "same_alloc p p' \<Longrightarrow> pool_config p' = pool_config p"
  by (simp add: same_alloc_def)

lemma get_new_blocks_inr:
  assumes inv: "pool_inv p xs" and n: "0 \<le> n" and g: "get_new_blocks n p = Inr (bs, p')"
  shows "bs = take (nat n) xs" "int (length bs) = n" "pool_inv p' (drop (nat n) xs)" "pool_config p' = pool_config p"
    "ref_cnt (blk p' b) = ref_cnt (blk p b) + of_bool (b \<in> set bs)"
    "keys_of p' b = (if enable_caching p \<and> b \<in> set bs then [] else keys_of p b)"
proof -
  have le: "nat n \<le> length xs" using get_new_blocks_too_many [OF inv, of n] g n by (cases "int (length xs) < n") auto
  have nn: "int (nat n) = n" using n by simp
  obtain q where q: "get_new_blocks n p = Inr (take (nat n) xs, q)" "pool_inv q (drop (nat n) xs)"
    "pool_config q = pool_config p"
    "\<And>b. ref_cnt (blk q b) = ref_cnt (blk p b) + of_bool (b \<in> set (take (nat n) xs))"
    "\<And>b. keys_of q b = (if enable_caching p \<and> b \<in> set (take (nat n) xs) then [] else keys_of p b)"
    using get_new_blocks_ok [OF inv le] unfolding nn by blast
  have e: "bs = take (nat n) xs" "p' = q" using q(1) g by auto
  show "bs = take (nat n) xs" "int (length bs) = n" "pool_inv p' (drop (nat n) xs)" "pool_config p' = pool_config p"
    "ref_cnt (blk p' b) = ref_cnt (blk p b) + of_bool (b \<in> set bs)"
    "keys_of p' b = (if enable_caching p \<and> b \<in> set bs then [] else keys_of p b)"
    unfolding e using q(2-5) le n by simp_all
qed

lemma safe_alloc:
  assumes s: "safe okr (p, held, reg)" and n: "0 \<le> n" and g: "get_new_blocks n p = Inr (bs, p')"
  shows "safe okr (p', held + mset bs, \<lambda>b. if b \<in> set bs then {} else reg b)"
proof -
  obtain xs where inv: "pool_inv p xs" and cn: "counted p held" and rg: "registered okr p reg" using s by auto
  note G = get_new_blocks_inr [OF inv n g]
  have a: "alloc_inv p xs" using inv by (simp add: pool_inv_def)
  have sub: "set bs \<subseteq> set xs" using G(1) set_take_subset by metis
  have d: "distinct bs" using G(1) alloc_invD(8) [OF a] by simp
  have c: "count (mset bs) b = of_bool (b \<in> set bs)" for b
    using d by (simp add: distinct_count_atmost_1 del: count_mset_list)
  have "counted p' (held + mset bs)"
    unfolding counted_def in_pool_config [OF G(4)] G(5) count_union c
    using cn sub alloc_invD(7) [OF a] by (auto simp: counted_def)
  moreover have "registered okr p' (\<lambda>b. if b \<in> set bs then {} else reg b)"
    using rg G(4) unfolding registered_def in_pool_config [OF G(4)] G(6) by (auto simp: pool_config_def)
  ultimately show ?thesis using G(3) by auto
qed

lemma safe_touch:
  assumes s: "safe okr (p, held, reg)" and k: "list_all (known p) bs" and t: "touch bs p = Inr p'"
  shows "safe okr (p', held + real_blocks p bs, reg)"
proof -
  obtain xs where a: "alloc_inv p xs" and c: "cache_inv p" and cn: "counted p held" and rg: "registered okr p reg"
    using s by (auto simp: pool_inv_def)
  have T: "alloc_inv p' (filter (\<lambda>x. x \<notin> set bs) xs)" "same_cache p p'"
    "\<And>x. ref_cnt (blk p' x) = ref_cnt (blk p x) + int (count_list bs x)"
    using touch_ok [OF a, of bs] k t by (auto simp: list_all_iff)
  have "counted p' (held + real_blocks p bs)"
    unfolding counted_def in_pool_config [OF same_cacheD [OF T(2)]] T(3) count_union
    using cn by (auto simp: counted_def count_real)
  then show ?thesis using T(1) cache_inv_same [OF T(2) c] registered_same [OF T(2) rg] by (intro safeI)
qed

lemma held_le:
  assumes "counted p held" "real_blocks p bs \<subseteq># held" "in_pool p b"
  shows "int (count_list bs b) \<le> ref_cnt (blk p b)"
  using assms mset_subset_eq_count [OF assms(2), of b] count_real [OF assms(3)] by (auto simp: counted_def)

lemma safe_free:
  assumes s: "safe okr (p, held, reg)" and k: "list_all (known p) bs" and h: "real_blocks p bs \<subseteq># held"
    and f: "free_blocks bs p = Inr p'"
  shows "safe okr (p', held - real_blocks p bs, reg)"
proof -
  obtain xs where a: "alloc_inv p xs" and c: "cache_inv p" and cn: "counted p held" and rg: "registered okr p reg"
    using s by (auto simp: pool_inv_def)
  have F: "\<exists>ys. alloc_inv p' ys" "same_cache p p'"
    "\<And>x. ref_cnt (blk p' x) = ref_cnt (blk p x) - int (count_list bs x)"
    using free_blocks_ok [OF a, of bs] held_le [OF cn h] k f by (auto simp: list_all_iff)
  have le: "count_list bs b \<le> count held b" if "in_pool p b" for b
    using mset_subset_eq_count [OF h, of b] count_real [OF that] by simp
  have "counted p' (held - real_blocks p bs)"
    unfolding counted_def in_pool_config [OF same_cacheD [OF F(2)]] F(3)
    using cn le by (auto simp: counted_def count_real of_nat_diff dest: in_diffD)
  then show ?thesis using F(1) cache_inv_same [OF F(2) c] registered_same [OF F(2) rg] by (auto intro: safeI simp del: safe.simps)
qed

lemma safe_cache_full:
  assumes s: "safe okr (p, held, reg)" and k: "list_all (known p) blocks" and d: "distinct (filter (in_pool p) blocks)"
    and nc: "0 \<le> nc" and nf: "nf \<le> int (length blocks)" and bs: "0 < bs" and r: "okr r"
    and f: "cache_full_blocks sha256 r blocks nc nf bs gid bmask p = Inr p'"
  shows "safe okr (p', held, \<lambda>b. reg b \<union> {(r, (int i + 1) * bs, gid) | i. nc \<le> int i \<and> int i < nf \<and> blocks ! i = b})"
    (is "safe okr (p', held, ?reg)")
proof -
  obtain xs where a: "alloc_inv p xs" and c: "cache_inv p" and rg: "registered okr p reg"
    using s by (auto simp: pool_inv_def)
  note C = cache_full_blocks_ok [OF a c k d nc nf f]
  note cfg = same_allocD [OF C(1)]
  have h: "hash_block_size p' = hash_block_size p" "enable_caching p' = enable_caching p" "0 < hash_block_size p"
    using cfg rg by (simp_all add: pool_config_def registered_def)
  have N: "\<exists>x \<in> ?reg b. reg_ok okr (hash_block_size p) x \<and> reg_key (hash_block_size p) x = Inr key"
    if b: "in_pool p b" and key: "key \<in> set (keys_of p' b)" and ec: "enable_caching p" for b key
  proof (cases "\<exists>i. nc \<le> int i \<and> int i < nf \<and> blocks ! i = b \<and> registers p bmask (int i - nc) b")
    case True
    then obtain i where i: "nc \<le> int i" "int i < nf" "blocks ! i = b" "registers p bmask (int i - nc) b" by blast
    obtain hashes k where hk: "hashes_at p r bs = Inr hashes" "i < length hashes"
      "make_block_hash_with_group_id (hashes ! i) gid = Inr k" "keys_of p' b = [k]"
      using C(3) [OF i(1,2)] i(3,4) by blast
    have "(r, (int i + 1) * bs, gid) \<in> ?reg b" using i by blast
    moreover have "reg_key (hash_block_size p) (r, (int i + 1) * bs, gid) = Inr key"
      using hk key hashes_at_nth(4) [OF hk(1,2) bs h(3)] by simp
    moreover have "reg_ok okr (hash_block_size p) (r, (int i + 1) * bs, gid)"
      using r hashes_at_nth(1-3) [OF hk(1,2) bs h(3)] by simp
    ultimately show ?thesis by blast
  next
    case False
    then have "keys_of p' b = keys_of p b" using C(4) [of b] by blast
    then obtain x where "x \<in> reg b" "reg_ok okr (hash_block_size p) x" "reg_key (hash_block_size p) x = Inr key"
      using registeredD [OF rg ec b, of key] key by metis
    then show ?thesis by (intro bexI [of _ x]) simp_all
  qed
  have "registered okr p' ?reg" unfolding registered_def in_pool_config [OF cfg] h(1,2)
    by (intro conjI impI allI ballI h(3) N)
  then show ?thesis by (rule safe_same [OF C(1,2) s])
qed

lemma safe_cache_partial:
  assumes s: "safe okr (p, held, reg)" and b: "in_pool p b" and r: "okr r"
    and f: "cache_partial_block sha256 r b ntok gid bs p = Inr (k, p')"
  shows "safe okr (p', held, reg(b := reg b \<union> {(r, ntok, gid)}))"
proof -
  obtain xs where a: "alloc_inv p xs" and c: "cache_inv p" and rg: "registered okr p reg"
    using s by (auto simp: pool_inv_def)
  obtain key where C: "same_alloc p p'" "cache_inv p'" "set (keys_of p' b) \<subseteq> insert key (set (keys_of p b))"
    "make_block_hash_with_group_id (rq_block_hashes r ! nat (ntok div hash_block_size p - 1)) gid = Inr key"
    "\<And>x. x \<noteq> b \<Longrightarrow> keys_of p' x = keys_of p x"
    using cache_partial_block_ok [OF a c b f] by blast
  note cfg = same_allocD [OF C(1)]
  have h: "hash_block_size p' = hash_block_size p" "enable_caching p' = enable_caching p" "0 < hash_block_size p"
    using cfg rg by (simp_all add: pool_config_def registered_def)
  have "ntok mod hash_block_size p = 0 \<and> 0 < ntok div hash_block_size p \<and>
      ntok div hash_block_size p \<le> int (length (rq_block_hashes r))"
    using f alloc_invD(6) [OF a b] by (auto simp: cache_partial_block_def get_partial_block_hash_def Let_def)
  then have new: "reg_ok okr (hash_block_size p) (r, ntok, gid)" "reg_key (hash_block_size p) (r, ntok, gid) = Inr key"
    using r C(4) by simp_all
  have "registered okr p' (reg(b := reg b \<union> {(r, ntok, gid)}))"
    unfolding registered_def in_pool_config [OF cfg] h(1,2)
  proof (intro conjI impI allI ballI)
    fix x key' assume *: "enable_caching p" "in_pool p x" "key' \<in> set (keys_of p' x)"
    show "\<exists>y \<in> (reg(b := reg b \<union> {(r, ntok, gid)})) x. reg_ok okr (hash_block_size p) y \<and> reg_key (hash_block_size p) y = Inr key'"
    proof (cases "x = b \<and> key' = key")
      case True
      then show ?thesis using new by auto
    next
      case False
      then have "key' \<in> set (keys_of p x)" using * C(3,5) by (cases "x = b") auto
      then obtain y where "y \<in> reg x" "reg_ok okr (hash_block_size p) y" "reg_key (hash_block_size p) y = Inr key'"
        using registeredD [OF rg *(1,2)] by blast
      then show ?thesis by auto
    qed
  qed (rule h(3))
  then show ?thesis by (rule safe_same [OF C(1,2) s])
qed

lemma evict_ids:
  assumes a: "alloc_inv p xs" and c: "cache_inv p" and e: "evict_blocks ids p = Inr p'" and n: "list_all (\<lambda>i. 0 \<le> i) ids"
  shows "list_all (\<lambda>i. 0 \<le> i \<and> i < num_gpu_blocks p) ids"
proof (rule ccontr)
  assume "\<not> list_all (\<lambda>i. 0 \<le> i \<and> i < num_gpu_blocks p) ids"
  then have "\<exists>x \<in> set ids. \<not> (0 \<le> x \<and> x < num_gpu_blocks p)" by (auto simp: list_all_iff)
  then obtain us j vs where ids: "ids = us @ j # vs" "\<not> (0 \<le> j \<and> j < num_gpu_blocks p)"
    "\<forall>x \<in> set us. 0 \<le> x \<and> x < num_gpu_blocks p"
    using split_list_first_prop [of ids "\<lambda>x. \<not> (0 \<le> x \<and> x < num_gpu_blocks p)"] by auto
  then have "evict_blocks ids p = Inl AssertionError"
    using n evict_blocks_bad_id [OF a c, of us j vs] by (auto simp: list_all_iff)
  then show False using e by simp
qed

lemma safe_step: "pool_step sha256 okr s s' \<Longrightarrow> safe okr s \<Longrightarrow> safe okr s'"
proof (induction rule: pool_step.induct)
  case (allocate n p bs p' held reg)
  then show ?case by (intro safe_alloc)
next
  case (touch p bs p' held reg)
  then show ?case by (intro safe_touch)
next
  case (free p bs held p' reg)
  then show ?case by (intro safe_free)
next
  case (cache_full p blocks nc nf r bs gid bmask p' held reg)
  then show ?case by (intro safe_cache_full)
next
  case (cache_partial p b r ntok gid bs k p' held reg)
  then show ?case by (intro safe_cache_partial)
next
  case (evict ids p p' held reg)
  then obtain xs where a: "alloc_inv p xs" and c: "cache_inv p" and rg: "registered okr p reg" by (auto simp: pool_inv_def)
  then have E: "same_alloc p p'" "cache_inv p'"
    "\<And>b. in_pool p b \<Longrightarrow> keys_of p' b = (if block_id b \<in> set ids then [] else keys_of p b)"
    using evict_blocks_ok [OF a c, of ids] evict_ids [OF a c evict(2,1)] evict(2) by (auto simp: list_all_iff)
  have "registered okr p' reg" by (rule registered_mono [OF rg same_allocD [OF E(1)]]) (simp add: E(3))
  then show ?case by (rule safe_same [OF E(1,2) evict(3)])
next
  case (reset p held reg)
  then obtain xs where a: "alloc_inv p xs" and c: "cache_inv p" and rg: "registered okr p reg" by (auto simp: pool_inv_def)
  note R = reset_ok(2-5) [OF a c]
  have "set (keys_of (snd (pool_reset_prefix_cache p)) b) \<subseteq> set (keys_of p b)" if "in_pool p b" for b
  proof (cases "fst (pool_reset_prefix_cache p)")
    case True
    then show ?thesis
      using R(3) cache_invD(2) [OF R(2), of b] that in_pool_config [OF same_allocD [OF R(1)], of b] by auto
  qed (simp add: R(4))
  then have "registered okr (snd (pool_reset_prefix_cache p)) reg"
    by (intro registered_mono [OF rg same_allocD [OF R(1)]]) blast
  then show ?case by (rule safe_same [OF R(1,2) reset])
next
  case (take_events p held reg)
  have s: "same_alloc p (snd (pool_take_events p))" "same_cache p (snd (pool_take_events p))"
    by (auto simp: pool_take_events_def same_alloc_def same_cache_def)
  show ?case
    using take_events cache_inv_same [OF s(2)] registered_same [OF s(2)]
    by (intro safe_same [OF s(1)]) (auto simp: pool_inv_def)
qed

lemma safe_reach: "pool_reach sha256 okr s \<Longrightarrow> safe okr s"
proof (induction rule: pool_reach.induct)
  case (start n caching hbs events ui p)
  then have n: "n > 0" by (auto simp: pool_init_def py_assert_def split: if_splits)
  then have p: "pool_inv p (map Blk [1..<nat n])" "pool_config p = (n, caching, hbs, Blk 0, events, ui)" "\<And>b. keys_of p b = []"
    using pool_init_ok [OF n, of caching hbs events ui] start(1) by auto
  have a: "alloc_inv p (map Blk [1..<nat n])" using p(1) by (simp add: pool_inv_def)
  have "num_gpu_blocks p = n" "hash_block_size p = hbs" using p(2) by (simp_all add: pool_config_def)
  then have "counted p {#}" "registered okr p (\<lambda>_. {})"
    using alloc_invD(7) [OF a] p(3) start(2) by (fastforce simp: counted_def in_pool_def, simp add: registered_def)
  then show ?case using p(1) by auto
qed (rule safe_step)

lemma reachD:
  assumes "pool_reach sha256 okr (p, held, reg)"
  obtains xs where "pool_inv p xs" "alloc_inv p xs" "cache_inv p" "counted p held" "registered okr p reg"
  using safe_reach [OF assms] by (auto simp: pool_inv_def)

lemma free_iff: "alloc_inv p xs \<Longrightarrow> counted p held \<Longrightarrow> b \<in> set xs \<longleftrightarrow> in_pool p b \<and> b \<notin># held"
  using alloc_invD(7) [of p xs b] by (auto simp: counted_def not_in_iff)

lemma card_in_pool: "card {b. in_pool p b} = nat (num_gpu_blocks p - 1)" "finite {b. in_pool p b}"
proof -
  have e: "{b. in_pool p b} = Blk ` {1..<nat (num_gpu_blocks p)}" by (auto simp: in_pool_def)
  show "card {b. in_pool p b} = nat (num_gpu_blocks p - 1)" unfolding e by (simp add: card_image inj_on_def nat_diff_distrib')
  show "finite {b. in_pool p b}" unfolding e by simp
qed

section \<open>A pool to evaluate\<close>

definition ex_pool :: block_pool where
  "ex_pool = projr (pool_init 6 True 2 False False)"

lemma ex_pool_ok:
  "pool_reach id okr (ex_pool, {#}, \<lambda>_. {})" "pool_inv ex_pool [Blk 1, Blk 2, Blk 3, Blk 4, Blk 5]"
  "pool_config ex_pool = (6, True, 2, Blk 0, False, False)" "keys_of ex_pool b = []"
proof -
  have u: "map Blk [1..<nat 6] = [Blk 1, Blk 2, Blk 3, Blk 4, Blk 5]" by (simp add: upt_rec)
  obtain p where p: "pool_init 6 True 2 False False = Inr p" "pool_inv p [Blk 1, Blk 2, Blk 3, Blk 4, Blk 5]"
    "pool_config p = (6, True, 2, Blk 0, False, False)" "\<And>b. keys_of p b = []"
    using pool_init_ok [of 6 True 2 False False] unfolding u by auto
  then show "pool_reach id okr (ex_pool, {#}, \<lambda>_. {})" "pool_inv ex_pool [Blk 1, Blk 2, Blk 3, Blk 4, Blk 5]"
    "pool_config ex_pool = (6, True, 2, Blk 0, False, False)" "keys_of ex_pool b = []"
    by (simp_all add: ex_pool_def pool_reach.start)
qed

definition ex_pool2 :: block_pool where
  "ex_pool2 = snd (projr (get_new_blocks 2 ex_pool))"

lemma ex_pool2_ok:
  "get_new_blocks 2 ex_pool = Inr ([Blk 1, Blk 2], ex_pool2)" "pool_reach id okr (ex_pool2, {#Blk 1, Blk 2#}, \<lambda>_. {})"
proof -
  show e: "get_new_blocks 2 ex_pool = Inr ([Blk 1, Blk 2], ex_pool2)"
    using get_new_blocks_ok [OF ex_pool_ok(2), of 2] by (auto simp: ex_pool2_def)
  show "pool_reach id okr (ex_pool2, {#Blk 1, Blk 2#}, \<lambda>_. {})"
    using pool_reach.step [OF ex_pool_ok(1) pool_step.allocate [OF _ e], of okr] by (simp add: add_mset_commute)
qed

lemma ex_in_pool: "in_pool ex_pool2 (Blk 1)" "in_pool ex_pool2 (Blk 2)" "enable_caching ex_pool"
  "num_gpu_blocks ex_pool2 = 6" "enable_kv_cache_events ex_pool2 = False" "hash_block_size ex_pool2 = 2"
proof -
  have "pool_config ex_pool2 = (6, True, 2, Blk 0, False, False)"
    using get_new_blocks_ok [OF ex_pool_ok(2), of 2] ex_pool2_ok(1) ex_pool_ok(3) by auto
  then show "in_pool ex_pool2 (Blk 1)" "in_pool ex_pool2 (Blk 2)" "num_gpu_blocks ex_pool2 = 6"
    "enable_kv_cache_events ex_pool2 = False" "hash_block_size ex_pool2 = 2"
    by (simp_all add: pool_config_def in_pool_def)
  show "enable_caching ex_pool" using ex_pool_ok(3) by (simp add: pool_config_def)
qed

lemma ex_pool2_inv:
  "pool_inv ex_pool2 [Blk 3, Blk 4, Blk 5]" "alloc_inv ex_pool2 [Blk 3, Blk 4, Blk 5]" "cache_inv ex_pool2"
  "keys_of ex_pool2 b = []"
  using get_new_blocks_inr(3,6) [OF ex_pool_ok(2) _ ex_pool2_ok(1)] ex_pool_ok(4) by (simp_all add: pool_inv_def)

text \<open>Two full blocks of a request are registered.\<close>

definition ex_pool3 :: block_pool where
  "ex_pool3 = projr (cache_full_blocks id (ex_hashed [5, 6, 7, 8]) [Blk 1, Blk 2] 0 2 2 0 None ex_pool2)"

definition ex_reg3 :: registry where
  "ex_reg3 = (\<lambda>b. {(ex_hashed [5, 6, 7, 8], (int i + 1) * 2, 0) | i. 0 \<le> int i \<and> int i < 2 \<and> [Blk 1, Blk 2] ! i = b})"

lemma ex_pool3_ok:
  "cache_full_blocks id (ex_hashed [5, 6, 7, 8]) [Blk 1, Blk 2] 0 2 2 0 None ex_pool2 = Inr ex_pool3"
  "hashes_at ex_pool2 (ex_hashed [5, 6, 7, 8]) 2 = Inr (rq_block_hashes (ex_hashed [5, 6, 7, 8]))"
  "pool_reach id (hashes_ok 2 ex_hash [0] id) (ex_pool3, {#Blk 1, Blk 2#}, ex_reg3)"
  "hash_block_size ex_pool3 = 2" "enable_caching ex_pool3"
proof -
  show h: "hashes_at ex_pool2 (ex_hashed [5, 6, 7, 8]) 2 = Inr (rq_block_hashes (ex_hashed [5, 6, 7, 8]))"
    using ex_in_pool by (simp add: hashes_at_def)
  have k: "list_all (known ex_pool2) [Blk 1, Blk 2]" using ex_in_pool by (simp add: known_def)
  have l: "length (rq_block_hashes (ex_hashed [5, 6, 7, 8])) = 2" by (simp add: ex_hashed_def)
  obtain p' where p': "cache_full_blocks id (ex_hashed [5, 6, 7, 8]) [Blk 1, Blk 2] 0 2 2 0 None ex_pool2 = Inr p'"
    using cache_full_blocks_succeeds [OF ex_pool2_inv(2,3) _ k _ _ _ _ _ h, of 0 2 0 None id] ex_in_pool l ex_pool2_inv(4)
    by auto
  then show c: "cache_full_blocks id (ex_hashed [5, 6, 7, 8]) [Blk 1, Blk 2] 0 2 2 0 None ex_pool2 = Inr ex_pool3"
    by (simp add: ex_pool3_def)
  show "pool_reach id (hashes_ok 2 ex_hash [0] id) (ex_pool3, {#Blk 1, Blk 2#}, ex_reg3)"
    using pool_reach.step [OF ex_pool2_ok(2)
        pool_step.cache_full [OF k _ _ _ c, where okr = "hashes_ok 2 ex_hash [0] id"]] ex_hashed_ok
    by (simp add: ex_reg3_def)
  have "same_alloc ex_pool2 ex_pool3" using cache_full_blocks_ok(1) [OF ex_pool2_inv(2,3) k _ _ _ c] by simp
  then show "hash_block_size ex_pool3 = 2" "enable_caching ex_pool3"
    using get_new_blocks_inr(4) [OF ex_pool_ok(2) _ ex_pool2_ok(1)] ex_pool_ok(3)
    by (simp_all add: same_alloc_def pool_config_def)
qed

lemma found_in_cache:
  assumes c: "cache_inv p" and b: "in_pool p b" "key \<in> set (keys_of p b)"
    and k: "make_block_hash_with_group_id h g = Inr key"
  shows "\<exists>b'. get_cached_block p h [g] = Inr (Some [b']) \<and> in_pool p b' \<and> key \<in> set (keys_of p b')"
proof -
  have g: "0 \<le> g \<and> g < 2 ^ 32" using make_key_err [of g h] k by (cases "0 \<le> g \<and> g < 2 ^ 32") auto
  obtain res where res: "get_cached_loop p h [g] [] = Inr res"
    "case res of
       Some bs \<Rightarrow> \<exists>bs'. bs = [] @ bs' \<and> length bs' = length [g] \<and>
         (\<forall>i < length [g]. \<exists>key. make_block_hash_with_group_id h ([g] ! i) = Inr key \<and>
            in_pool p (bs' ! i) \<and> key \<in> set (keys_of p (bs' ! i)))
     | None \<Rightarrow> \<exists>g \<in> set [g]. \<exists>key. make_block_hash_with_group_id h g = Inr key \<and>
         (\<forall>b. in_pool p b \<longrightarrow> key \<notin> set (keys_of p b))"
    using get_cached_loop_ok [OF c, of "[g]" h "[]"] g by auto
  show ?thesis
  proof (cases res)
    case None
    then show ?thesis using res(2) b k by auto
  next
    case (Some bs)
    then obtain b' where "bs = [b']" "in_pool p b'" "key \<in> set (keys_of p b')"
      using res(2) k by (auto simp: length_Suc_conv)
    then show ?thesis using res(1) Some by (auto simp: get_cached_block_def)
  qed
qed

section \<open>Properties\<close>

text \<open>C6. No double allocation: in every reachable state, \<^verbatim>\<open>get_new_blocks(n)\<close> returns
  exactly \<open>n\<close> distinct blocks of the pool, none of which anybody holds a reference
  to (in particular never the null block), and each has reference count 1
  afterwards.\<close>

theorem pool_no_double_allocation:
  assumes "pool_reach sha256 okr (p, held, reg)" "0 \<le> n" "get_new_blocks n p = Inr (bs, p')"
  shows "int (length bs) = n \<and> distinct bs \<and> set bs \<inter> set_mset held = {} \<and>
    (\<forall>b. b \<in> set bs \<longrightarrow> in_pool p b \<and> ref_cnt (blk p' b) = 1)"
proof -
  obtain xs where xs: "pool_inv p xs" "alloc_inv p xs" "counted p held" using reachD [OF assms(1)] by metis
  note G = get_new_blocks_inr [OF xs(1) assms(2,3)]
  have m: "in_pool p b \<and> ref_cnt (blk p b) = 0" if "b \<in> set bs" for b
    using that G(1) alloc_invD(7) [OF xs(2), of b] in_set_takeD by metis
  have "b \<notin># held" if "b \<in> set bs" for b using m [OF that] xs(3) by (auto simp: counted_def not_in_iff)
  then have "set bs \<inter> set_mset held = {}" by blast
  moreover have "distinct bs" using G(1) alloc_invD(8) [OF xs(2)] by simp
  ultimately show ?thesis using G(2,5) m by simp
qed

theorem pool_no_double_allocation_witness:
  "\<exists>bs p'. get_new_blocks 3 ex_pool2 = Inr (bs, p') \<and> pool_reach id (\<lambda>_. True) (ex_pool2, {#Blk 1, Blk 2#}, \<lambda>_. {}) \<and>
    int (length bs) = 3 \<and> distinct bs \<and> set bs \<inter> set_mset {#Blk 1, Blk 2#} = {} \<and>
    (\<forall>b. b \<in> set bs \<longrightarrow> in_pool ex_pool2 b \<and> ref_cnt (blk p' b) = 1)"
proof -
  obtain bs p' where g: "get_new_blocks 3 ex_pool2 = Inr (bs, p')"
    using get_new_blocks_ok [OF ex_pool2_inv(1), of 3] by auto
  then show ?thesis using pool_no_double_allocation [OF ex_pool2_ok(2) _ g] ex_pool2_ok(2) by auto
qed

text \<open>C7. Conservation: in every reachable state, the walk over the free list ends and
  lists, without repetition, exactly the blocks nobody holds; every block other
  than the null block is either free or held, and the counter of free blocks is
  right.\<close>

theorem pool_conservation:
  assumes "pool_reach sha256 okr (p, held, reg)"
  shows "\<exists>xs. get_all_free_blocks (free_block_queue p) = Inr (Some xs) \<and> distinct xs \<and>
    set xs \<inter> set_mset held = {} \<and> set xs \<union> set_mset held = {b. in_pool p b} \<and>
    get_num_free_blocks p = int (length xs) \<and> int (length xs) + int (card (set_mset held)) = num_gpu_blocks p - 1"
proof -
  obtain xs where xs: "pool_inv p xs" "alloc_inv p xs" "counted p held" using reachD [OF assms] by metis
  have "b \<in> set xs \<longleftrightarrow> in_pool p b \<and> b \<notin># held" for b by (rule free_iff [OF xs(2,3)])
  then have s: "set xs \<inter> set_mset held = {}" "set xs \<union> set_mset held = {b. in_pool p b}"
    using xs(3) by (auto simp: counted_def)
  have "card {b. in_pool p b} = length xs + card (set_mset held)"
    using s card_Un_disjoint [of "set xs" "set_mset held"] distinct_card [OF alloc_invD(8) [OF xs(2)]] by simp
  then have "int (length xs) + int (card (set_mset held)) = num_gpu_blocks p - 1"
    using alloc_invD(1) [OF xs(2)] card_in_pool(1) [of p] by linarith
  then show ?thesis using s get_all_free_blocks_ok [OF alloc_invD(4) [OF xs(2)]] alloc_invD(8,9) [OF xs(2)] by blast
qed

theorem pool_conservation_witness:
  "\<exists>xs. get_all_free_blocks (free_block_queue ex_pool2) = Inr (Some xs) \<and> distinct xs \<and>
    set xs \<inter> set_mset {#Blk 1, Blk 2#} = {} \<and> set xs \<union> set_mset {#Blk 1, Blk 2#} = {b. in_pool ex_pool2 b} \<and>
    get_num_free_blocks ex_pool2 = int (length xs) \<and>
    int (length xs) + int (card (set_mset {#Blk 1, Blk 2#})) = num_gpu_blocks ex_pool2 - 1"
  by (rule pool_conservation [OF ex_pool2_ok(2)])

text \<open>C8. No operation raises on admissible arguments: in every reachable state,
  allocation succeeds exactly when enough blocks are free and raises \<^verbatim>\<open>ValueError\<close>
  otherwise, and touching known blocks and freeing held references always succeed.\<close>

theorem pool_progress:
  assumes "pool_reach sha256 okr (p, held, reg)"
  shows "(0 \<le> n \<longrightarrow> (if n \<le> get_num_free_blocks p then \<exists>bs p'. get_new_blocks n p = Inr (bs, p')
      else get_new_blocks n p = Inl ValueError)) \<and>
    (list_all (known p) bs \<longrightarrow> (\<exists>p'. touch bs p = Inr p')) \<and>
    (list_all (known p) bs \<longrightarrow> real_blocks p bs \<subseteq># held \<longrightarrow> (\<exists>p'. free_blocks bs p = Inr p'))"
proof -
  obtain xs where xs: "pool_inv p xs" "alloc_inv p xs" "counted p held" using reachD [OF assms] by metis
  have "if n \<le> get_num_free_blocks p then \<exists>bs p'. get_new_blocks n p = Inr (bs, p')
      else get_new_blocks n p = Inl ValueError" if "0 \<le> n"
    using get_new_blocks_ok [OF xs(1), of "nat n"] get_new_blocks_too_many [OF xs(1), of n]
      alloc_invD(9) [OF xs(2)] that by (auto simp: nat_le_iff)
  moreover have "\<exists>p'. touch bs p = Inr p'" if "list_all (known p) bs"
    using touch_ok [OF xs(2), of bs] that by (auto simp: list_all_iff)
  moreover have "\<exists>p'. free_blocks bs p = Inr p'" if "list_all (known p) bs" "real_blocks p bs \<subseteq># held"
    using free_blocks_ok [OF xs(2), of bs] held_le [OF xs(3) that(2)] that(1) by (auto simp: list_all_iff)
  ultimately show ?thesis by blast
qed

theorem pool_progress_witness:
  "(\<exists>p'. touch [Blk 2] ex_pool2 = Inr p') \<and> (\<exists>p'. free_blocks [Blk 2] ex_pool2 = Inr p')"
  using pool_progress [OF ex_pool2_ok(2), of 0 "[Blk 2]"] ex_in_pool by (simp add: known_def)

text \<open>C10. Order of eviction: freeing held references puts the blocks that nobody holds
  any more back in one piece; those without a hash go to the front of the free
  list, to be reused first, and those that can still serve a cache hit go to the
  back, in the order in which they were freed, behind every block freed earlier.\<close>

theorem pool_eviction_order:
  assumes "pool_reach sha256 okr (p, held, reg)" "get_all_free_blocks (free_block_queue p) = Inr (Some xs)"
    and "list_all (known p) bs" "real_blocks p bs \<subseteq># held" "free_blocks bs p = Inr p'"
  shows "get_all_free_blocks (free_block_queue p') =
      Inr (Some (filter (\<lambda>b. freed p bs b \<and> block_hash (blk p b) = None) (remdups bs) @ xs @
                 filter (\<lambda>b. freed p bs b \<and> block_hash (blk p b) \<noteq> None) (remdups bs))) \<and>
    (\<forall>b. in_pool p b \<longrightarrow> b \<in> set bs \<longrightarrow> (freed p bs b \<longleftrightarrow> b \<notin># held - real_blocks p bs))"
proof -
  obtain ys where ys: "alloc_inv p ys" "counted p held" using reachD [OF assms(1)] by metis
  have e: "ys = xs" using get_all_free_blocks_ok [OF alloc_invD(4) [OF ys(1)]] assms(2) by simp
  have "alloc_inv p' (filter (\<lambda>b. freed p bs b \<and> block_hash (blk p b) = None) (remdups bs) @ xs @
                 filter (\<lambda>b. freed p bs b \<and> block_hash (blk p b) \<noteq> None) (remdups bs))"
    using free_blocks_ok [OF ys(1), of bs] held_le [OF ys(2) assms(4)] assms(3,5) e by (auto simp: list_all_iff)
  note F = get_all_free_blocks_ok [OF alloc_invD(4) [OF this]]
  have "freed p bs b \<longleftrightarrow> b \<notin># held - real_blocks p bs" if b: "in_pool p b" for b
    using ys(2) b alloc_invD(6) [OF ys(1) b] mset_subset_eq_count [OF assms(4), of b] count_real [OF b, of bs]
    by (auto simp: freed_def counted_def not_in_iff)
  then show ?thesis using F by blast
qed

theorem pool_eviction_order_witness:
  "\<exists>p'. free_blocks [Blk 2, Blk 1] ex_pool2 = Inr p' \<and>
    get_all_free_blocks (free_block_queue p') = Inr (Some [Blk 2, Blk 1, Blk 3, Blk 4, Blk 5])"
proof -
  note a = ex_pool2_inv(2)
  have g: "get_all_free_blocks (free_block_queue ex_pool2) = Inr (Some [Blk 3, Blk 4, Blk 5])"
    by (rule get_all_free_blocks_ok [OF alloc_invD(4) [OF a]])
  have k: "list_all (known ex_pool2) [Blk 2, Blk 1]" using ex_in_pool by (simp add: known_def)
  have h: "real_blocks ex_pool2 [Blk 2, Blk 1] \<subseteq># {#Blk 1, Blk 2#}" using ex_in_pool by (simp add: add_mset_commute)
  obtain xs where xs: "alloc_inv ex_pool2 xs" "counted ex_pool2 {#Blk 1, Blk 2#}" using reachD [OF ex_pool2_ok(2)] by metis
  obtain p' where f: "free_blocks [Blk 2, Blk 1] ex_pool2 = Inr p'"
    using free_blocks_ok [OF a, of "[Blk 2, Blk 1]"] held_le [OF xs(2) h] k by auto
  have nh: "block_hash (blk ex_pool2 b) = None" for b using ex_pool2_inv(4) [of b] by (auto simp: keys_of_def split: option.splits)
  have "freed ex_pool2 [Blk 2, Blk 1] (Blk 1)" "freed ex_pool2 [Blk 2, Blk 1] (Blk 2)"
    using pool_eviction_order [OF ex_pool2_ok(2) g k h f] ex_in_pool by auto
  then show ?thesis using pool_eviction_order [OF ex_pool2_ok(2) g k h f] f nh by auto
qed

text \<open>A block with the key of block \<open>j\<close> of a request was registered for a request with the
  same prefix.\<close>

lemma key_sound:
  assumes "collision_free hf nh" "hash_block_size p = hbs" "enable_caching p"
    and "pool_reach sha256 (hashes_ok hbs hf nh sha256) (p, held, reg)"
    and "hashes_ok hbs hf nh sha256 r'" "j < length (rq_block_hashes r')"
    and key: "make_block_hash_with_group_id (rq_block_hashes r' ! j) g' = Inr key" "in_pool p b" "key \<in> set (keys_of p b)"
  shows "\<exists>r. (r, (int j + 1) * hbs, g') \<in> reg b \<and>
    take (Suc j * nat hbs) (all_token_ids r) = take (Suc j * nat hbs) (all_token_ids r') \<and>
    (\<forall>k \<le> j. extra_keys sha256 r (int k * hbs) (int k * hbs + hbs) =
      extra_keys sha256 r' (int k * hbs) (int k * hbs + hbs))"
proof -
  have reg: "registered (hashes_ok hbs hf nh sha256) p reg" using reachD [OF assms(4)] by metis
  have hbs: "0 < hbs" using reg assms(2) by (simp add: registered_def)
  let ?h = "rq_block_hashes r' ! j"
  obtain r n g where x: "(r, n, g) \<in> reg b" "reg_ok (hashes_ok hbs hf nh sha256) hbs (r, n, g)" "reg_key hbs (r, n, g) = Inr key"
    using registeredD [OF reg assms(3) key(2,3)] assms(2) by auto
  let ?k = "nat (n div hbs - 1)"
  have n: "n mod hbs = 0" "0 < n div hbs" "?k < length (rq_block_hashes r)" and ok: "hashes_ok hbs hf nh sha256 r"
    using x(2) by auto
  have e: "rq_block_hashes r ! ?k = ?h" "g = g'" using make_key_inj [of _ g key ?h g'] x(3) key(1) by auto
  have "chain_hash hbs hf nh sha256 r ?k = chain_hash hbs hf nh sha256 r' j"
    using ok assms(5,6) n(3) e(1) by (simp add: hashes_ok_def)
  note C = chain_hash_eq [OF assms(1) this]
  have "n = (int j + 1) * hbs" using conjunct1 [OF C] n(1,2) div_mult_mod_eq [of n hbs] by (metis add.commute add_0
        diff_add_cancel int_nat_eq less_imp_le not_less zle_diff1_eq zless_imp_add1_zle)
  then show ?thesis using x(1) e(2) C take_blocks [OF hbs, of "Suc j" r r']
    by (intro exI [of _ r]) (auto simp: less_Suc_eq_le)
qed

text \<open>C1. Prefix-cache hits are sound: when the hash function has no collisions and all
  requests carry the hashes of their full blocks, every block that a lookup of the
  hash of block \<open>j\<close> of a request returns was registered, since it was last allocated
  to anyone, as the block that ends the prefix of \<open>(j + 1) * hash_block_size\<close> tokens
  of some request in the same KV cache group, and that request has the same tokens
  and the same extra keys (LoRA, images, salt, embeddings) up to there.\<close>

theorem prefix_cache_sound:
  assumes "collision_free hf nh" "hash_block_size p = hbs" "enable_caching p"
    and "pool_reach sha256 (hashes_ok hbs hf nh sha256) (p, held, reg)"
    and "hashes_ok hbs hf nh sha256 r'" "j < length (rq_block_hashes r')"
    and "get_cached_block p (rq_block_hashes r' ! j) gs = Inr (Some bs)" "list_all (\<lambda>g. 0 \<le> g \<and> g < 2 ^ 32) gs"
  shows "length bs = length gs \<and> (\<forall>i. i < length gs \<longrightarrow> in_pool p (bs ! i) \<and>
    (\<exists>r. (r, (int j + 1) * hbs, gs ! i) \<in> reg (bs ! i) \<and>
      take (Suc j * nat hbs) (all_token_ids r) = take (Suc j * nat hbs) (all_token_ids r') \<and>
      (\<forall>k \<le> j. extra_keys sha256 r (int k * hbs) (int k * hbs + hbs) =
        extra_keys sha256 r' (int k * hbs) (int k * hbs + hbs))))"
proof -
  have c: "cache_inv p" using reachD [OF assms(4)] by metis
  have L: "length bs = length gs" "\<And>i. i < length gs \<Longrightarrow> \<exists>key. make_block_hash_with_group_id (rq_block_hashes r' ! j) (gs ! i) = Inr key \<and>
            in_pool p (bs ! i) \<and> key \<in> set (keys_of p (bs ! i))"
    using get_cached_loop_ok [OF c, of gs "rq_block_hashes r' ! j" "[]"] assms(7,8) by (auto simp: get_cached_block_def list_all_iff)
  then show ?thesis using key_sound [OF assms(1-6)] by blast
qed

theorem prefix_cache_sound_witness:
  "\<exists>b r. get_cached_block ex_pool3 (rq_block_hashes (ex_hashed [5, 6, 9]) ! 0) [0] = Inr (Some [b]) \<and>
    (r, 2, 0) \<in> ex_reg3 b \<and> take 2 (all_token_ids r) = take 2 (all_token_ids (ex_hashed [5, 6, 9]))"
proof -
  have k: "list_all (known ex_pool2) [Blk 1, Blk 2]" using ex_in_pool by (simp add: known_def)
  have d: "distinct (filter (in_pool ex_pool2) [Blk 1, Blk 2])" by simp
  note C = cache_full_blocks_ok [OF ex_pool2_inv(2,3) k d _ _ ex_pool3_ok(1), simplified]
  have r: "registers ex_pool2 None 0 (Blk 1)" using ex_in_pool by (simp add: registers_def masked_out_def)
  obtain key where key: "make_block_hash_with_group_id (rq_block_hashes (ex_hashed [5, 6, 7, 8]) ! 0) 0 = Inr key"
    "keys_of ex_pool3 (Blk 1) = [key]"
    using C(3) [of 0] r ex_pool3_ok(2) by auto
  have h: "rq_block_hashes (ex_hashed [5, 6, 7, 8]) ! 0 = rq_block_hashes (ex_hashed [5, 6, 9]) ! 0"
    by (simp add: ex_hashed_def ex_request_def extra_keys_def gen_lora_extra_hash_keys_def mm_block_keys_def
        salt_keys_def embeds_keys_def py_slice_def slice_bound_def)
  have "in_pool ex_pool3 (Blk 1)" using ex_in_pool(1) in_pool_config [OF same_allocD [OF C(1)]] by simp
  then obtain b where b: "get_cached_block ex_pool3 (rq_block_hashes (ex_hashed [5, 6, 9]) ! 0) [0] = Inr (Some [b])"
    using found_in_cache [OF C(2) _ _ key(1) [unfolded h], of "Blk 1"] key(2) by auto
  have "0 < length (rq_block_hashes (ex_hashed [5, 6, 9]))" by (simp add: ex_hashed_def)
  then show ?thesis
    using prefix_cache_sound [OF ex_hash_collision_free ex_pool3_ok(4,5,3) ex_hashed_ok _ b] b by auto
qed

text \<open>C9. What was registered is found: after \<^verbatim>\<open>cache_full_blocks\<close> returns, looking up the
  hash of any block of the slice that is neither the null block nor masked out hits
  in its group, in a block that carries this key.\<close>

theorem registered_block_is_found:
  assumes "pool_reach sha256 okr (p, held, reg)" "list_all (known p) blocks" "distinct (filter (in_pool p) blocks)"
    and "0 \<le> nc" "nf \<le> int (length blocks)" "cache_full_blocks sha256 r blocks nc nf bs gid bmask p = Inr p'"
    and "nc \<le> int i" "int i < nf" "registers p bmask (int i - nc) (blocks ! i)" "hashes_at p r bs = Inr hashes"
  shows "\<exists>b key. get_cached_block p' (hashes ! i) [gid] = Inr (Some [b]) \<and> in_pool p' b \<and>
    make_block_hash_with_group_id (hashes ! i) gid = Inr key \<and> key \<in> set (keys_of p' b)"
proof -
  obtain xs where xs: "alloc_inv p xs" "cache_inv p" using reachD [OF assms(1)] by metis
  note C = cache_full_blocks_ok [OF xs assms(2-6)]
  obtain key where key: "make_block_hash_with_group_id (hashes ! i) gid = Inr key" "keys_of p' (blocks ! i) = [key]"
    using C(3) [OF assms(7-9)] assms(10) by auto
  have "in_pool p' (blocks ! i)"
    using assms(9) in_pool_config [OF same_allocD [OF C(1)]] by (simp add: registers_def)
  then show ?thesis using found_in_cache [OF C(2) _ _ key(1), of "blocks ! i"] key by auto
qed

theorem registered_block_is_found_witness:
  "\<exists>b key. get_cached_block ex_pool3 (rq_block_hashes (ex_hashed [5, 6, 7, 8]) ! 1) [0] = Inr (Some [b]) \<and> in_pool ex_pool3 b \<and>
    make_block_hash_with_group_id (rq_block_hashes (ex_hashed [5, 6, 7, 8]) ! 1) 0 = Inr key \<and> key \<in> set (keys_of ex_pool3 b)"
  by (rule registered_block_is_found [OF ex_pool2_ok(2) _ _ _ _ ex_pool3_ok(1) _ _ _ ex_pool3_ok(2)])
    (simp_all add: known_def ex_in_pool ex_in_pool(1) [simplified] registers_def masked_out_def)

text \<open>C11. Resetting the prefix cache succeeds exactly when nobody holds a block; it then
  leaves the references and the free list as they were, and no lookup hits any more;
  otherwise it changes nothing.\<close>

theorem pool_reset_correct:
  assumes "pool_reach sha256 okr (p, held, reg)" "gs \<noteq> []" "list_all (\<lambda>g. 0 \<le> g \<and> g < 2 ^ 32) gs"
  shows "(fst (pool_reset_prefix_cache p) \<longleftrightarrow> held = {#}) \<and> same_alloc p (snd (pool_reset_prefix_cache p)) \<and>
    (if held = {#} then get_cached_block (snd (pool_reset_prefix_cache p)) h gs = Inr None
     else snd (pool_reset_prefix_cache p) = p)"
proof -
  obtain xs where xs: "alloc_inv p xs" "cache_inv p" "counted p held" using reachD [OF assms(1)] by metis
  note R = reset_ok [OF xs(1,2)]
  have m: "set xs = {b. in_pool p b} - set_mset held" using free_iff [OF xs(1,3)] by blast
  have sub: "set_mset held \<subseteq> {b. in_pool p b}" using xs(3) by (auto simp: counted_def)
  have "length xs = card {b. in_pool p b} - card (set_mset held)"
    using card_Diff_subset [OF _ sub] distinct_card [OF alloc_invD(8) [OF xs(1)]] m by simp
  then have "int (length xs) = num_gpu_blocks p - 1 \<longleftrightarrow> card (set_mset held) = 0"
    using card_in_pool(1) [of p] card_mono [OF card_in_pool(2) sub] alloc_invD(1) [OF xs(1)] by linarith
  then have F: "fst (pool_reset_prefix_cache p) \<longleftrightarrow> held = {#}" using R(1) by auto
  have "get_cached_block (snd (pool_reset_prefix_cache p)) h gs = Inr None" if e: "held = {#}"
  proof -
    obtain g gs' where gs: "gs = g # gs'" "0 \<le> g" "g < 2 ^ 32" using assms(2,3) by (cases gs) auto
    obtain key where "make_block_hash_with_group_id h g = Inr key" using make_key_ok [OF gs(2,3)] by blast
    then show ?thesis
      using R(4) F e get_one_block_ok [OF cache_invD(1) [OF R(3)]] gs(1) by (simp add: get_cached_block_def)
  qed
  then show ?thesis using F R(2,5) by simp
qed

theorem pool_reset_correct_witness:
  "fst (pool_reset_prefix_cache ex_pool) \<and> get_cached_block (snd (pool_reset_prefix_cache ex_pool)) [1] [0] = Inr None \<and>
    \<not> fst (pool_reset_prefix_cache ex_pool3) \<and> snd (pool_reset_prefix_cache ex_pool3) = ex_pool3"
  using pool_reset_correct [OF ex_pool_ok(1), of "[0]" "[1]"] pool_reset_correct [OF ex_pool3_ok(3), of "[0]" "[1]"] by simp

end
