(* ===== verification/KV_Spec.thy ===== *)
theory KV_Spec
  imports Prelude
begin

text \<open>
  \<^verbatim>\<open>vllm/v1/kv_cache_interface.py\<close>: the KV cache specifications of the attention
  types, their page sizes, the memory a request may need, and the classification
  of specifications that the managers, the coordinator and the event metadata use;
  with the table of \<^verbatim>\<open>register_all_kvcache_specs\<close> and the lookups of
  \<^verbatim>\<open>vllm/v1/kv_cache_spec_registry.py\<close> on it.  A torch dtype is a name with the size
  of an element.  The dataclass hierarchy is one datatype with a constructor per
  concrete class; \<^verbatim>\<open>isinstance\<close> tests are functions on it.
\<close>

section \<open>Quantization modes\<close>

datatype kv_quant_mode = QM_NONE | FP8_PER_TENSOR | INT8_PER_TOKEN_HEAD | FP8_PER_TOKEN_HEAD
  | INT4_PER_TOKEN_HEAD | NVFP4

definition is_per_token_head :: "kv_quant_mode \<Rightarrow> bool" where
  "is_per_token_head m \<longleftrightarrow> m \<in> {INT8_PER_TOKEN_HEAD, FP8_PER_TOKEN_HEAD, INT4_PER_TOKEN_HEAD}"

definition is_nvfp4 :: "kv_quant_mode \<Rightarrow> bool" where
  "is_nvfp4 m \<longleftrightarrow> m = NVFP4"

definition get_kv_quant_mode :: "string \<Rightarrow> kv_quant_mode" where
  "get_kv_quant_mode s =
    (if s = ''int4_per_token_head'' then INT4_PER_TOKEN_HEAD
     else if s = ''int8_per_token_head'' then INT8_PER_TOKEN_HEAD
     else if s = ''fp8_per_token_head'' then FP8_PER_TOKEN_HEAD
     else if s = ''nvfp4'' then NVFP4
     else if prefix ''fp8'' s then FP8_PER_TENSOR
     else QM_NONE)"

definition is_quantized_kv_cache :: "string \<Rightarrow> bool" where
  "is_quantized_kv_cache s \<longleftrightarrow> get_kv_quant_mode s \<noteq> QM_NONE"

definition kv_cache_uses_per_token_head_scales :: "string \<Rightarrow> bool" where
  "kv_cache_uses_per_token_head_scales s \<longleftrightarrow> is_per_token_head (get_kv_quant_mode s)"

section \<open>Specifications\<close>

record torch_dtype =
  dt_name :: string
  dt_itemsize :: int

record attention_spec =
  as_block_size :: int
  num_kv_heads :: int
  head_size :: int
  as_dtype :: torch_dtype
  as_quant_mode :: kv_quant_mode
  page_size_padded :: "int option"
  indexes_kv_by_block_stride :: bool

record full_spec = attention_spec +
  head_size_v :: int
  fs_sliding_window :: "int option"
  fs_attention_chunk_size :: "int option"
  non_causal :: bool

record mla_fields =
  cache_dtype_str :: "string option"
  mla_alignment :: "int option"
  compress_ratio :: int
  model_version :: "string option"

record mamba_spec =
  ms_block_size :: int
  ms_shapes :: "int list list"
  ms_dtypes :: "torch_dtype list"
  ms_page_size_padded :: "int option"
  ms_mamba_type :: string
  mamba_cache_mode :: string
  num_speculative_blocks :: int

datatype kv_spec =
    FullAttentionSpec full_spec
  | TQFullAttentionSpec full_spec int
  | MLAAttentionSpec full_spec mla_fields
  | HiddenStateCacheSpec full_spec mla_fields
  | RSWASpec full_spec int
  | SinkFullAttentionSpec full_spec "int option"
  | ChunkedLocalAttentionSpec attention_spec int
  | SlidingWindowSpec attention_spec int int
  | SlidingWindowMLASpec attention_spec int mla_fields
  | MambaSpec mamba_spec
  | EncoderOnlyAttentionSpec attention_spec
  | CrossAttentionSpec attention_spec
  | UniformTypeKVCacheSpecs int "(string \<times> kv_spec) list"

fun spec_block_size :: "kv_spec \<Rightarrow> int" where
  "spec_block_size (FullAttentionSpec f) = as_block_size f"
| "spec_block_size (TQFullAttentionSpec f _) = as_block_size f"
| "spec_block_size (MLAAttentionSpec f _) = as_block_size f"
| "spec_block_size (HiddenStateCacheSpec f _) = as_block_size f"
| "spec_block_size (RSWASpec f _) = as_block_size f"
| "spec_block_size (SinkFullAttentionSpec f _) = as_block_size f"
| "spec_block_size (ChunkedLocalAttentionSpec a _) = as_block_size a"
| "spec_block_size (SlidingWindowSpec a _ _) = as_block_size a"
| "spec_block_size (SlidingWindowMLASpec a _ _) = as_block_size a"
| "spec_block_size (MambaSpec m) = ms_block_size m"
| "spec_block_size (EncoderOnlyAttentionSpec a) = as_block_size a"
| "spec_block_size (CrossAttentionSpec a) = as_block_size a"
| "spec_block_size (UniformTypeKVCacheSpecs bs _) = bs"

text \<open>\<^verbatim>\<open>isinstance\<close> for the classes that have subclasses.\<close>

fun is_FullAttentionSpec :: "kv_spec \<Rightarrow> bool" where
  "is_FullAttentionSpec (FullAttentionSpec _) = True"
| "is_FullAttentionSpec (TQFullAttentionSpec _ _) = True"
| "is_FullAttentionSpec (MLAAttentionSpec _ _) = True"
| "is_FullAttentionSpec (HiddenStateCacheSpec _ _) = True"
| "is_FullAttentionSpec (RSWASpec _ _) = True"
| "is_FullAttentionSpec (SinkFullAttentionSpec _ _) = True"
| "is_FullAttentionSpec _ = False"

fun is_SlidingWindowSpec :: "kv_spec \<Rightarrow> bool" where
  "is_SlidingWindowSpec (SlidingWindowSpec _ _ _) = True"
| "is_SlidingWindowSpec (SlidingWindowMLASpec _ _ _) = True"
| "is_SlidingWindowSpec _ = False"

fun is_MambaSpec :: "kv_spec \<Rightarrow> bool" where
  "is_MambaSpec (MambaSpec _) = True"
| "is_MambaSpec _ = False"

fun is_ChunkedLocalAttentionSpec :: "kv_spec \<Rightarrow> bool" where
  "is_ChunkedLocalAttentionSpec (ChunkedLocalAttentionSpec _ _) = True"
| "is_ChunkedLocalAttentionSpec _ = False"

fun is_CrossAttentionSpec :: "kv_spec \<Rightarrow> bool" where
  "is_CrossAttentionSpec (CrossAttentionSpec _) = True"
| "is_CrossAttentionSpec _ = False"

fun spec_sliding_window :: "kv_spec \<Rightarrow> int option" where
  "spec_sliding_window (SlidingWindowSpec _ w _) = Some w"
| "spec_sliding_window (SlidingWindowMLASpec _ w _) = Some w"
| "spec_sliding_window _ = None"

section \<open>Page sizes\<close>

definition nvfp4_kv_cache_full_dim :: "int \<Rightarrow> int" where
  "nvfp4_kv_cache_full_dim n = n div 2 + n div 16"

definition attention_real_page_size :: "('a attention_spec_scheme) \<Rightarrow> int" where
  "attention_real_page_size a =
    (let head_dim = (if is_nvfp4 (as_quant_mode a) then nvfp4_kv_cache_full_dim (head_size a)
                     else if as_quant_mode a = INT4_PER_TOKEN_HEAD then head_size a div 2 else head_size a)
     in 2 * as_block_size a * num_kv_heads a * head_dim * dt_itemsize (as_dtype a))"

definition full_real_page_size :: "full_spec \<Rightarrow> int" where
  "full_real_page_size f =
    (let last_dim = (if is_nvfp4 (as_quant_mode f)
                     then nvfp4_kv_cache_full_dim (head_size f) + nvfp4_kv_cache_full_dim (head_size_v f)
                     else if as_quant_mode f = INT4_PER_TOKEN_HEAD then head_size f div 2 + head_size_v f div 2
                     else head_size f + head_size_v f)
     in as_block_size f * num_kv_heads f * last_dim * dt_itemsize (as_dtype f))"

definition tq_real_page_size :: "full_spec \<Rightarrow> int \<Rightarrow> int" where
  "tq_real_page_size f tq_slot_size =
    (if tq_slot_size > 0 then as_block_size f * num_kv_heads f * tq_slot_size else full_real_page_size f)"

definition mla_storage_block_size :: "('a attention_spec_scheme) \<Rightarrow> mla_fields \<Rightarrow> int" where
  "mla_storage_block_size a m = as_block_size a div compress_ratio m"

definition mla_real_page_size :: "full_spec \<Rightarrow> mla_fields \<Rightarrow> int" where
  "mla_real_page_size f m =
    (if cache_dtype_str m = Some ''fp8_ds_mla''
     then if model_version m = Some ''deepseek_v4'' then mla_storage_block_size f m * 584 else as_block_size f * 656
     else let head_dim = (if as_quant_mode f = INT4_PER_TOKEN_HEAD then head_size f div 2 else head_size f)
          in mla_storage_block_size f m * num_kv_heads f * head_dim * dt_itemsize (as_dtype f))"

definition sliding_real_page_size :: "attention_spec \<Rightarrow> int \<Rightarrow> int" where
  "sliding_real_page_size a hv =
    (if is_nvfp4 (as_quant_mode a)
     then as_block_size a * num_kv_heads a *
       (nvfp4_kv_cache_full_dim (head_size a) + nvfp4_kv_cache_full_dim hv) * dt_itemsize (as_dtype a)
     else as_block_size a * num_kv_heads a * (head_size a + hv) * dt_itemsize (as_dtype a))"

definition sliding_mla_real_page_size :: "attention_spec \<Rightarrow> mla_fields \<Rightarrow> int result" where
  "sliding_mla_real_page_size a m =
    (if model_version m = Some ''deepseek_v4'' \<and> cache_dtype_str m = Some ''fp8_ds_mla''
     then Inr (mla_storage_block_size a m * 584)
     else py_assert (model_version m \<in> {None, Some ''deepseek_v4''})
       (Inr (mla_storage_block_size a m * num_kv_heads a * head_size a * dt_itemsize (as_dtype a))))"

fun real_page_size_bytes :: "kv_spec \<Rightarrow> int result" where
  "real_page_size_bytes (FullAttentionSpec f) = Inr (full_real_page_size f)"
| "real_page_size_bytes (TQFullAttentionSpec f t) = Inr (tq_real_page_size f t)"
| "real_page_size_bytes (MLAAttentionSpec f m) = Inr (mla_real_page_size f m)"
| "real_page_size_bytes (HiddenStateCacheSpec f m) = Inr (mla_real_page_size f m)"
| "real_page_size_bytes (RSWASpec f _) = Inr (full_real_page_size f)"
| "real_page_size_bytes (SinkFullAttentionSpec f _) = Inr (full_real_page_size f)"
| "real_page_size_bytes (ChunkedLocalAttentionSpec a _) = Inr (attention_real_page_size a)"
| "real_page_size_bytes (SlidingWindowSpec a _ hv) = Inr (sliding_real_page_size a hv)"
| "real_page_size_bytes (SlidingWindowMLASpec a _ m) = sliding_mla_real_page_size a m"
| "real_page_size_bytes (EncoderOnlyAttentionSpec a) = Inr (attention_real_page_size a)"
| "real_page_size_bytes (CrossAttentionSpec a) = Inr (attention_real_page_size a)"
| "real_page_size_bytes _ = Inl AttributeError"

text \<open>\<^verbatim>\<open>AttentionSpec.page_size_bytes\<close> on top of the real page size; a float32 has four
  bytes.\<close>

definition attention_page_size :: "('a attention_spec_scheme) \<Rightarrow> int \<Rightarrow> int result" where
  "attention_page_size a real =
    (let real = (if is_per_token_head (as_quant_mode a) then real + 2 * as_block_size a * num_kv_heads a * 4 else real)
     in case page_size_padded a of None \<Rightarrow> Inr real | Some n \<Rightarrow> py_assert (n \<ge> real) (Inr n))"

definition mamba_page_size :: "mamba_spec \<Rightarrow> int result" where
  "mamba_page_size m =
    (let page_size = sum_list (map (\<lambda>(shape, dtype). prod_list shape * dt_itemsize dtype) (zip (ms_shapes m) (ms_dtypes m)))
     in case ms_page_size_padded m of None \<Rightarrow> Inr page_size | Some n \<Rightarrow> py_assert (n \<ge> page_size) (Inr n))"

text \<open>The first exception, or the list of the values.\<close>

fun collect :: "'a result list \<Rightarrow> 'a list result" where
  "collect [] = Inr []"
| "collect (r # rs) = rbind r (\<lambda>x. rbind (collect rs) (\<lambda>xs. Inr (x # xs)))"

fun page_size_bytes :: "kv_spec \<Rightarrow> int result" where
  "page_size_bytes (FullAttentionSpec f) = attention_page_size f (full_real_page_size f)"
| "page_size_bytes (TQFullAttentionSpec f t) = attention_page_size f (tq_real_page_size f t)"
| "page_size_bytes (MLAAttentionSpec f m) = attention_page_size f (mla_real_page_size f m)"
| "page_size_bytes (HiddenStateCacheSpec f m) = attention_page_size f (mla_real_page_size f m)"
| "page_size_bytes (RSWASpec f _) = attention_page_size f (full_real_page_size f)"
| "page_size_bytes (SinkFullAttentionSpec f _) = attention_page_size f (full_real_page_size f)"
| "page_size_bytes (ChunkedLocalAttentionSpec a _) = attention_page_size a (attention_real_page_size a)"
| "page_size_bytes (SlidingWindowSpec a _ hv) = attention_page_size a (sliding_real_page_size a hv)"
| "page_size_bytes (SlidingWindowMLASpec a _ m) = rbind (sliding_mla_real_page_size a m) (attention_page_size a)"
| "page_size_bytes (MambaSpec m) = mamba_page_size m"
| "page_size_bytes (EncoderOnlyAttentionSpec a) = attention_page_size a (attention_real_page_size a)"
| "page_size_bytes (CrossAttentionSpec a) = attention_page_size a (attention_real_page_size a)"
| "page_size_bytes (UniformTypeKVCacheSpecs _ specs) =
    rbind (collect (map (\<lambda>x. page_size_bytes (snd x)) specs)) (\<lambda>l. Inr (sum_list l))"

fun storage_block_size :: "kv_spec \<Rightarrow> int" where
  "storage_block_size (MLAAttentionSpec f m) = mla_storage_block_size f m"
| "storage_block_size (HiddenStateCacheSpec f m) = mla_storage_block_size f m"
| "storage_block_size (SlidingWindowMLASpec a _ m) = mla_storage_block_size a m"
| "storage_block_size s = spec_block_size s"

text \<open>The padding that the constructor of an MLA specification sets; \<open>cls\<close> is the class constructed,
  \<^const>\<open>MLAAttentionSpec\<close> or its subclass \<^const>\<open>HiddenStateCacheSpec\<close>.\<close>

definition apply_alignment_padding :: "mla_fields \<Rightarrow> int \<Rightarrow> 'a attention_spec_scheme \<Rightarrow> 'a attention_spec_scheme" where
  "apply_alignment_padding m actual_page_size a =
    (case mla_alignment m of
       None \<Rightarrow> a
     | Some al \<Rightarrow>
         let padded_page_size = round_up actual_page_size al
         in if padded_page_size \<noteq> actual_page_size then a\<lparr>page_size_padded := Some padded_page_size\<rparr> else a)"

definition new_MLAAttentionSpec :: "(full_spec \<Rightarrow> mla_fields \<Rightarrow> kv_spec) \<Rightarrow> full_spec \<Rightarrow> mla_fields \<Rightarrow> kv_spec" where
  "new_MLAAttentionSpec cls f m = cls (apply_alignment_padding m (mla_real_page_size f m) f) m"

definition new_SlidingWindowMLASpec :: "attention_spec \<Rightarrow> int \<Rightarrow> mla_fields \<Rightarrow> kv_spec result" where
  "new_SlidingWindowMLASpec a w m =
    (if mla_alignment m = None then Inr (SlidingWindowMLASpec a w m)
     else rbind (sliding_mla_real_page_size a m) (\<lambda>real. Inr (SlidingWindowMLASpec (apply_alignment_padding m real a) w m)))"

section \<open>Memory a request may need\<close>

record sizing_config =
  sz_max_model_len :: int
  sz_dcp :: int
  sz_pcp :: int
  sz_max_num_batched_tokens :: int
  sz_mamba_cache_mode :: string
  sz_max_num_encoder_input_tokens :: int

definition chunked_max_admission_blocks :: "attention_spec \<Rightarrow> int \<Rightarrow> int \<Rightarrow> int \<Rightarrow> int" where
  "chunked_max_admission_blocks a chunk max_num_batched_tokens max_model_len =
    cdiv (min (chunk + max_num_batched_tokens) max_model_len) (as_block_size a)"

definition sliding_max_admission_blocks :: "attention_spec \<Rightarrow> int \<Rightarrow> int \<Rightarrow> int \<Rightarrow> int" where
  "sliding_max_admission_blocks a window max_num_batched_tokens max_model_len =
    cdiv (min (window - 1 + max_num_batched_tokens) max_model_len) (as_block_size a) + 1"

definition full_max_pages :: "sizing_config \<Rightarrow> int \<Rightarrow> int" where
  "full_max_pages c bs =
    (let max_model_len = (if sz_dcp c * sz_pcp c > 1 then cdiv (sz_max_model_len c) (sz_dcp c * sz_pcp c)
                          else sz_max_model_len c)
     in cdiv max_model_len bs)"

definition mamba_max_pages :: "sizing_config \<Rightarrow> mamba_spec \<Rightarrow> int" where
  "mamba_max_pages c m =
    (if sz_mamba_cache_mode c = ''all'' then cdiv (sz_max_model_len c) (ms_block_size m) + num_speculative_blocks m
     else if sz_mamba_cache_mode c = ''align'' then 2 + num_speculative_blocks m
     else 1 + num_speculative_blocks m)"

definition py_max :: "int list \<Rightarrow> int result" where
  "py_max l = (if l = [] then Inl ValueError else Inr (Max (set l)))"

text \<open>\<^verbatim>\<open>cdiv\<close> where the divisor may be zero.\<close>

definition py_cdiv :: "int \<Rightarrow> int \<Rightarrow> int result" where
  "py_cdiv a b = (if b = 0 then Inl ZeroDivisionError else Inr (cdiv a b))"

fun max_memory_usage_bytes :: "sizing_config \<Rightarrow> kv_spec \<Rightarrow> int result" where
  "max_memory_usage_bytes c (ChunkedLocalAttentionSpec a chunk) =
    rbind (page_size_bytes (ChunkedLocalAttentionSpec a chunk)) (\<lambda>ps.
      Inr (chunked_max_admission_blocks a chunk (sz_max_num_batched_tokens c) (sz_max_model_len c) * ps))"
| "max_memory_usage_bytes c (SlidingWindowSpec a w hv) =
    py_assert (sz_dcp c = 1) (rbind (page_size_bytes (SlidingWindowSpec a w hv)) (\<lambda>ps.
      Inr (sliding_max_admission_blocks a w (sz_max_num_batched_tokens c) (sz_max_model_len c) * ps)))"
| "max_memory_usage_bytes c (SlidingWindowMLASpec a w m) =
    py_assert (sz_dcp c = 1) (rbind (page_size_bytes (SlidingWindowMLASpec a w m)) (\<lambda>ps.
      Inr (sliding_max_admission_blocks a w (sz_max_num_batched_tokens c) (sz_max_model_len c) * ps)))"
| "max_memory_usage_bytes c (MambaSpec m) =
    rbind (mamba_page_size m) (\<lambda>ps. Inr (mamba_max_pages c m * ps))"
| "max_memory_usage_bytes c (EncoderOnlyAttentionSpec a) = Inr 0"
| "max_memory_usage_bytes c (CrossAttentionSpec a) =
    rbind (page_size_bytes (CrossAttentionSpec a)) (\<lambda>ps.
      Inr (cdiv (sz_max_num_encoder_input_tokens c) (as_block_size a) * ps))"
| "max_memory_usage_bytes c (UniformTypeKVCacheSpecs bs specs) =
    rbind (collect (map (\<lambda>x. rbind (max_memory_usage_bytes c (snd x)) (\<lambda>m.
      rbind (page_size_bytes (snd x)) (\<lambda>ps. py_cdiv m ps))) specs)) (\<lambda>pages.
    rbind (py_max pages) (\<lambda>n.
    rbind (page_size_bytes (UniformTypeKVCacheSpecs bs specs)) (\<lambda>ps. Inr (n * ps))))"
| "max_memory_usage_bytes c s =
    rbind (page_size_bytes s) (\<lambda>ps. Inr (full_max_pages c (spec_block_size s) * ps))"

section \<open>Merging the specifications of the layers of a group\<close>

definition merge_window_sizes :: "int list \<Rightarrow> int option result" where
  "merge_window_sizes sizes =
    (case remdups sizes of [] \<Rightarrow> Inr None | [w] \<Rightarrow> Inr (Some w) | _ \<Rightarrow> Inl ValueError)"

text \<open>\<^verbatim>\<open>KVCacheSpec.merge\<close>, for the classes that do not override it.\<close>

definition merge_equal :: "kv_spec list \<Rightarrow> kv_spec result" where
  "merge_equal specs =
    (case specs of [] \<Rightarrow> Inl IndexError | s # rest \<Rightarrow> py_assert (list_all (\<lambda>x. x = s) rest) (Inr s))"

fun full_part :: "kv_spec \<Rightarrow> full_spec option" where
  "full_part (FullAttentionSpec f) = Some f"
| "full_part (TQFullAttentionSpec f _) = Some f"
| "full_part (MLAAttentionSpec f _) = Some f"
| "full_part (HiddenStateCacheSpec f _) = Some f"
| "full_part (RSWASpec f _) = Some f"
| "full_part (SinkFullAttentionSpec f _) = Some f"
| "full_part _ = None"

fun is_MLAAttentionSpec :: "kv_spec \<Rightarrow> bool" where
  "is_MLAAttentionSpec (MLAAttentionSpec _ _) = True"
| "is_MLAAttentionSpec (HiddenStateCacheSpec _ _) = True"
| "is_MLAAttentionSpec _ = False"

text \<open>The body shared by \<^verbatim>\<open>FullAttentionSpec.merge\<close> and \<^verbatim>\<open>SinkFullAttentionSpec.merge\<close>: the
  fields of the merged specification.\<close>

definition full_merge :: "kv_spec list \<Rightarrow> full_spec result" where
  "full_merge specs =
    py_assert (list_all is_FullAttentionSpec specs)
      (let fs = map (\<lambda>s. the (full_part s)) specs in
       py_assert (\<not> list_ex is_MLAAttentionSpec specs)
      (case fs of
         [] \<Rightarrow> Inl IndexError
       | f # _ \<Rightarrow>
           rbind (merge_window_sizes (List.map_filter fs_sliding_window fs)) (\<lambda>sw.
           rbind (merge_window_sizes (List.map_filter fs_attention_chunk_size fs)) (\<lambda>cs.
             let merged = f\<lparr>fs_sliding_window := sw, fs_attention_chunk_size := cs, non_causal := list_ex non_causal fs\<rparr> in
             py_assert (list_all (\<lambda>x. attention_spec.truncate x = attention_spec.truncate merged) fs)
            (py_assert (\<not> (sw \<noteq> None \<and> cs \<noteq> None)) (Inr merged))))))"

definition merge_FullAttentionSpec :: "kv_spec list \<Rightarrow> kv_spec result" where
  "merge_FullAttentionSpec specs = rbind (full_merge specs) (\<lambda>f. Inr (FullAttentionSpec f))"

definition merge_TQFullAttentionSpec :: "(full_spec \<times> int) list \<Rightarrow> kv_spec result" where
  "merge_TQFullAttentionSpec specs =
    rbind (full_merge (map (\<lambda>(f, t). TQFullAttentionSpec f t) specs)) (\<lambda>f.
      let t = snd (hd specs) in py_assert (list_all (\<lambda>s. snd s = t) specs) (Inr (TQFullAttentionSpec f t)))"

definition merge_RSWASpec :: "kv_spec list \<Rightarrow> kv_spec result" where
  "merge_RSWASpec specs =
    py_assert (list_all (\<lambda>s. case s of RSWASpec _ _ \<Rightarrow> True | _ \<Rightarrow> False) specs)
      (case remdups (List.map_filter (\<lambda>s. case s of RSWASpec _ w \<Rightarrow> Some w | _ \<Rightarrow> None) specs) of
         [w] \<Rightarrow> rbind (full_merge specs) (\<lambda>f. Inr (RSWASpec f w))
       | _ \<Rightarrow> Inl AssertionError)"

definition merge_SinkFullAttentionSpec :: "kv_spec list \<Rightarrow> kv_spec result" where
  "merge_SinkFullAttentionSpec specs =
    rbind (full_merge specs) (\<lambda>f.
      case specs of
        SinkFullAttentionSpec _ sink_len # _ \<Rightarrow> Inr (SinkFullAttentionSpec f sink_len)
      | _ \<Rightarrow> Inl AttributeError)"

text \<open>The sets of the fields that the MLA classes compare: each must be a singleton.\<close>

definition single_value :: "'a list \<Rightarrow> bool" where
  "single_value l \<longleftrightarrow> length (remdups l) = 1"

definition merge_MLAAttentionSpec :: "(full_spec \<Rightarrow> mla_fields \<Rightarrow> kv_spec) \<Rightarrow> kv_spec list \<Rightarrow> kv_spec result" where
  "merge_MLAAttentionSpec cls specs =
    py_assert (list_all is_MLAAttentionSpec specs)
      (let fms = List.map_filter (\<lambda>s. case s of MLAAttentionSpec f m \<Rightarrow> Some (f, m) | HiddenStateCacheSpec f m \<Rightarrow> Some (f, m) | _ \<Rightarrow> None) specs in
       py_assert (single_value (map (\<lambda>x. cache_dtype_str (snd x)) fms) \<and> single_value (map (\<lambda>x. compress_ratio (snd x)) fms) \<and>
         single_value (map (\<lambda>x. model_version (snd x)) fms) \<and> single_value (map (\<lambda>x. indexes_kv_by_block_stride (fst x)) fms))
      (let (f, m) = hd fms in
       Inr (new_MLAAttentionSpec cls
         \<lparr>as_block_size = as_block_size f, num_kv_heads = num_kv_heads f, head_size = head_size f, as_dtype = as_dtype f,
          as_quant_mode = as_quant_mode f, page_size_padded = page_size_padded f,
          indexes_kv_by_block_stride = indexes_kv_by_block_stride f,
          head_size_v = head_size f, fs_sliding_window = None, fs_attention_chunk_size = None, non_causal = False\<rparr>
         \<lparr>cache_dtype_str = cache_dtype_str m, mla_alignment = None, compress_ratio = compress_ratio m, model_version = model_version m\<rparr>)))"

definition merge_SlidingWindowMLASpec :: "kv_spec list \<Rightarrow> kv_spec result" where
  "merge_SlidingWindowMLASpec specs =
    py_assert (list_all (\<lambda>s. case s of SlidingWindowMLASpec _ _ _ \<Rightarrow> True | _ \<Rightarrow> False) specs)
      (let awm = List.map_filter (\<lambda>s. case s of SlidingWindowMLASpec a w m \<Rightarrow> Some (a, w, m) | _ \<Rightarrow> None) specs in
       py_assert (single_value (map (\<lambda>(a, w, m). cache_dtype_str m) awm) \<and> single_value (map (\<lambda>(a, w, m). compress_ratio m) awm) \<and>
         single_value (map (\<lambda>(a, w, m). model_version m) awm) \<and> single_value (map (\<lambda>(a, w, m). w) awm) \<and>
         single_value (map (\<lambda>(a, w, m). indexes_kv_by_block_stride a) awm))
      (let (a, w, m) = hd awm in
       new_SlidingWindowMLASpec
         \<lparr>as_block_size = as_block_size a, num_kv_heads = num_kv_heads a, head_size = head_size a, as_dtype = as_dtype a,
          as_quant_mode = QM_NONE, page_size_padded = page_size_padded a,
          indexes_kv_by_block_stride = indexes_kv_by_block_stride a\<rparr>
         w \<lparr>cache_dtype_str = cache_dtype_str m, mla_alignment = None, compress_ratio = compress_ratio m, model_version = model_version m\<rparr>))"

section \<open>Classification\<close>

datatype kv_cache_spec_kind = K_FULL_ATTENTION | K_MLA_ATTENTION | K_SLIDING_WINDOW | K_SLIDING_WINDOW_MLA
  | K_MAMBA | K_CHUNKED_LOCAL_ATTENTION | K_SINK_FULL_ATTENTION | K_ENCODER_ONLY_ATTENTION
  | K_CROSS_ATTENTION | K_UNKNOWN

fun get_kv_cache_spec_kind :: "kv_spec \<Rightarrow> kv_cache_spec_kind" where
  "get_kv_cache_spec_kind (UniformTypeKVCacheSpecs _ specs) =
    (case remdups (map (\<lambda>x. get_kv_cache_spec_kind (snd x)) specs) of [k] \<Rightarrow> k | _ \<Rightarrow> K_UNKNOWN)"
| "get_kv_cache_spec_kind (SlidingWindowMLASpec _ _ _) = K_SLIDING_WINDOW_MLA"
| "get_kv_cache_spec_kind (MLAAttentionSpec _ _) = K_MLA_ATTENTION"
| "get_kv_cache_spec_kind (HiddenStateCacheSpec _ _) = K_MLA_ATTENTION"
| "get_kv_cache_spec_kind (SinkFullAttentionSpec _ _) = K_SINK_FULL_ATTENTION"
| "get_kv_cache_spec_kind (FullAttentionSpec _) = K_FULL_ATTENTION"
| "get_kv_cache_spec_kind (TQFullAttentionSpec _ _) = K_FULL_ATTENTION"
| "get_kv_cache_spec_kind (RSWASpec _ _) = K_FULL_ATTENTION"
| "get_kv_cache_spec_kind (ChunkedLocalAttentionSpec _ _) = K_CHUNKED_LOCAL_ATTENTION"
| "get_kv_cache_spec_kind (SlidingWindowSpec _ _ _) = K_SLIDING_WINDOW"
| "get_kv_cache_spec_kind (MambaSpec _) = K_MAMBA"
| "get_kv_cache_spec_kind (EncoderOnlyAttentionSpec _) = K_ENCODER_ONLY_ATTENTION"
| "get_kv_cache_spec_kind (CrossAttentionSpec _) = K_CROSS_ATTENTION"

fun get_kv_cache_spec_sliding_window :: "kv_spec \<Rightarrow> int option" where
  "get_kv_cache_spec_sliding_window (UniformTypeKVCacheSpecs _ specs) =
    (case remdups (map (\<lambda>x. get_kv_cache_spec_sliding_window (snd x)) specs) of [w] \<Rightarrow> w | _ \<Rightarrow> None)"
| "get_kv_cache_spec_sliding_window s = spec_sliding_window s"

section \<open>The registry\<close>

datatype manager_class = FullAttentionManager | RSWAManager | SlidingWindowManager
  | ChunkedLocalAttentionManager | MambaManager | CrossAttentionManager | SinkFullAttentionManager

text \<open>The manager registered for the class of a specification; encoder-only and uniform
  specifications have none.\<close>

fun get_manager_class :: "kv_spec \<Rightarrow> manager_class option" where
  "get_manager_class (FullAttentionSpec _) = Some FullAttentionManager"
| "get_manager_class (TQFullAttentionSpec _ _) = Some FullAttentionManager"
| "get_manager_class (MLAAttentionSpec _ _) = Some FullAttentionManager"
| "get_manager_class (HiddenStateCacheSpec _ _) = Some FullAttentionManager"
| "get_manager_class (RSWASpec _ _) = Some RSWAManager"
| "get_manager_class (SinkFullAttentionSpec _ _) = Some SinkFullAttentionManager"
| "get_manager_class (ChunkedLocalAttentionSpec _ _) = Some ChunkedLocalAttentionManager"
| "get_manager_class (SlidingWindowSpec _ _ _) = Some SlidingWindowManager"
| "get_manager_class (SlidingWindowMLASpec _ _ _) = Some SlidingWindowManager"
| "get_manager_class (MambaSpec _) = Some MambaManager"
| "get_manager_class (CrossAttentionSpec _) = Some CrossAttentionManager"
| "get_manager_class (EncoderOnlyAttentionSpec _) = None"
| "get_manager_class (UniformTypeKVCacheSpecs _ _) = None"

text \<open>\<^verbatim>\<open>is_uniform_with_collection\<close>: the default asks the registry for the base class, the
  recycling types also compare what decides how many slots they need.\<close>

fun is_uniform_with_collection :: "kv_spec \<Rightarrow> kv_spec list \<Rightarrow> bool result" where
  "is_uniform_with_collection (ChunkedLocalAttentionSpec _ c) specs =
    Inr (list_all (\<lambda>s. case s of ChunkedLocalAttentionSpec _ c' \<Rightarrow> c' = c | _ \<Rightarrow> False) specs)"
| "is_uniform_with_collection (SlidingWindowSpec _ w _) specs =
    Inr (list_all (\<lambda>s. spec_sliding_window s = Some w) specs)"
| "is_uniform_with_collection (SlidingWindowMLASpec _ w _) specs =
    Inr (list_all (\<lambda>s. case s of SlidingWindowMLASpec _ w' _ \<Rightarrow> w' = w | _ \<Rightarrow> False) specs)"
| "is_uniform_with_collection (MambaSpec m) specs =
    Inr (list_all (\<lambda>s. case s of MambaSpec m' \<Rightarrow> num_speculative_blocks m' = num_speculative_blocks m | _ \<Rightarrow> False) specs)"
| "is_uniform_with_collection (CrossAttentionSpec _) specs = Inr (list_all is_CrossAttentionSpec specs)"
| "is_uniform_with_collection (EncoderOnlyAttentionSpec _) specs = Inl AssertionError"
| "is_uniform_with_collection (UniformTypeKVCacheSpecs _ _) specs = Inl AssertionError"
| "is_uniform_with_collection s specs = Inr (list_all is_FullAttentionSpec specs)"

definition is_uniform_type :: "(string \<times> kv_spec) list \<Rightarrow> bool result" where
  "is_uniform_type specs =
    (if length (remdups (map (\<lambda>x. spec_block_size (snd x)) specs)) > 1 then Inr False
     else case specs of
       [] \<Rightarrow> Inl StopIteration
     | (_, s) # _ \<Rightarrow> is_uniform_with_collection s (map snd specs))"

definition from_specs :: "(string \<times> kv_spec) list \<Rightarrow> kv_spec option result" where
  "from_specs specs =
    rbind (is_uniform_type specs) (\<lambda>b.
      if b then case specs of [] \<Rightarrow> Inl StopIteration
        | (_, s) # _ \<Rightarrow> Inr (Some (UniformTypeKVCacheSpecs (spec_block_size s) specs))
      else Inr None)"

section \<open>Lemmas\<close>

lemma collect_Inr: "collect rs = Inr xs \<Longrightarrow> length xs = length rs \<and> (\<forall>i < length rs. rs ! i = Inr (xs ! i))"
proof (induction rs arbitrary: xs)
  case (Cons r rs)
  then obtain y ys where y: "r = Inr y" "collect rs = Inr ys" "xs = y # ys" by auto
  then show ?case using Cons.IH [OF y(2)] by (auto simp: less_Suc_eq_0_disj)
qed simp

lemma collect_mem: "collect (map f l) = Inr xs \<Longrightarrow> a \<in> set l \<Longrightarrow> \<exists>x. f a = Inr x \<and> x \<in> set xs"
  using collect_Inr [of "map f l" xs] by (auto simp: in_set_conv_nth)

definition ex_dtype :: torch_dtype where
  "ex_dtype = \<lparr>dt_name = ''bfloat16'', dt_itemsize = 2\<rparr>"

definition ex_full :: "int \<Rightarrow> int \<Rightarrow> full_spec" where
  "ex_full bs hv = \<lparr>as_block_size = bs, num_kv_heads = 8, head_size = 128, as_dtype = ex_dtype, as_quant_mode = QM_NONE,
     page_size_padded = None, indexes_kv_by_block_stride = False, head_size_v = hv, fs_sliding_window = None,
     fs_attention_chunk_size = None, non_causal = False\<rparr>"

definition ex_attn :: "int \<Rightarrow> kv_quant_mode \<Rightarrow> attention_spec" where
  "ex_attn bs m = \<lparr>as_block_size = bs, num_kv_heads = 1, head_size = 128, as_dtype = ex_dtype, as_quant_mode = m,
     page_size_padded = None, indexes_kv_by_block_stride = False\<rparr>"

definition ex_mla :: mla_fields where
  "ex_mla = \<lparr>cache_dtype_str = None, mla_alignment = None, compress_ratio = 1, model_version = None\<rparr>"

section \<open>Properties\<close>

text \<open>C36. The budget of a group of layers of one type covers every layer: it is a whole
  number \<open>n\<close> of pages of the group, and \<open>n\<close> pages of any layer of the group hold what
  that layer may need for a request of maximal length.\<close>

theorem uniform_budget_covers_layers:
  assumes "max_memory_usage_bytes c (UniformTypeKVCacheSpecs bs specs) = Inr amount"
    and "(name, s) \<in> set specs" "page_size_bytes s = Inr ps" "0 < ps"
  shows "\<exists>n group_page need. page_size_bytes (UniformTypeKVCacheSpecs bs specs) = Inr group_page \<and> amount = n * group_page \<and>
    max_memory_usage_bytes c s = Inr need \<and> need \<le> n * ps"
proof -
  obtain pages n gp where *: "collect (map (\<lambda>x. rbind (max_memory_usage_bytes c (snd x)) (\<lambda>m.
      rbind (page_size_bytes (snd x)) (\<lambda>ps. py_cdiv m ps))) specs) = Inr pages"
    "py_max pages = Inr n" "page_size_bytes (UniformTypeKVCacheSpecs bs specs) = Inr gp" "amount = n * gp"
    using assms(1) by auto
  obtain x where x: "rbind (max_memory_usage_bytes c s) (\<lambda>m. rbind (page_size_bytes s) (\<lambda>ps. py_cdiv m ps)) = Inr x" "x \<in> set pages"
    using collect_mem [OF *(1) assms(2)] by auto
  then obtain need where need: "max_memory_usage_bytes c s = Inr need" "x = cdiv need ps"
    using assms(3,4) by (auto simp: py_cdiv_def)
  have "x \<le> n" using *(2) x(2) by (auto simp: py_max_def split: if_splits)
  then have "need \<le> n * ps" using cdiv_le_iff [OF assms(4), of need n] need(2) by simp
  then show ?thesis using * need by blast
qed

theorem uniform_budget_covers_layers_witness:
  "\<exists>n group_page need. page_size_bytes (UniformTypeKVCacheSpecs 16 [(''a'', FullAttentionSpec (ex_full 16 128))]) = Inr group_page \<and>
    max_memory_usage_bytes \<lparr>sz_max_model_len = 100, sz_dcp = 1, sz_pcp = 1, sz_max_num_batched_tokens = 64,
      sz_mamba_cache_mode = ''none'', sz_max_num_encoder_input_tokens = 0\<rparr>
      (UniformTypeKVCacheSpecs 16 [(''a'', FullAttentionSpec (ex_full 16 128))]) = Inr (n * group_page) \<and>
    max_memory_usage_bytes \<lparr>sz_max_model_len = 100, sz_dcp = 1, sz_pcp = 1, sz_max_num_batched_tokens = 64,
      sz_mamba_cache_mode = ''none'', sz_max_num_encoder_input_tokens = 0\<rparr> (FullAttentionSpec (ex_full 16 128)) = Inr need \<and>
    need \<le> n * 65536"
proof -
  let ?c = "\<lparr>sz_max_model_len = 100, sz_dcp = 1, sz_pcp = 1, sz_max_num_batched_tokens = 64,
      sz_mamba_cache_mode = ''none'', sz_max_num_encoder_input_tokens = 0\<rparr>"
  let ?s = "FullAttentionSpec (ex_full 16 128)" and ?u = "UniformTypeKVCacheSpecs 16 [(''a'', FullAttentionSpec (ex_full 16 128))]"
  have p: "page_size_bytes ?s = Inr 65536" by code_simp
  have m: "max_memory_usage_bytes ?c ?u = Inr 458752" by code_simp
  from uniform_budget_covers_layers [OF m, of "''a''" ?s, OF _ p] show ?thesis using m by auto
qed

lemma full_merge_Cons:
  "full_merge (map FullAttentionSpec (f # gs)) =
    rbind (merge_window_sizes (List.map_filter fs_sliding_window (f # gs))) (\<lambda>sw.
    rbind (merge_window_sizes (List.map_filter fs_attention_chunk_size (f # gs))) (\<lambda>cs.
      py_assert (list_all (\<lambda>x. attention_spec.truncate x = attention_spec.truncate f) gs)
     (py_assert (\<not> (sw \<noteq> None \<and> cs \<noteq> None))
       (Inr (f\<lparr>fs_sliding_window := sw, fs_attention_chunk_size := cs, non_causal := list_ex non_causal (f # gs)\<rparr>)))))"
proof -
  have "attention_spec.truncate (f\<lparr>fs_sliding_window := sw, fs_attention_chunk_size := cs, non_causal := b\<rparr>) = attention_spec.truncate f" for sw cs b
    by (simp add: attention_spec.truncate_def)
  then show ?thesis by (simp add: full_merge_def py_assert_def list_all_iff list_ex_iff comp_def)
qed

text \<open>What merging reads of the layers after the first.\<close>

definition set_head_size_v :: "full_spec \<Rightarrow> int \<Rightarrow> full_spec" where
  "set_head_size_v g hv = g\<lparr>head_size_v := hv\<rparr>"

lemma set_head_size_v [simp]:
  "fs_sliding_window (set_head_size_v g hv) = fs_sliding_window g" "fs_attention_chunk_size (set_head_size_v g hv) = fs_attention_chunk_size g"
  "non_causal (set_head_size_v g hv) = non_causal g" "attention_spec.truncate (set_head_size_v g hv) = attention_spec.truncate g"
  "head_size_v (set_head_size_v g hv) = hv"
  by (simp_all add: set_head_size_v_def attention_spec.truncate_def)

lemma map2_set_head_size_v:
  assumes "length hvs = length gs"
  shows "List.map_filter fs_sliding_window (map2 set_head_size_v gs hvs) = List.map_filter fs_sliding_window gs"
    "List.map_filter fs_attention_chunk_size (map2 set_head_size_v gs hvs) = List.map_filter fs_attention_chunk_size gs"
    "list_ex non_causal (map2 set_head_size_v gs hvs) = list_ex non_causal gs"
    "list_all (\<lambda>x. attention_spec.truncate x = t) (map2 set_head_size_v gs hvs) = list_all (\<lambda>x. attention_spec.truncate x = t) gs"
  using assms by (induction gs hvs rule: list_induct2') (simp_all add: List.map_filter_simps split: option.split)

lemma full_page_size:
  assumes "attention_spec.truncate g = attention_spec.truncate f" "page_size_padded f = None"
    and "as_quant_mode f \<notin> {INT4_PER_TOKEN_HEAD, NVFP4}" "as_block_size f * num_kv_heads f * dt_itemsize (as_dtype f) \<noteq> 0"
  shows "page_size_bytes (FullAttentionSpec f) = page_size_bytes (FullAttentionSpec g) \<longleftrightarrow> head_size_v g = head_size_v f"
proof -
  have e: "as_block_size g = as_block_size f" "num_kv_heads g = num_kv_heads f" "head_size g = head_size f" "as_dtype g = as_dtype f"
    "as_quant_mode g = as_quant_mode f" "page_size_padded g = page_size_padded f" using assms(1) by (simp_all add: attention_spec.truncate_def)
  let ?u = "as_block_size f * num_kv_heads f * dt_itemsize (as_dtype f)"
  have "full_real_page_size f = ?u * (head_size f + head_size_v f)" "full_real_page_size g = ?u * (head_size f + head_size_v g)"
    using assms(3) e by (simp_all add: full_real_page_size_def is_nvfp4_def Let_def mult_ac)
  then show ?thesis using assms(2,4) e by (auto simp: attention_page_size_def Let_def)
qed

text \<open>C37. Merging full-attention layers compares the fields of \<^verbatim>\<open>AttentionSpec\<close> and not the value
  head size: whenever a merge succeeds, all layers agree with the first in every field of \<^verbatim>\<open>AttentionSpec\<close>, and
  the result has the page size of the first layer; it succeeds with the same result
  for any other value head sizes of the layers after the first; and the page size of such a layer is that of the
  result only if its value head size is that of the first, unless the pages are padded or the cache is packed in
  four bits.\<close>

theorem merge_ignores_head_size_v:
  assumes "merge_FullAttentionSpec (map FullAttentionSpec (f # gs)) = Inr m" "length hvs = length gs"
  shows "(\<forall>g \<in> set gs. attention_spec.truncate g = attention_spec.truncate f) \<and>
    page_size_bytes m = page_size_bytes (FullAttentionSpec f) \<and>
    merge_FullAttentionSpec (map FullAttentionSpec (f # map2 set_head_size_v gs hvs)) = Inr m \<and>
    (page_size_padded f = None \<and> as_quant_mode f \<notin> {INT4_PER_TOKEN_HEAD, NVFP4} \<and>
      as_block_size f * num_kv_heads f * dt_itemsize (as_dtype f) \<noteq> 0 \<longrightarrow>
      (\<forall>i < length gs. page_size_bytes m = page_size_bytes (FullAttentionSpec (set_head_size_v (gs ! i) (hvs ! i))) \<longleftrightarrow> hvs ! i = head_size_v f))"
proof -
  have t: "list_all (\<lambda>x. attention_spec.truncate x = attention_spec.truncate f) gs"
    and m: "page_size_bytes m = page_size_bytes (FullAttentionSpec f)"
    using assms(1) unfolding merge_FullAttentionSpec_def full_merge_Cons
    by (auto simp: py_assert_def attention_page_size_def full_real_page_size_def split: if_splits)
  have "merge_FullAttentionSpec (map FullAttentionSpec (f # map2 set_head_size_v gs hvs)) = Inr m"
    using assms(1) unfolding merge_FullAttentionSpec_def full_merge_Cons
    by (simp add: map2_set_head_size_v [OF assms(2)] List.map_filter_simps split: option.splits)
  moreover have "page_size_bytes (FullAttentionSpec f) = page_size_bytes (FullAttentionSpec (set_head_size_v (gs ! i) (hvs ! i))) \<longleftrightarrow> hvs ! i = head_size_v f"
    if "i < length gs" "page_size_padded f = None" "as_quant_mode f \<notin> {INT4_PER_TOKEN_HEAD, NVFP4}"
      "as_block_size f * num_kv_heads f * dt_itemsize (as_dtype f) \<noteq> 0" for i
  proof -
    have "attention_spec.truncate (set_head_size_v (gs ! i) (hvs ! i)) = attention_spec.truncate f" using t that(1) by (simp add: list_all_length)
    from full_page_size [OF this that(2-4)] show ?thesis by (simp only: set_head_size_v)
  qed
  ultimately show ?thesis using t m by (auto simp: list_all_iff)
qed

theorem merge_ignores_head_size_v_witness:
  "\<exists>m. merge_FullAttentionSpec [FullAttentionSpec (ex_full 16 64), FullAttentionSpec (ex_full 16 128)] = Inr m \<and>
    page_size_bytes m \<noteq> page_size_bytes (FullAttentionSpec (ex_full 16 128))"
proof -
  have m: "merge_FullAttentionSpec (map FullAttentionSpec [ex_full 16 64, ex_full 16 64]) = Inr (FullAttentionSpec (ex_full 16 64))" by code_simp
  have s: "set_head_size_v (ex_full 16 64) 128 = ex_full 16 128" by (simp add: set_head_size_v_def ex_full_def)
  show ?thesis using merge_ignores_head_size_v [OF m, of "[128]"] by (simp add: s) (simp add: ex_full_def ex_dtype_def)
qed

text \<open>C38. Merging sliding-window MLA layers loses the quantization mode: whatever the layers, the
  result of a successful merge is not quantized.  So when the first layer keeps a scale per token and head and its
  pages are not padded, the page of the result is smaller than the layer's by exactly the room for
  the scales.  The merge of MLA layers, in contrast, keeps the page size of the first layer.\<close>

theorem sliding_mla_merge_drops_quant_mode:
  assumes "merge_SlidingWindowMLASpec (SlidingWindowMLASpec a w f # specs) = Inr m"
  shows "(\<exists>a' f'. m = SlidingWindowMLASpec a' w f' \<and> as_quant_mode a' = QM_NONE) \<and>
    (is_per_token_head (as_quant_mode a) \<and> page_size_padded a = None \<longrightarrow>
      page_size_bytes (SlidingWindowMLASpec a w f) = rbind (page_size_bytes m) (\<lambda>n. Inr (n + 2 * as_block_size a * num_kv_heads a * 4))) \<and>
    (\<forall>g h specs' m'. merge_MLAAttentionSpec MLAAttentionSpec (MLAAttentionSpec g h # specs') = Inr m' \<longrightarrow>
      page_size_bytes m' = page_size_bytes (MLAAttentionSpec g h))"
proof -
  let ?a = "\<lparr>as_block_size = as_block_size a, num_kv_heads = num_kv_heads a, head_size = head_size a, as_dtype = as_dtype a,
    as_quant_mode = QM_NONE, page_size_padded = page_size_padded a, indexes_kv_by_block_stride = indexes_kv_by_block_stride a\<rparr>"
  let ?f = "\<lparr>cache_dtype_str = cache_dtype_str f, mla_alignment = None, compress_ratio = compress_ratio f, model_version = model_version f\<rparr>"
  have m: "m = SlidingWindowMLASpec ?a w ?f"
    using assms(1) by (auto simp: merge_SlidingWindowMLASpec_def new_SlidingWindowMLASpec_def List.map_filter_simps py_assert_def split: if_splits)
  have "sliding_mla_real_page_size ?a ?f = sliding_mla_real_page_size a f"
    by (simp add: sliding_mla_real_page_size_def mla_storage_block_size_def)
  then have "page_size_bytes (SlidingWindowMLASpec a w f) = rbind (page_size_bytes m) (\<lambda>n. Inr (n + 2 * as_block_size a * num_kv_heads a * 4))"
    if "is_per_token_head (as_quant_mode a)" "page_size_padded a = None"
    using that m by (cases "sliding_mla_real_page_size a f") (simp_all add: attention_page_size_def is_per_token_head_def)
  moreover have "page_size_bytes m' = page_size_bytes (MLAAttentionSpec g h)"
    if "merge_MLAAttentionSpec MLAAttentionSpec (MLAAttentionSpec g h # specs') = Inr m'" for g h specs' m'
    using that by (auto simp: merge_MLAAttentionSpec_def new_MLAAttentionSpec_def apply_alignment_padding_def List.map_filter_simps py_assert_def
        attention_page_size_def mla_real_page_size_def mla_storage_block_size_def split: if_splits)
  ultimately show ?thesis using m by auto
qed

theorem sliding_mla_merge_drops_quant_mode_witness:
  "\<exists>m. merge_SlidingWindowMLASpec [SlidingWindowMLASpec (ex_attn 64 FP8_PER_TOKEN_HEAD) 512 ex_mla] = Inr m \<and>
    page_size_bytes (SlidingWindowMLASpec (ex_attn 64 FP8_PER_TOKEN_HEAD) 512 ex_mla) = rbind (page_size_bytes m) (\<lambda>n. Inr (n + 512))"
proof -
  let ?s = "SlidingWindowMLASpec (ex_attn 64 FP8_PER_TOKEN_HEAD) 512 ex_mla"
  have m: "merge_SlidingWindowMLASpec [?s] = Inr (SlidingWindowMLASpec (ex_attn 64 QM_NONE) 512 ex_mla)" by code_simp
  show ?thesis using sliding_mla_merge_drops_quant_mode [OF m] m by (simp add: ex_attn_def is_per_token_head_def)
qed

end
