(* ===== verification/Single_Type.thy ===== *)
theory Single_Type
  imports Pool_Safety KV_Spec
begin

text \<open>
  \<^verbatim>\<open>vllm/v1/core/single_type_kv_cache_manager.py\<close>: the managers of one KV cache group.
  The state of a manager is a record; the block pool, which all managers share, is
  passed along.  Dispatch on the class of a manager is a case distinction on
  \<^typ>\<open>manager_class\<close>.  The blocks of the requests are an association list in the
  order of insertion, as the code asks for the number of its entries; reading an
  absent entry with \<^verbatim>\<open>[]\<close> creates an empty one.  Sets of keys and of request ids
  are lists without duplicates.
\<close>

section \<open>State\<close>

record st_manager =
  mg_class :: manager_class
  mg_spec :: kv_spec
  mg_scheduler_block_size :: int
  mg_block_size :: int
  mg_dcp_world_size :: int
  mg_pcp_world_size :: int
  mg_enable_caching :: bool
  max_admission_blocks_per_request :: "int option"
  record_new_block_ids :: bool
  new_block_ids :: "int list"
  req_to_blocks :: "(string \<times> kv_ref list) list"
  num_cached_block :: "string \<Rightarrow> int option"
  kv_cache_group_id :: int
  mg_null_block :: kv_ref
  mg_use_eagle :: bool
  cached_blocks_this_step :: "bytes list"
  last_state_block_idx :: "string \<Rightarrow> int option"
  allocated_block_reqs :: "string list"

type_synonym mstate = "st_manager \<times> block_pool"

definition req_blocks :: "string \<Rightarrow> st_manager \<Rightarrow> kv_ref list" where
  "req_blocks rid m = (case map_of (req_to_blocks m) rid of None \<Rightarrow> [] | Some bs \<Rightarrow> bs)"

definition set_req_blocks :: "string \<Rightarrow> kv_ref list \<Rightarrow> st_manager \<Rightarrow> st_manager" where
  "set_req_blocks rid bs m = m\<lparr>req_to_blocks := AList.update rid bs (req_to_blocks m)\<rparr>"

text \<open>\<^verbatim>\<open>type(kv_cache_spec) in (FullAttentionSpec, ...)\<close>: exact classes.\<close>

fun zeroed_spec_type :: "kv_spec \<Rightarrow> bool" where
  "zeroed_spec_type (FullAttentionSpec _) = True"
| "zeroed_spec_type (TQFullAttentionSpec _ _) = True"
| "zeroed_spec_type (MLAAttentionSpec _ _) = True"
| "zeroed_spec_type (HiddenStateCacheSpec _ _) = True"
| "zeroed_spec_type _ = False"

definition manager_init ::
  "manager_class \<Rightarrow> kv_spec \<Rightarrow> kv_ref \<Rightarrow> bool \<Rightarrow> int \<Rightarrow> int \<Rightarrow> int \<Rightarrow> int \<Rightarrow> bool \<Rightarrow> int option \<Rightarrow> st_manager" where
  "manager_init cls spec null caching gid sched_bs dcp pcp zeroing cap =
    \<lparr>mg_class = cls, mg_spec = spec, mg_scheduler_block_size = sched_bs,
     mg_block_size = (if dcp * pcp > 1 then spec_block_size spec * (dcp * pcp) else spec_block_size spec),
     mg_dcp_world_size = dcp, mg_pcp_world_size = pcp, mg_enable_caching = caching,
     max_admission_blocks_per_request = cap, record_new_block_ids = (zeroing \<and> zeroed_spec_type spec),
     new_block_ids = [], req_to_blocks = [], num_cached_block = (\<lambda>_. None), kv_cache_group_id = gid,
     mg_null_block = null, mg_use_eagle = False, cached_blocks_this_step = [], last_state_block_idx = (\<lambda>_. None),
     allocated_block_reqs = []\<rparr>"

text \<open>The constructor of \<^verbatim>\<open>SinkFullAttentionManager\<close> does not take the keyword arguments
  that the coordinator passes (\<^verbatim>\<open>scheduler_block_size\<close>, \<^verbatim>\<open>needs_kv_cache_zeroing\<close>), so
  calling it raises \<^verbatim>\<open>TypeError\<close>.\<close>

definition get_manager_for_kv_cache_spec ::
  "kv_spec \<Rightarrow> int \<Rightarrow> int \<Rightarrow> kv_ref \<Rightarrow> bool \<Rightarrow> int \<Rightarrow> int \<Rightarrow> int \<Rightarrow> int \<Rightarrow> bool \<Rightarrow> st_manager result" where
  "get_manager_for_kv_cache_spec spec max_num_batched_tokens max_model_len null caching gid sched_bs dcp pcp zeroing =
    (case get_manager_class spec of
       None \<Rightarrow> Inl AssertionError
     | Some cls \<Rightarrow>
         let cap = (case spec of
                SlidingWindowSpec a w _ \<Rightarrow> Some (sliding_max_admission_blocks a w max_num_batched_tokens max_model_len)
              | SlidingWindowMLASpec a w _ \<Rightarrow> Some (sliding_max_admission_blocks a w max_num_batched_tokens max_model_len)
              | ChunkedLocalAttentionSpec a c \<Rightarrow> Some (chunked_max_admission_blocks a c max_num_batched_tokens max_model_len)
              | _ \<Rightarrow> None)
         in if cls = SinkFullAttentionManager then Inl TypeError
            else Inr (manager_init cls spec null caching gid sched_bs dcp pcp zeroing cap))"

section \<open>Skipped tokens\<close>

fun get_num_skipped_tokens :: "kv_spec \<Rightarrow> int \<Rightarrow> int" where
  "get_num_skipped_tokens (SlidingWindowSpec _ w _) n = max 0 (n - w + 1)"
| "get_num_skipped_tokens (SlidingWindowMLASpec _ w _) n = max 0 (n - w + 1)"
| "get_num_skipped_tokens (ChunkedLocalAttentionSpec _ c) n = n div c * c"
| "get_num_skipped_tokens (MambaSpec _) n = n - 1"
| "get_num_skipped_tokens _ n = 0"

section \<open>How many blocks a request needs\<close>

definition get_num_evictable_blocks :: "block_pool \<Rightarrow> kv_ref list \<Rightarrow> int" where
  "get_num_evictable_blocks p bs = int (length (filter (\<lambda>b. ref_cnt (blk p b) = 0 \<and> \<not> is_null (blk p b)) bs))"

definition base_get_num_blocks_to_allocate ::
  "string \<Rightarrow> int \<Rightarrow> kv_ref list \<Rightarrow> int \<Rightarrow> bool \<Rightarrow> block_pool \<Rightarrow> st_manager \<Rightarrow> int result" where
  "base_get_num_blocks_to_allocate rid ntokens new_computed total_computed apply_cap p m =
    (let num_required_blocks = cdiv ntokens (mg_block_size m);
         num_required_blocks = (case max_admission_blocks_per_request m of
             Some cap \<Rightarrow> if apply_cap then min num_required_blocks cap else num_required_blocks
           | None \<Rightarrow> num_required_blocks);
         num_req_blocks = int (length (req_blocks rid m)) in
     if num_cached_block m rid \<noteq> None
     then py_assert (length new_computed = 0) (Inr (max (num_required_blocks - num_req_blocks) 0))
     else
       let num_skipped_tokens = get_num_skipped_tokens (mg_spec m) total_computed;
           num_local_computed_blocks = int (length new_computed) + num_req_blocks;
           num_skipped_blocks = num_skipped_tokens div mg_block_size m;
           num_new_blocks = max (num_required_blocks - max num_skipped_blocks num_local_computed_blocks) 0;
           num_skipped_new_computed_blocks = max 0 (num_skipped_blocks - num_req_blocks)
       in Inr (num_new_blocks + get_num_evictable_blocks p (py_from new_computed num_skipped_new_computed_blocks)))"

text \<open>The Mamba manager.  In align mode it reads \<^verbatim>\<open>req_to_blocks[request_id]\<close>, which
  creates the entry.\<close>

fun mamba_of :: "kv_spec \<Rightarrow> mamba_spec option" where
  "mamba_of (MambaSpec ms) = Some ms"
| "mamba_of _ = None"

definition mamba_get_num_blocks_to_allocate ::
  "mamba_spec \<Rightarrow> string \<Rightarrow> int \<Rightarrow> kv_ref list \<Rightarrow> int \<Rightarrow> int \<Rightarrow> bool \<Rightarrow> block_pool \<Rightarrow> st_manager \<Rightarrow> (int \<times> st_manager) result" where
  "mamba_get_num_blocks_to_allocate ms rid ntokens new_computed total_computed num_tokens_main_model apply_cap p m =
    (if new_computed \<noteq> [] \<and> (case block_hash (blk p (last new_computed)) of
          None \<Rightarrow> False | Some h \<Rightarrow> h \<in> set (cached_blocks_this_step m))
     then Inr (num_gpu_blocks p + 1, m)
     else if mamba_cache_mode ms \<noteq> ''align''
     then let ntokens = (if num_speculative_blocks ms > 0
                            then ntokens + ms_block_size ms * num_speculative_blocks ms else ntokens)
          in rbind (base_get_num_blocks_to_allocate rid ntokens new_computed total_computed apply_cap p m) (\<lambda>n. Inr (n, m))
     else
       let num_required_blocks = cdiv num_tokens_main_model (mg_block_size m) + num_speculative_blocks ms;
           bs = req_blocks rid m;
           m = set_req_blocks rid bs m;
           num_new_blocks = num_required_blocks - int (length new_computed) - int (length bs);
           num_new_blocks = (if num_new_blocks > 0
             then if rid \<in> set (allocated_block_reqs m) then 1 else 1 + num_speculative_blocks ms
             else num_new_blocks)
       in Inr (num_new_blocks + get_num_evictable_blocks p new_computed, m))"

definition get_num_blocks_to_allocate ::
  "string \<Rightarrow> int \<Rightarrow> kv_ref list \<Rightarrow> int \<Rightarrow> int \<Rightarrow> bool \<Rightarrow> block_pool \<Rightarrow> st_manager \<Rightarrow> (int \<times> st_manager) result" where
  "get_num_blocks_to_allocate rid ntokens new_computed total_computed num_tokens_main_model apply_cap p m =
    (if mg_class m = MambaManager
     then case mamba_of (mg_spec m) of
       None \<Rightarrow> Inl AssertionError
     | Some ms \<Rightarrow> mamba_get_num_blocks_to_allocate ms rid ntokens new_computed total_computed num_tokens_main_model apply_cap p m
     else rbind (base_get_num_blocks_to_allocate rid ntokens new_computed total_computed apply_cap p m) (\<lambda>n. Inr (n, m)))"

section \<open>Adding and allocating blocks\<close>

definition add_local_computed_blocks :: "string \<Rightarrow> kv_ref list \<Rightarrow> int \<Rightarrow> int \<Rightarrow> mstate \<Rightarrow> mstate result" where
  "add_local_computed_blocks rid new_computed num_local num_external st =
    (let (m, p) = st in
     if mg_class m = CrossAttentionManager then py_assert (length new_computed = 0) (Inr (m, p))
     else py_assert (length (req_blocks rid m) = 0)
       (let num_skipped_tokens = get_num_skipped_tokens (mg_spec m) (num_local + num_external);
            num_skipped_blocks = num_skipped_tokens div mg_block_size m;
            new_computed = (if num_skipped_blocks > 0 then py_from new_computed num_skipped_blocks else new_computed) in
        rbind (if mg_enable_caching m then touch new_computed p else py_assert (new_computed = []) (Inr p)) (\<lambda>p.
          let bs = replicate (nat num_skipped_blocks) (mg_null_block m) @ new_computed;
              m = set_req_blocks rid bs m
          in Inr (m\<lparr>num_cached_block := (num_cached_block m)(rid \<mapsto> int (length bs))\<rparr>, p))))"

definition extend_new_blocks :: "string \<Rightarrow> kv_ref list \<Rightarrow> st_manager \<Rightarrow> st_manager" where
  "extend_new_blocks rid bs m =
    (let m = set_req_blocks rid (req_blocks rid m @ bs) m
     in if record_new_block_ids m then m\<lparr>new_block_ids := new_block_ids m @ map block_id bs\<rparr> else m)"

definition allocate_external_computed_blocks :: "string \<Rightarrow> int \<Rightarrow> int \<Rightarrow> mstate \<Rightarrow> mstate result" where
  "allocate_external_computed_blocks rid num_local num_external st =
    (let (m, p) = st in
     if mg_class m = CrossAttentionManager then Inr (m, p)
     else
       let num_total = num_local + num_external;
           num_skipped_tokens = get_num_skipped_tokens (mg_spec m) num_total;
           num_external = (if num_skipped_tokens > 0 then min (num_total - num_skipped_tokens) num_external else num_external) in
       if num_external \<le> 0 then Inr (m, p)
       else rbind (get_new_blocks (cdiv num_total (mg_block_size m) - int (length (req_blocks rid m))) p) (\<lambda>(bs, p).
         Inr (extend_new_blocks rid bs m, p)))"

definition base_allocate_new_blocks :: "string \<Rightarrow> int \<Rightarrow> mstate \<Rightarrow> (kv_ref list \<times> mstate) result" where
  "base_allocate_new_blocks rid ntokens st =
    (let (m, p) = st;
         bs = req_blocks rid m;
         m = set_req_blocks rid bs m;
         num_new_blocks = cdiv ntokens (mg_block_size m) - int (length bs) in
     if num_new_blocks \<le> 0 then Inr ([], m, p)
     else rbind (get_new_blocks num_new_blocks p) (\<lambda>(new, p). Inr (new, extend_new_blocks rid new m, p)))"

text \<open>Moving the speculative blocks of the previous step behind the new null blocks.\<close>

fun mamba_move_loop :: "int list \<Rightarrow> int \<Rightarrow> kv_ref \<Rightarrow> kv_ref list \<Rightarrow> kv_ref list result" where
  "mamba_move_loop [] skipped null bs = Inr bs"
| "mamba_move_loop (i # is) skipped null bs =
    (if i < skipped then rbind (py_index bs i) (\<lambda>b.
       let j = (if i < 0 then nat (int (length bs) + 1 + i) else nat i)
       in mamba_move_loop is skipped null ((bs @ [b])[j := null]))
     else Inr bs)"

definition mamba_allocate_new_blocks ::
  "mamba_spec \<Rightarrow> string \<Rightarrow> int \<Rightarrow> int \<Rightarrow> mstate \<Rightarrow> (kv_ref list \<times> mstate) result" where
  "mamba_allocate_new_blocks ms rid ntokens num_tokens_main_model st =
    (let (m, p) = st in
     if mamba_cache_mode ms \<noteq> ''align''
     then base_allocate_new_blocks rid
       (if num_speculative_blocks ms > 0 then ntokens + mg_block_size m * num_speculative_blocks ms else ntokens) st
     else
       let bs = req_blocks rid m;
           m = set_req_blocks rid bs m;
           num_required_blocks = cdiv num_tokens_main_model (mg_block_size m) + num_speculative_blocks ms in
       if num_required_blocks \<le> int (length bs) then Inr ([], m, p)
       else
         let prev_block_len = int (length bs);
             blocks_allocated = (rid \<in> set (allocated_block_reqs m));
             m = (if blocks_allocated
                  then m\<lparr>last_state_block_idx := (last_state_block_idx m)(rid \<mapsto> prev_block_len - 1 - num_speculative_blocks ms)\<rparr>
                  else if prev_block_len > 0
                  then m\<lparr>last_state_block_idx := (last_state_block_idx m)(rid \<mapsto> prev_block_len - 1)\<rparr>
                  else m);
             num_skipped_blocks = num_required_blocks - num_speculative_blocks ms - 1;
             bs = (if prev_block_len < num_skipped_blocks
                   then bs @ replicate (nat (num_skipped_blocks - prev_block_len)) (mg_null_block m) else bs) in
         rbind (if blocks_allocated
                then mamba_move_loop [prev_block_len - num_speculative_blocks ms..prev_block_len - 1] num_skipped_blocks (mg_null_block m) bs
                else Inr bs) (\<lambda>bs.
           let num_new_blocks = num_required_blocks - int (length bs) in
           py_assert (if blocks_allocated then num_new_blocks \<le> 1 else num_new_blocks \<le> num_speculative_blocks ms + 1)
          (rbind (get_new_blocks num_new_blocks p) (\<lambda>(new, p).
             let bs = bs @ new;
                 m = set_req_blocks rid bs m;
                 m = m\<lparr>allocated_block_reqs := List.insert rid (allocated_block_reqs m)\<rparr>
             in Inr (py_from bs prev_block_len, m, p)))))"

definition allocate_new_blocks :: "string \<Rightarrow> int \<Rightarrow> int \<Rightarrow> mstate \<Rightarrow> (kv_ref list \<times> mstate) result" where
  "allocate_new_blocks rid ntokens num_tokens_main_model st =
    (if mg_class (fst st) = MambaManager
     then case mamba_of (mg_spec (fst st)) of
       None \<Rightarrow> Inl AssertionError
     | Some ms \<Rightarrow> mamba_allocate_new_blocks ms rid ntokens num_tokens_main_model st
     else base_allocate_new_blocks rid ntokens st)"

definition take_new_block_ids :: "st_manager \<Rightarrow> int list \<times> st_manager" where
  "take_new_block_ids m = (new_block_ids m, m\<lparr>new_block_ids := []\<rparr>)"

section \<open>Which blocks to register in the prefix cache\<close>

definition contiguous_blocks_for_hit :: "int \<Rightarrow> int \<Rightarrow> bool \<Rightarrow> int" where
  "contiguous_blocks_for_hit window_size bs use_eagle =
    (let blocks = cdiv (window_size - 1) bs in if use_eagle then blocks + 1 else blocks)"

definition swa_reachable_block_mask ::
  "int \<Rightarrow> int \<Rightarrow> int \<Rightarrow> int \<Rightarrow> int option \<Rightarrow> bool \<Rightarrow> int option \<Rightarrow> int option \<Rightarrow> bool list option result" where
  "swa_reachable_block_mask window bs start_block end_block alignment use_eagle retention num_prompt =
    (case alignment of
       None \<Rightarrow> Inr None
     | Some al \<Rightarrow>
         py_assert (al mod bs = 0)
           (let need = contiguous_blocks_for_hit window bs use_eagle;
                shift = (if use_eagle then 1 else 0);
                segment_tokens = (case retention of None \<Rightarrow> Some al | Some r \<Rightarrow> if r = 0 then None else Some r);
                dense = (\<lambda>i. case segment_tokens of
                    None \<Rightarrow> False
                  | Some seg \<Rightarrow> let per_segment = seg div bs in i \<ge> shift \<and> (i - shift) mod per_segment \<ge> per_segment - need);
                replay = (\<lambda>i. case (retention, num_prompt) of
                    (Some _, Some n) \<Rightarrow>
                      let latest = (n - 1) div al * al; prompt_end_block = latest div bs + shift
                      in max start_block (prompt_end_block - need) \<le> i \<and> i < min end_block prompt_end_block
                  | _ \<Rightarrow> False)
            in if (case segment_tokens of None \<Rightarrow> False | Some seg \<Rightarrow> need \<ge> seg div bs) then Inr None
               else Inr (Some (map (\<lambda>i. dense i \<or> replay i) [start_block..end_block - 1]))))"

definition mamba_reachable_block_mask ::
  "int \<Rightarrow> int \<Rightarrow> int \<Rightarrow> int option \<Rightarrow> int option \<Rightarrow> int option \<Rightarrow> bool list option" where
  "mamba_reachable_block_mask bs start_block end_block alignment retention num_prompt =
    (case (retention, alignment) of
       (Some r, Some al) \<Rightarrow>
         (let per_segment = r div bs;
              first_boundary = (start_block + per_segment) div per_segment * per_segment - 1;
              segment = (\<lambda>i. r \<noteq> 0 \<and> first_boundary \<le> i \<and> (i - first_boundary) mod per_segment = 0);
              boundary = (\<lambda>i. case num_prompt of
                  None \<Rightarrow> False
                | Some n \<Rightarrow> i = (n - 1) div al * al div bs - 1)
          in if r \<noteq> 0 \<and> per_segment \<le> 1 then None
             else Some (map (\<lambda>i. segment i \<or> boundary i) [start_block..end_block - 1]))
     | _ \<Rightarrow> None)"

definition reachable_block_mask ::
  "st_manager \<Rightarrow> int \<Rightarrow> int \<Rightarrow> int option \<Rightarrow> bool \<Rightarrow> int option \<Rightarrow> int option \<Rightarrow> bool list option result" where
  "reachable_block_mask m start_block end_block alignment use_eagle retention num_prompt =
    (case mg_class m of
       SlidingWindowManager \<Rightarrow>
         (case spec_sliding_window (mg_spec m) of
            None \<Rightarrow> Inl AssertionError
          | Some w \<Rightarrow> swa_reachable_block_mask w (spec_block_size (mg_spec m)) start_block end_block alignment use_eagle retention num_prompt)
     | MambaManager \<Rightarrow>
         if retention = None \<or> alignment = None then Inr None
         else py_assert (is_MambaSpec (mg_spec m))
           (Inr (mamba_reachable_block_mask (spec_block_size (mg_spec m)) start_block end_block alignment retention num_prompt))
     | _ \<Rightarrow> Inr None)"

definition base_cache_blocks :: "(bytes \<Rightarrow> bytes) \<Rightarrow> request \<Rightarrow> int \<Rightarrow> int option \<Rightarrow> mstate \<Rightarrow> mstate result" where
  "base_cache_blocks sha256 r ntokens retention st =
    (let (m, p) = st;
         rid = request_id r;
         num_cached_blocks = (case num_cached_block m rid of None \<Rightarrow> 0 | Some n \<Rightarrow> n);
         num_full_blocks = ntokens div mg_block_size m in
     if num_cached_blocks \<ge> num_full_blocks then Inr (m, p)
     else rbind (reachable_block_mask m num_cached_blocks num_full_blocks (Some (mg_scheduler_block_size m))
                  (mg_use_eagle m) retention (Some (num_prompt_tokens r))) (\<lambda>bmask.
       let bs = req_blocks rid m; m = set_req_blocks rid bs m in
       rbind (cache_full_blocks sha256 r bs num_cached_blocks num_full_blocks (mg_block_size m) (kv_cache_group_id m) bmask p) (\<lambda>p.
         Inr (m\<lparr>num_cached_block := (num_cached_block m)(rid \<mapsto> num_full_blocks)\<rparr>, p))))"

definition mamba_cache_blocks :: "(bytes \<Rightarrow> bytes) \<Rightarrow> request \<Rightarrow> int \<Rightarrow> int option \<Rightarrow> mstate \<Rightarrow> mstate result" where
  "mamba_cache_blocks sha256 r ntokens retention st =
    (let rid = request_id r;
         num_cached_blocks_before = (case num_cached_block (fst st) rid of None \<Rightarrow> 0 | Some n \<Rightarrow> n) in
     rbind (base_cache_blocks sha256 r ntokens retention st) (\<lambda>(m, p).
       let num_cached_blocks_after = (case num_cached_block m rid of None \<Rightarrow> 0 | Some n \<Rightarrow> n) in
       if num_cached_blocks_after > num_cached_blocks_before
       then let hs = List.map_filter (\<lambda>b. if is_null (blk p b) then None else block_hash (blk p b)) (py_slice (req_blocks rid m) num_cached_blocks_before num_cached_blocks_after)
            in Inr (m\<lparr>cached_blocks_this_step := fold List.insert hs (cached_blocks_this_step m)\<rparr>, p)
       else Inr (m, p)))"

definition cache_blocks :: "(bytes \<Rightarrow> bytes) \<Rightarrow> request \<Rightarrow> int \<Rightarrow> int option \<Rightarrow> mstate \<Rightarrow> mstate result" where
  "cache_blocks sha256 r ntokens retention st =
    (case mg_class (fst st) of
       MambaManager \<Rightarrow> mamba_cache_blocks sha256 r ntokens retention st
     | CrossAttentionManager \<Rightarrow> Inl ValueError
     | _ \<Rightarrow> base_cache_blocks sha256 r ntokens retention st)"

section \<open>Freeing\<close>

definition pop_blocks_for_free :: "string \<Rightarrow> st_manager \<Rightarrow> kv_ref list \<times> st_manager" where
  "pop_blocks_for_free rid m =
    (let m = (if mg_class m = MambaManager \<and> (case mamba_of (mg_spec m) of None \<Rightarrow> False | Some ms \<Rightarrow> mamba_cache_mode ms = ''align'')
              then m\<lparr>allocated_block_reqs := filter (\<lambda>x. x \<noteq> rid) (allocated_block_reqs m),
                    last_state_block_idx := (last_state_block_idx m)(rid := None)\<rparr>
              else m)
     in (req_blocks rid m, m\<lparr>req_to_blocks := AList.delete rid (req_to_blocks m), num_cached_block := (num_cached_block m)(rid := None)\<rparr>))"

definition mg_free :: "string \<Rightarrow> mstate \<Rightarrow> mstate result" where
  "mg_free rid st =
    (let (m, p) = st; (bs, m) = pop_blocks_for_free rid m
     in rbind (free_blocks (rev bs) p) (\<lambda>p. Inr (m, p)))"

definition py_set :: "'a list \<Rightarrow> int \<Rightarrow> 'a \<Rightarrow> 'a list" where
  "py_set xs i v = xs[(if i < 0 then nat (int (length xs) + i) else nat i) := v]"

fun remove_range_loop :: "int list \<Rightarrow> kv_ref \<Rightarrow> kv_ref list \<Rightarrow> kv_ref list \<Rightarrow> (kv_ref list \<times> kv_ref list) result" where
  "remove_range_loop [] null bs removed = Inr (bs, removed)"
| "remove_range_loop (i # is) null bs removed =
    rbind (py_index bs i) (\<lambda>b.
      if b = null then Inr (bs, removed) else remove_range_loop is null (py_set bs i null) (removed @ [b]))"

definition remove_blocks_in_range :: "string \<Rightarrow> int \<Rightarrow> int \<Rightarrow> mstate \<Rightarrow> mstate result" where
  "remove_blocks_in_range rid first_block last_block st =
    (let (m, p) = st in
     if map_of (req_to_blocks m) rid = None then Inr (m, p)
     else if first_block \<ge> last_block then Inr (m, p)
     else
       let bs = req_blocks rid m; last_block = min last_block (int (length bs)) in
       rbind (remove_range_loop (rev [first_block..last_block - 1]) (mg_null_block m) bs []) (\<lambda>(bs, removed).
         let m = set_req_blocks rid bs m in
         if removed = [] then Inr (m, p) else rbind (free_blocks removed p) (\<lambda>p. Inr (m, p))))"

definition base_remove_skipped_blocks :: "string \<Rightarrow> int \<Rightarrow> mstate \<Rightarrow> mstate result" where
  "base_remove_skipped_blocks rid total_computed st =
    (let (m, p) = st; num_skipped_tokens = get_num_skipped_tokens (mg_spec m) total_computed in
     if num_skipped_tokens \<le> 0 then Inr (m, p)
     else
       let bs = req_blocks rid m; m = set_req_blocks rid bs m;
           num_skipped_blocks = min (num_skipped_tokens div mg_block_size m) (int (length bs))
       in remove_blocks_in_range rid 0 num_skipped_blocks (m, p))"

definition rswa_remove_skipped_blocks :: "int \<Rightarrow> string \<Rightarrow> int \<Rightarrow> int \<Rightarrow> mstate \<Rightarrow> mstate result" where
  "rswa_remove_skipped_blocks window rid total_computed num_prompt st =
    (let bs = mg_block_size (fst st);
         first_gap_block = cdiv num_prompt bs;
         window_start = max num_prompt (total_computed - window);
         last_gap_block = window_start div bs
     in remove_blocks_in_range rid first_gap_block last_gap_block st)"

definition mamba_remove_skipped_blocks :: "mamba_spec \<Rightarrow> string \<Rightarrow> int \<Rightarrow> mstate \<Rightarrow> mstate result" where
  "mamba_remove_skipped_blocks ms rid num_computed st =
    (let num_computed = max 0 (num_computed - num_speculative_blocks ms) in
     rbind (base_remove_skipped_blocks rid num_computed st) (\<lambda>(m, p).
       if mamba_cache_mode ms = ''align'' then
         case last_state_block_idx m rid of
           None \<Rightarrow> Inr (m, p)
         | Some i \<Rightarrow>
             if i < cdiv num_computed (mg_block_size m) - 1 then
               let bs = req_blocks rid m; m = set_req_blocks rid bs m in
               rbind (py_index bs i) (\<lambda>b.
                 if b \<noteq> mg_null_block m
                 then rbind (free_blocks [b] p) (\<lambda>p. Inr (set_req_blocks rid (py_set bs i (mg_null_block m)) m, p))
                 else Inr (m, p))
             else Inr (m, p)
       else Inr (m, p)))"

definition remove_skipped_blocks :: "string \<Rightarrow> int \<Rightarrow> int option \<Rightarrow> mstate \<Rightarrow> mstate result" where
  "remove_skipped_blocks rid total_computed num_prompt st =
    (case mg_spec (fst st) of
       RSWASpec _ w \<Rightarrow>
         (case num_prompt of
            None \<Rightarrow> base_remove_skipped_blocks rid total_computed st
          | Some n \<Rightarrow> rswa_remove_skipped_blocks w rid total_computed n st)
     | MambaSpec ms \<Rightarrow> mamba_remove_skipped_blocks ms rid total_computed st
     | _ \<Rightarrow> base_remove_skipped_blocks rid total_computed st)"

section \<open>Longest cache hit\<close>

text \<open>
  The result has one list of blocks per group id.  The walrus test
  \<^verbatim>\<open>if cached_block := block_pool.get_cached_block(...)\<close> also fails for the empty list.
\<close>

definition cached_lookup :: "block_pool \<Rightarrow> int list \<Rightarrow> bytes \<Rightarrow> kv_ref list option result" where
  "cached_lookup p gids h = rbind (get_cached_block p h gids) (\<lambda>c. Inr (case c of None \<Rightarrow> None | Some bs \<Rightarrow> if bs = [] then None else Some bs))"

fun hit_scan :: "block_pool \<Rightarrow> int list \<Rightarrow> bytes list \<Rightarrow> kv_ref list list \<Rightarrow> kv_ref list list result" where
  "hit_scan p gids [] cols = Inr cols"
| "hit_scan p gids (h # hs) cols =
    rbind (cached_lookup p gids h) (\<lambda>c. case c of
      None \<Rightarrow> Inr cols
    | Some cached \<Rightarrow> hit_scan p gids hs (map2 (\<lambda>col b. col @ [b]) cols cached))"

definition pop_all :: "kv_ref list list \<Rightarrow> kv_ref list list result" where
  "pop_all cols = (if list_ex (\<lambda>c. c = []) cols then Inl IndexError else Inr (map butlast cols))"

text \<open>The loops that pop blocks until the hit length is a multiple of the alignment.\<close>

function align_pop :: "int \<Rightarrow> int \<Rightarrow> kv_ref list list \<Rightarrow> kv_ref list list result" where
  "align_pop bs al cols =
    (if bs = al then Inr cols
     else case cols of
       [] \<Rightarrow> Inl IndexError
     | c # cs \<Rightarrow>
         if int (length c) * bs mod al = 0 then Inr cols
         else if list_ex (\<lambda>c. c = []) cols then Inl IndexError
         else align_pop bs al (map butlast cols))"
  by pat_completeness auto
termination
  by (relation "measure (\<lambda>(bs, al, cols). length (hd cols))") auto

declare align_pop.simps [simp del]

definition drop_last :: "bool \<Rightarrow> kv_ref list list \<Rightarrow> (kv_ref list list \<Rightarrow> kv_ref list list result) \<Rightarrow> kv_ref list list result" where
  "drop_last drop_eagle_block cols k =
    (if drop_eagle_block
     then rbind (py_index cols 0) (\<lambda>c. if c \<noteq> [] then rbind (pop_all cols) k else Inr cols)
     else Inr cols)"

definition full_find_longest_cache_hit ::
  "bytes list \<Rightarrow> int \<Rightarrow> int list \<Rightarrow> block_pool \<Rightarrow> kv_spec \<Rightarrow> bool \<Rightarrow> int \<Rightarrow> int \<Rightarrow> int \<Rightarrow> kv_ref list list result" where
  "full_find_longest_cache_hit hashes max_length gids p spec drop_eagle_block al dcp pcp =
    py_assert (is_FullAttentionSpec spec \<or> is_ChunkedLocalAttentionSpec spec)
      (let bs = (if dcp * pcp > 1 then spec_block_size spec * (dcp * pcp) else spec_block_size spec);
           max_num_blocks = max_length div bs in
       if max_num_blocks < 0 then Inl ValueError
       else rbind (hit_scan p gids (take (nat max_num_blocks) hashes) (map (\<lambda>_. []) gids)) (\<lambda>cols.
         rbind (drop_last drop_eagle_block cols Inr) (align_pop bs al)))"

fun swa_loop :: "block_pool \<Rightarrow> int list \<Rightarrow> bytes list \<Rightarrow> int \<Rightarrow> int \<Rightarrow> bool \<Rightarrow> int \<Rightarrow> nat \<Rightarrow> nat \<Rightarrow> kv_ref list list \<Rightarrow>
    (bool \<times> nat \<times> kv_ref list list) result" where
  "swa_loop p gids hashes bs al drop_eagle_block need 0 ncont cols = Inr (False, ncont, cols)"
| "swa_loop p gids hashes bs al drop_eagle_block need (Suc i) ncont cols =
    rbind (py_index hashes (int i)) (\<lambda>h.
    rbind (cached_lookup p gids h) (\<lambda>c. case c of
      None \<Rightarrow> swa_loop p gids hashes bs al drop_eagle_block need i 0 cols
    | Some cached \<Rightarrow>
        if ncont = 0 \<and> bs \<noteq> al \<and> (if drop_eagle_block then int i else int i + 1) * bs mod al \<noteq> 0
        then swa_loop p gids hashes bs al drop_eagle_block need i ncont cols
        else
          let cols = map2 (\<lambda>col b. col[i := b]) cols cached; ncont = ncont + 1
          in if int ncont \<ge> need then Inr (True, ncont, map (take (i + ncont)) cols)
             else swa_loop p gids hashes bs al drop_eagle_block need i ncont cols))"

definition swa_find_longest_cache_hit ::
  "bytes list \<Rightarrow> int \<Rightarrow> int list \<Rightarrow> block_pool \<Rightarrow> kv_spec \<Rightarrow> bool \<Rightarrow> int \<Rightarrow> int \<Rightarrow> int \<Rightarrow> kv_ref list list result" where
  "swa_find_longest_cache_hit hashes max_length gids p spec drop_eagle_block al dcp pcp =
    (case spec_sliding_window spec of
       None \<Rightarrow> Inl AssertionError
     | Some window \<Rightarrow>
         py_assert (is_SlidingWindowSpec spec) (py_assert (dcp = 1) (py_assert (pcp = 1)
          (let bs = spec_block_size spec;
               need = contiguous_blocks_for_hit window bs drop_eagle_block;
               n = nat (max_length div bs) in
           rbind (swa_loop p gids hashes bs al drop_eagle_block need n 0 (map (\<lambda>_. replicate n (null_block p)) gids)) (\<lambda>(found, ncont, cols).
           rbind (if found then Inr cols else align_pop bs al (map (take ncont) cols)) (\<lambda>cols.
             drop_last drop_eagle_block cols (align_pop bs al)))))))"

fun chunk_loop :: "block_pool \<Rightarrow> int list \<Rightarrow> bytes list \<Rightarrow> int list \<Rightarrow> kv_ref list list \<Rightarrow> kv_ref list list result" where
  "chunk_loop p gids hashes [] cols = Inr cols"
| "chunk_loop p gids hashes (i # is) cols =
    rbind (py_index hashes i) (\<lambda>h.
    rbind (cached_lookup p gids h) (\<lambda>c. case c of
      None \<Rightarrow> Inr cols
    | Some cached \<Rightarrow> chunk_loop p gids hashes is (map2 (\<lambda>col b. col @ [b]) cols cached)))"

definition chunked_find_longest_cache_hit ::
  "bytes list \<Rightarrow> int \<Rightarrow> int list \<Rightarrow> block_pool \<Rightarrow> kv_spec \<Rightarrow> bool \<Rightarrow> int \<Rightarrow> int \<Rightarrow> int \<Rightarrow> kv_ref list list result" where
  "chunked_find_longest_cache_hit hashes max_length gids p spec drop_eagle_block al dcp pcp =
    (case spec of
       ChunkedLocalAttentionSpec _ chunk \<Rightarrow>
         py_assert (\<not> drop_eagle_block) (py_assert (dcp = 1) (py_assert (pcp = 1) (py_assert (spec_block_size spec = al)
          (let bs = spec_block_size spec;
               max_num_blocks = max_length div bs;
               start = (if max_length > 0 then max_length div chunk * chunk else 0);
               start_block = start div bs in
           chunk_loop p gids hashes [start_block..max_num_blocks - 1] (map (\<lambda>_. replicate (nat start_block) (null_block p)) gids)))))
     | _ \<Rightarrow> Inl AssertionError)"

fun mamba_loop :: "block_pool \<Rightarrow> int list \<Rightarrow> bytes list \<Rightarrow> int \<Rightarrow> int \<Rightarrow> nat \<Rightarrow> kv_ref list list result" where
  "mamba_loop p gids hashes bs al 0 = Inr (map (\<lambda>_. []) gids)"
| "mamba_loop p gids hashes bs al (Suc i) =
    rbind (py_index hashes (int i)) (\<lambda>h.
    rbind (cached_lookup p gids h) (\<lambda>c. case c of
      None \<Rightarrow> mamba_loop p gids hashes bs al i
    | Some cached \<Rightarrow>
        if bs \<noteq> al \<and> (int i + 1) * bs mod al \<noteq> 0 then mamba_loop p gids hashes bs al i
        else Inr (map2 (\<lambda>_ b. replicate i (null_block p) @ [b]) gids cached)))"

definition mamba_find_longest_cache_hit ::
  "bytes list \<Rightarrow> int \<Rightarrow> int list \<Rightarrow> block_pool \<Rightarrow> kv_spec \<Rightarrow> bool \<Rightarrow> int \<Rightarrow> int \<Rightarrow> int \<Rightarrow> kv_ref list list result" where
  "mamba_find_longest_cache_hit hashes max_length gids p spec drop_eagle_block al dcp pcp =
    py_assert (is_MambaSpec spec) (py_assert (dcp = 1) (py_assert (pcp = 1)
      (mamba_loop p gids hashes (spec_block_size spec) al (nat (max_length div spec_block_size spec)))))"

definition cross_find_longest_cache_hit :: "kv_spec \<Rightarrow> kv_ref list list result" where
  "cross_find_longest_cache_hit spec = py_assert (is_CrossAttentionSpec spec) (Inl NotImplementedError)"

definition find_longest_cache_hit ::
  "manager_class \<Rightarrow> bytes list \<Rightarrow> int \<Rightarrow> int list \<Rightarrow> block_pool \<Rightarrow> kv_spec \<Rightarrow> bool \<Rightarrow> int \<Rightarrow> int \<Rightarrow> int \<Rightarrow> kv_ref list list result" where
  "find_longest_cache_hit cls hashes max_length gids p spec drop_eagle_block al dcp pcp =
    (case cls of
       SlidingWindowManager \<Rightarrow> swa_find_longest_cache_hit hashes max_length gids p spec drop_eagle_block al dcp pcp
     | ChunkedLocalAttentionManager \<Rightarrow> chunked_find_longest_cache_hit hashes max_length gids p spec drop_eagle_block al dcp pcp
     | MambaManager \<Rightarrow> mamba_find_longest_cache_hit hashes max_length gids p spec drop_eagle_block al dcp pcp
     | CrossAttentionManager \<Rightarrow> cross_find_longest_cache_hit spec
     | _ \<Rightarrow> full_find_longest_cache_hit hashes max_length gids p spec drop_eagle_block al dcp pcp)"

section \<open>Common prefix of all requests\<close>

definition get_num_common_prefix_blocks :: "string \<Rightarrow> block_pool \<Rightarrow> st_manager \<Rightarrow> int \<times> st_manager" where
  "get_num_common_prefix_blocks rid p m =
    (if mg_class m \<in> {FullAttentionManager, RSWAManager, SinkFullAttentionManager}
     then let bs = req_blocks rid m; m = set_req_blocks rid bs m
          in (int (length (takeWhile (\<lambda>b. ref_cnt (blk p b) = int (length (req_to_blocks m))) bs)), m)
     else (0, m))"

definition new_step_starts :: "st_manager \<Rightarrow> st_manager" where
  "new_step_starts m = (if mg_class m = MambaManager then m\<lparr>cached_blocks_this_step := []\<rparr> else m)"

end
