(* ===== verification/Manager_Safety.thy ===== *)
theory Manager_Safety
  imports Single_Type
begin

text \<open>
  The block tables of a manager account for the references its requests hold in the
  block pool: every operation of a manager moves the pool along the steps of
  \<^const>\<open>pool_step\<close>, and the references held are at any time the blocks in the tables, plus a
  remainder that belongs to the other managers.
\<close>

section \<open>The references held by a manager\<close>

definition tables :: "st_manager \<Rightarrow> kv_ref list" where
  "tables m = concat (map snd (req_to_blocks m))"

definition mg_held :: "block_pool \<Rightarrow> st_manager \<Rightarrow> kv_ref multiset" where
  "mg_held p m = real_blocks p (tables m)"

definition others :: "block_pool \<Rightarrow> string \<Rightarrow> st_manager \<Rightarrow> kv_ref multiset" where
  "others p rid m = real_blocks p (concat (map snd (AList.delete rid (req_to_blocks m))))"

definition table_ok :: "block_pool \<Rightarrow> kv_ref list \<Rightarrow> bool" where
  "table_ok p bs \<longleftrightarrow> list_all (known p) bs \<and> distinct (filter (in_pool p) bs)"

text \<open>A request that Mamba's align mode has allocated for keeps its speculative blocks in the table.\<close>

definition align_ok :: "st_manager \<Rightarrow> bool" where
  "align_ok m \<longleftrightarrow> (\<forall>rid \<in> set (allocated_block_reqs m). mg_class m = MambaManager \<and>
    (\<exists>ms. mg_spec m = MambaSpec ms \<and> mamba_cache_mode ms = ''align'' \<and> 0 \<le> num_speculative_blocks ms \<and>
      num_speculative_blocks ms \<le> int (length (req_blocks rid m))))"

definition mg_ok :: "block_pool \<Rightarrow> st_manager \<Rightarrow> bool" where
  "mg_ok p m \<longleftrightarrow> distinct (map fst (req_to_blocks m)) \<and> (\<forall>x \<in> set (req_to_blocks m). table_ok p (snd x)) \<and>
    mg_null_block m = Blk 0 \<and> 0 < mg_block_size m \<and> (\<forall>rid n. num_cached_block m rid = Some n \<longrightarrow> 0 \<le> n) \<and> align_ok m"

lemma pool_config_fun: "pool_config p' = pool_config p \<Longrightarrow> in_pool p' = in_pool p \<and> known p' = known p"
  by (intro conjI ext in_pool_config known_config)

lemma table_ok_config: "pool_config p' = pool_config p \<Longrightarrow> table_ok p' bs \<longleftrightarrow> table_ok p bs"
  using pool_config_fun [of p' p] by (simp add: table_ok_def)

lemma table_ok_drop: "table_ok p bs \<Longrightarrow> table_ok p (drop n bs)"
  using append_take_drop_id [of n bs] unfolding table_ok_def by (metis distinct_append filter_append list_all_append)

lemma mg_ok_config: "pool_config p' = pool_config p \<Longrightarrow> mg_ok p' m \<longleftrightarrow> mg_ok p m"
  by (simp only: mg_ok_def table_ok_config [of p' p])

lemma mg_held_config: "pool_config p' = pool_config p \<Longrightarrow> mg_held p' m = mg_held p m"
  using pool_config_fun [of p' p] by (simp add: mg_held_def)

lemma others_config: "pool_config p' = pool_config p \<Longrightarrow> others p' rid m = others p rid m"
  using pool_config_fun [of p' p] by (simp add: others_def)

lemma req_blocks_set [simp]: "req_blocks rid (set_req_blocks rid bs m) = bs"
  by (simp add: req_blocks_def set_req_blocks_def update_conv')

lemma req_blocks_set_if: "req_blocks rid' (set_req_blocks rid bs m) = (if rid' = rid then bs else req_blocks rid' m)"
  by (simp add: req_blocks_def set_req_blocks_def update_conv')

lemma align_ok_mono:
  assumes "align_ok m" "set (allocated_block_reqs m') \<subseteq> set (allocated_block_reqs m)" "mg_class m' = mg_class m" "mg_spec m' = mg_spec m"
    and "\<And>rid. rid \<in> set (allocated_block_reqs m') \<Longrightarrow> length (req_blocks rid m) \<le> length (req_blocks rid m')"
  shows "align_ok m'"
  unfolding align_ok_def
proof (intro ballI)
  fix rid assume rid: "rid \<in> set (allocated_block_reqs m')"
  then obtain ms where "mg_class m = MambaManager" "mg_spec m = MambaSpec ms" "mamba_cache_mode ms = ''align''"
    "0 \<le> num_speculative_blocks ms" "num_speculative_blocks ms \<le> int (length (req_blocks rid m))"
    using assms(1,2) unfolding align_ok_def by blast
  then show "mg_class m' = MambaManager \<and> (\<exists>ms. mg_spec m' = MambaSpec ms \<and> mamba_cache_mode ms = ''align'' \<and>
      0 \<le> num_speculative_blocks ms \<and> num_speculative_blocks ms \<le> int (length (req_blocks rid m')))"
    using assms(3,4) assms(5) [OF rid] by (intro conjI exI [of _ ms]) auto
qed

lemma set_req_blocks_fields [simp]:
  "mg_block_size (set_req_blocks rid bs m) = mg_block_size m" "mg_null_block (set_req_blocks rid bs m) = mg_null_block m"
  "num_cached_block (set_req_blocks rid bs m) = num_cached_block m" "mg_class (set_req_blocks rid bs m) = mg_class m"
  "mg_spec (set_req_blocks rid bs m) = mg_spec m" "mg_enable_caching (set_req_blocks rid bs m) = mg_enable_caching m"
  "kv_cache_group_id (set_req_blocks rid bs m) = kv_cache_group_id m"
  "mg_scheduler_block_size (set_req_blocks rid bs m) = mg_scheduler_block_size m" "mg_use_eagle (set_req_blocks rid bs m) = mg_use_eagle m"
  "max_admission_blocks_per_request (set_req_blocks rid bs m) = max_admission_blocks_per_request m"
  "allocated_block_reqs (set_req_blocks rid bs m) = allocated_block_reqs m"
  "last_state_block_idx (set_req_blocks rid bs m) = last_state_block_idx m"
  by (simp_all add: set_req_blocks_def)

lemma align_ok_upd [simp]:
  "align_ok (m\<lparr>new_block_ids := x\<rparr>) = align_ok m" "align_ok (m\<lparr>num_cached_block := c\<rparr>) = align_ok m"
  "align_ok (m\<lparr>cached_blocks_this_step := y\<rparr>) = align_ok m" "align_ok (m\<lparr>last_state_block_idx := i\<rparr>) = align_ok m"
  by (simp_all add: align_ok_def req_blocks_def)

lemma align_ok_set: "align_ok m \<Longrightarrow> length (req_blocks rid m) \<le> length bs \<Longrightarrow> align_ok (set_req_blocks rid bs m)"
  by (rule align_ok_mono [of m]) (auto simp: req_blocks_set_if)

lemma tables_split:
  assumes "distinct (map fst al)"
  shows "real_blocks p (concat (map snd al)) =
    real_blocks p (case map_of al rid of None \<Rightarrow> [] | Some bs \<Rightarrow> bs) + real_blocks p (concat (map snd (AList.delete rid al)))"
  using assms
proof (induction al)
  case Nil
  then show ?case by simp
next
  case (Cons x al)
  obtain k v where x: "x = (k, v)" by fastforce
  show ?case
  proof (cases "k = rid")
    case True
    then have "map_of al rid = None" using Cons.prems x by (simp add: map_of_eq_None_iff)
    then show ?thesis using Cons x True by simp
  next
    case False
    then show ?thesis using Cons x by (simp add: ac_simps)
  qed
qed

lemma held_split: "mg_ok p m \<Longrightarrow> mg_held p m = real_blocks p (req_blocks rid m) + others p rid m"
  unfolding mg_held_def tables_def others_def req_blocks_def by (rule tables_split) (simp add: mg_ok_def)

lemma others_set [simp]: "others p rid (set_req_blocks rid bs m) = others p rid m"
  by (simp add: others_def set_req_blocks_def delete_update_same)

lemma set_update_subset: "set (AList.update k v al) \<subseteq> insert (k, v) (set al)"
  by (induction al) auto

lemma mg_ok_set:
  assumes "mg_ok p m" "table_ok p bs" "length (req_blocks rid m) \<le> length bs"
  shows "mg_ok p (set_req_blocks rid bs m)"
proof -
  have "\<forall>x \<in> set (req_to_blocks (set_req_blocks rid bs m)). table_ok p (snd x)"
    using assms(1,2) set_update_subset [of rid bs "req_to_blocks m"] by (auto simp: mg_ok_def set_req_blocks_def)
  moreover have "distinct (map fst (req_to_blocks (set_req_blocks rid bs m)))"
    using assms(1) by (simp add: mg_ok_def set_req_blocks_def distinct_update)
  ultimately show ?thesis using assms align_ok_set [of m rid bs] by (simp add: mg_ok_def)
qed

lemma held_set:
  "mg_ok p m \<Longrightarrow> table_ok p bs \<Longrightarrow> length (req_blocks rid m) \<le> length bs \<Longrightarrow>
    mg_held p (set_req_blocks rid bs m) = real_blocks p bs + others p rid m"
  using held_split [OF mg_ok_set, of p m bs rid rid] by simp

lemma table_ok_req: "mg_ok p m \<Longrightarrow> table_ok p (req_blocks rid m)"
  unfolding req_blocks_def by (cases "map_of (req_to_blocks m) rid") (auto simp: mg_ok_def table_ok_def dest!: map_of_SomeD)

section \<open>Reachable states of a manager and its pool\<close>

definition mreach :: "(bytes \<Rightarrow> bytes) \<Rightarrow> (request \<Rightarrow> bool) \<Rightarrow> kv_ref multiset \<Rightarrow> mstate \<Rightarrow> bool" where
  "mreach sha256 okr rest st \<longleftrightarrow> mg_ok (snd st) (fst st) \<and>
    (\<exists>reg. pool_reach sha256 okr (snd st, mg_held (snd st) (fst st) + rest, reg))"

lemma mreachI:
  "mg_ok p m \<Longrightarrow> pool_reach sha256 okr (p, held, reg) \<Longrightarrow> held = mg_held p m + rest \<Longrightarrow> mreach sha256 okr rest (m, p)"
  by (auto simp: mreach_def)

lemma mreachE:
  assumes "mreach sha256 okr rest (m, p)"
  obtains reg xs where "mg_ok p m" "pool_reach sha256 okr (p, mg_held p m + rest, reg)" "pool_inv p xs" "alloc_inv p xs"
    "cache_inv p" "counted p (mg_held p m + rest)"
  using assms reachD unfolding mreach_def by (metis fst_conv snd_conv)

lemma mreach_fields:
  assumes "mreach sha256 okr rest (m, p)" "req_to_blocks m' = req_to_blocks m" "mg_null_block m' = mg_null_block m"
    "mg_block_size m' = mg_block_size m" "\<forall>rid n. num_cached_block m' rid = Some n \<longrightarrow> 0 \<le> n" "align_ok m'"
  shows "mreach sha256 okr rest (m', p)"
proof -
  have "mg_ok p m \<Longrightarrow> mg_ok p m'" using assms(2-6) by (simp add: mg_ok_def)
  moreover have "mg_held p m' = mg_held p m" using assms(2) by (simp add: mg_held_def tables_def)
  ultimately show ?thesis using assms(1) by (simp add: mreach_def)
qed

text \<open>Replacing the table of a request, with the pool moved along accordingly.\<close>

lemma mreach_set:
  assumes "mg_ok p m" "pool_config p' = pool_config p" "table_ok p bs" "length (req_blocks rid m) \<le> length bs"
    and "pool_reach sha256 okr (p', held, reg)" "held = real_blocks p bs + others p rid m + rest"
  shows "mreach sha256 okr rest (set_req_blocks rid bs m, p')"
proof (rule mreachI [OF _ assms(5)])
  show "mg_ok p' (set_req_blocks rid bs m)" using mg_ok_set [OF assms(1,3,4)] by (simp add: mg_ok_config [OF assms(2)])
  show "held = mg_held p' (set_req_blocks rid bs m) + rest"
    using held_set [OF assms(1,3,4)] assms(6) by (simp add: mg_held_config [OF assms(2)])
qed

lemma mreach_same_table: "mreach sha256 okr rest (m, p) \<Longrightarrow> mreach sha256 okr rest (set_req_blocks rid (req_blocks rid m) m, p)"
  by (erule mreachE) (auto intro!: mreach_set simp: table_ok_req held_split [of p m rid])

section \<open>Pool operations on a table\<close>

lemma not_in_pool_0 [simp]: "\<not> in_pool p (Blk 0)"
  by (simp add: in_pool_def)

lemma known_0 [simp]: "known p (Blk 0)"
  by (simp add: known_def)

lemma mreach_get_new:
  assumes r: "mreach sha256 okr rest (m, p)" and n: "0 \<le> n" and g: "get_new_blocks n p = Inr (new, p')"
    and bs: "table_ok p bs" "real_blocks p bs = real_blocks p (req_blocks rid m)" "length (req_blocks rid m) \<le> length bs"
  shows "mreach sha256 okr rest (set_req_blocks rid (bs @ new) m, p') \<and> pool_config p' = pool_config p \<and> int (length new) = n"
proof -
  obtain reg xs where R: "mg_ok p m" "pool_reach sha256 okr (p, mg_held p m + rest, reg)" "pool_inv p xs" "alloc_inv p xs"
    "counted p (mg_held p m + rest)" using r by (rule mreachE)
  note G = get_new_blocks_inr [OF R(3) n g]
  have free: "in_pool p b \<and> b \<notin># mg_held p m + rest" if "b \<in> set new" for b
    using free_iff [OF R(4,5), of b] that G(1) in_set_takeD by metis
  have "distinct new" using G(1) alloc_invD(8) [OF R(4)] by simp
  moreover have "b \<notin> set bs" if "b \<in> set new" for b
    using free [OF that] bs(2) held_split [OF R(1), of rid] by (metis set_filter set_mset_mset mem_Collect_eq union_iff)
  moreover have "filter (in_pool p) new = new" using free by (auto intro!: filter_True)
  ultimately have t: "table_ok p (bs @ new)" using bs(1) free by (auto simp: table_ok_def list_all_iff known_def)
  have "mreach sha256 okr rest (set_req_blocks rid (bs @ new) m, p')"
    using pool_reach.step [OF R(2) pool_step.allocate [OF n g]] bs(2) held_split [OF R(1), of rid] free
    bs(3) by (intro mreach_set [OF R(1) G(4) t]) (auto simp: ac_simps intro!: filter_True)
  then show ?thesis using G(2,4) by simp
qed

lemma mreach_touch:
  assumes r: "mreach sha256 okr rest (m, p)" and e: "req_blocks rid m = []"
    and bs: "table_ok p bs" and t: "touch bs p = Inr p'"
  shows "mreach sha256 okr rest (set_req_blocks rid (replicate k (Blk 0) @ bs) m, p') \<and> pool_config p' = pool_config p"
proof -
  obtain reg xs where R: "mg_ok p m" "pool_reach sha256 okr (p, mg_held p m + rest, reg)" "alloc_inv p xs"
    using r by (rule mreachE)
  have k: "list_all (known p) bs" using bs by (simp add: table_ok_def)
  have cfg: "pool_config p' = pool_config p" using touch_ok [OF R(3), of bs] k t by (auto simp: list_all_iff same_cacheD)
  have h: "mg_held p m = others p rid m" using held_split [OF R(1), of rid] e by simp
  have "table_ok p (replicate k (Blk 0) @ bs)" using bs by (auto simp: table_ok_def list_all_iff)
  then have "mreach sha256 okr rest (set_req_blocks rid (replicate k (Blk 0) @ bs) m, p')"
    using pool_reach.step [OF R(2) pool_step.touch [OF k t]] unfolding h
    using e by (intro mreach_set [OF R(1) cfg]) (simp_all add: ac_simps)
  then show ?thesis using cfg by simp
qed

lemma free_blocks_succeeds:
  assumes a: "alloc_inv p xs" and k: "list_all (known p) bs" and c: "counted p held" and h: "real_blocks p bs \<subseteq># held"
  shows "\<exists>p'. free_blocks bs p = Inr p' \<and> same_cache p p'"
proof (rule exE [OF free_blocks_ok [OF a, of bs]], goal_cases)
  case (1 b)
  then show ?case using k by (simp add: list_all_iff)
next
  case (2 b)
  then show ?case by (rule held_le [OF c h])
next
  case (3 p')
  then show ?case by blast
qed

lemma mreach_free_blocks:
  assumes r: "mreach sha256 okr rest (m, p)" and k: "list_all (known p) gone"
    and h: "real_blocks p gone \<subseteq># mg_held p m"
  obtains p' reg where "free_blocks gone p = Inr p'" "pool_config p' = pool_config p"
    "pool_reach sha256 okr (p', mg_held p m - real_blocks p gone + rest, reg)"
proof -
  obtain reg xs where R: "pool_reach sha256 okr (p, mg_held p m + rest, reg)" "alloc_inv p xs" "counted p (mg_held p m + rest)"
    using r by (rule mreachE)
  have h': "real_blocks p gone \<subseteq># mg_held p m + rest" using h by (rule subset_mset.order_trans) simp
  obtain p' where f: "free_blocks gone p = Inr p'" "same_cache p p'"
    using free_blocks_succeeds [OF R(2) k R(3) h'] by (elim exE conjE)
  have "mg_held p m + rest - real_blocks p gone = mg_held p m - real_blocks p gone + rest"
    using subset_mset.add_diff_assoc2 [OF h, of rest] by simp
  then show ?thesis
    using that [OF f(1) same_cacheD [OF f(2)]] pool_reach.step [OF R(1) pool_step.free [OF k h' f(1)]] by simp
qed

lemma mreach_free:
  assumes r: "mreach sha256 okr rest (m, p)" and k: "list_all (known p) gone"
    and bs: "table_ok p bs" "real_blocks p (req_blocks rid m) = real_blocks p bs + real_blocks p gone"
      "length (req_blocks rid m) \<le> length bs"
  shows "\<exists>p'. free_blocks gone p = Inr p' \<and> mreach sha256 okr rest (set_req_blocks rid bs m, p') \<and> pool_config p' = pool_config p"
proof -
  have R: "mg_ok p m" using r by (rule mreachE)
  have h: "mg_held p m = real_blocks p bs + others p rid m + real_blocks p gone"
    using held_split [OF R, of rid] bs(2) by (simp add: ac_simps)
  then have "real_blocks p gone \<subseteq># mg_held p m" by simp
  then obtain p' reg where "free_blocks gone p = Inr p'" "pool_config p' = pool_config p"
    "pool_reach sha256 okr (p', mg_held p m - real_blocks p gone + rest, reg)" by (rule mreach_free_blocks [OF r k])
  then show ?thesis using mreach_set [OF R _ bs(1,3)] h by auto
qed

section \<open>Operations\<close>

text \<open>The parts of a manager that no operation changes.\<close>

definition mg_static :: "st_manager \<Rightarrow> _" where
  "mg_static m = (mg_class m, mg_spec m, mg_scheduler_block_size m, mg_block_size m, mg_enable_caching m,
    max_admission_blocks_per_request m, kv_cache_group_id m, mg_use_eagle m)"

definition keeps :: "mstate \<Rightarrow> mstate \<Rightarrow> bool" where
  "keeps st st' \<longleftrightarrow> mg_static (fst st') = mg_static (fst st) \<and> pool_config (snd st') = pool_config (snd st)"

lemma keeps_refl [simp]: "keeps st st"
  by (simp add: keeps_def)

lemma keeps_trans: "keeps a b \<Longrightarrow> keeps b c \<Longrightarrow> keeps a c"
  by (simp add: keeps_def)

lemma mg_static_set [simp]: "mg_static (set_req_blocks rid bs m) = mg_static m"
  by (simp add: mg_static_def set_req_blocks_def)

lemma extend_new_blocks_alt:
  "extend_new_blocks rid bs m = (let m' = set_req_blocks rid (req_blocks rid m @ bs) m
     in if record_new_block_ids m then m'\<lparr>new_block_ids := new_block_ids m @ map block_id bs\<rparr> else m')"
  by (simp add: extend_new_blocks_def set_req_blocks_def Let_def)

lemma mreach_extend:
  assumes r: "mreach sha256 okr rest (m, p)" and n: "0 \<le> n" and g: "get_new_blocks n p = Inr (new, p')"
  shows "mreach sha256 okr rest (extend_new_blocks rid new m, p') \<and> keeps (m, p) (extend_new_blocks rid new m, p') \<and>
    req_blocks rid (extend_new_blocks rid new m) = req_blocks rid m @ new \<and> int (length new) = n \<and>
    num_cached_block (extend_new_blocks rid new m) = num_cached_block m"
proof -
  have ok: "mg_ok p m" using r by (rule mreachE)
  let ?m = "set_req_blocks rid (req_blocks rid m @ new) m"
  have N: "mreach sha256 okr rest (?m, p')" "pool_config p' = pool_config p" "int (length new) = n"
    using mreach_get_new [OF r n g table_ok_req [OF ok] refl order_refl] by auto
  have "mg_ok p' ?m" using N(1) by (rule mreachE)
  then have "mreach sha256 okr rest (extend_new_blocks rid new m, p')"
    by (intro mreach_fields [OF N(1)]) (auto simp: extend_new_blocks_alt Let_def mg_ok_def)
  moreover have "req_blocks rid (extend_new_blocks rid new m) = req_blocks rid m @ new"
    by (simp add: extend_new_blocks_alt Let_def req_blocks_def set_req_blocks_def update_conv')
  ultimately show ?thesis using N by (simp add: keeps_def extend_new_blocks_alt Let_def mg_static_def)
qed

lemma mg_upd_fields [simp]:
  "req_blocks rid (m\<lparr>last_state_block_idx := i\<rparr>) = req_blocks rid m" "mg_static (m\<lparr>last_state_block_idx := i\<rparr>) = mg_static m"
  "req_blocks rid (m\<lparr>cached_blocks_this_step := c\<rparr>) = req_blocks rid m" "mg_static (m\<lparr>cached_blocks_this_step := c\<rparr>) = mg_static m"
  "req_blocks rid (m\<lparr>num_cached_block := n\<rparr>) = req_blocks rid m" "mg_static (m\<lparr>num_cached_block := n\<rparr>) = mg_static m"
  "req_blocks rid (m\<lparr>allocated_block_reqs := l\<rparr>) = req_blocks rid m" "mg_static (m\<lparr>allocated_block_reqs := l\<rparr>) = mg_static m"
  "req_blocks rid (m\<lparr>new_block_ids := ids\<rparr>) = req_blocks rid m" "mg_static (m\<lparr>new_block_ids := ids\<rparr>) = mg_static m"
  by (simp_all add: req_blocks_def mg_static_def)

lemma add_local_safe:
  assumes r: "mreach sha256 okr rest (m, p)" and bs: "table_ok p new"
    and e: "add_local_computed_blocks rid new nl ne (m, p) = Inr (m', p')"
  shows "mreach sha256 okr rest (m', p') \<and> keeps (m, p) (m', p') \<and>
    (mg_class m \<noteq> CrossAttentionManager \<longrightarrow> int (length (req_blocks rid m')) =
      max (get_num_skipped_tokens (mg_spec m) (nl + ne) div mg_block_size m) (int (length new)))"
proof (cases "mg_class m = CrossAttentionManager")
  case True
  then show ?thesis using e r by (simp add: add_local_computed_blocks_def)
next
  case False
  define k where "k = get_num_skipped_tokens (mg_spec m) (nl + ne) div mg_block_size m"
  define bs' where "bs' = (if k > 0 then py_from new k else new)"
  have ok: "mg_ok p m" using r by (rule mreachE)
  have z: "req_blocks rid m = []" and p': "if mg_enable_caching m then touch bs' p = Inr p' else bs' = [] \<and> p' = p"
    and m': "m' = (set_req_blocks rid (replicate (nat k) (Blk 0) @ bs') m)
      \<lparr>num_cached_block := (num_cached_block m)(rid \<mapsto> int (length (replicate (nat k) (Blk 0) @ bs')))\<rparr>"
  proof -
    have null: "mg_null_block m = Blk 0" using ok by (simp add: mg_ok_def)
    have "length (req_blocks rid m) = 0 \<and> rbind (if mg_enable_caching m then touch bs' p else py_assert (bs' = []) (Inr p)) (\<lambda>p.
        Inr ((set_req_blocks rid (replicate (nat k) (Blk 0) @ bs') m)
          \<lparr>num_cached_block := (num_cached_block m)(rid \<mapsto> int (length (replicate (nat k) (Blk 0) @ bs')))\<rparr>, p)) = Inr (m', p')"
      using e False unfolding add_local_computed_blocks_def Let_def prod.case k_def [symmetric] bs'_def [symmetric] null
      by (simp only: if_False py_assert_eq_Inr set_req_blocks_fields)
    then show "req_blocks rid m = []" "if mg_enable_caching m then touch bs' p = Inr p' else bs' = [] \<and> p' = p"
      "m' = (set_req_blocks rid (replicate (nat k) (Blk 0) @ bs') m)
        \<lparr>num_cached_block := (num_cached_block m)(rid \<mapsto> int (length (replicate (nat k) (Blk 0) @ bs')))\<rparr>"
      by (auto split: if_splits)
  qed
  have t: "table_ok p bs'" using bs by (simp add: bs'_def table_ok_drop)
  have "touch bs' p = Inr p'" using p' by (cases "mg_enable_caching m") (simp_all add: touch_def)
  then have T: "mreach sha256 okr rest (set_req_blocks rid (replicate (nat k) (Blk 0) @ bs') m, p')" "pool_config p' = pool_config p"
    using mreach_touch [OF r _ t, of rid p' "nat k"] z by auto
  have "mreach sha256 okr rest (m', p')"
    using ok align_ok_set [of m rid] z by (intro mreach_fields [OF T(1)]) (auto simp: m' mg_ok_def)
  moreover have "int (length (req_blocks rid m')) = max k (int (length new))" by (auto simp: m' bs'_def)
  ultimately show ?thesis using T(2) by (simp add: keeps_def m' mg_static_def k_def)
qed

lemma allocate_external_safe:
  assumes r: "mreach sha256 okr rest (m, p)"
    and l: "mg_class m \<noteq> CrossAttentionManager \<Longrightarrow> int (length (req_blocks rid m)) \<le> cdiv (nl + ne) (mg_block_size m)"
    and e: "allocate_external_computed_blocks rid nl ne (m, p) = Inr (m', p')"
  shows "mreach sha256 okr rest (m', p') \<and> keeps (m, p) (m', p')"
proof (cases "mg_class m = CrossAttentionManager")
  case True
  then have "m' = m" "p' = p" using e by (simp_all add: allocate_external_computed_blocks_def)
  then show ?thesis using r by simp
next
  case c: False
  define x where "x = (if get_num_skipped_tokens (mg_spec m) (nl + ne) > 0 then min (nl + ne - get_num_skipped_tokens (mg_spec m) (nl + ne)) ne else ne)"
  let ?n = "cdiv (nl + ne) (mg_block_size m) - int (length (req_blocks rid m))"
  have H: "(if x \<le> 0 then Inr (m, p) else rbind (get_new_blocks ?n p) (\<lambda>(bs, p). Inr (extend_new_blocks rid bs m, p))) = Inr (m', p')"
    using e c unfolding allocate_external_computed_blocks_def Let_def prod.case x_def by (simp only: if_False)
  show ?thesis
  proof (cases "x \<le> 0")
    case True
    then have "m' = m" "p' = p" using H by simp_all
    then show ?thesis using r by simp
  next
    case False
    then obtain new where "get_new_blocks ?n p = Inr (new, p')" "m' = extend_new_blocks rid new m" using H by auto
    then show ?thesis using mreach_extend [OF r, of ?n new p' rid] l [OF c] by simp
  qed
qed

lemma base_allocate_safe:
  assumes r: "mreach sha256 okr rest (m, p)" and e: "base_allocate_new_blocks rid n (m, p) = Inr (new, m', p')"
  shows "mreach sha256 okr rest (m', p') \<and> keeps (m, p) (m', p') \<and> req_blocks rid m' = req_blocks rid m @ new \<and>
    int (length (req_blocks rid m')) = max (cdiv n (mg_block_size m)) (int (length (req_blocks rid m))) \<and>
    num_cached_block m' = num_cached_block m"
proof -
  let ?m = "set_req_blocks rid (req_blocks rid m) m"
  have r': "mreach sha256 okr rest (?m, p)" using r by (rule mreach_same_table)
  have k: "keeps (m, p) (?m, p)" by (simp add: keeps_def)
  define d where "d = cdiv n (mg_block_size m) - int (length (req_blocks rid m))"
  have e': "(if d \<le> 0 then Inr ([], ?m, p) else rbind (get_new_blocks d p) (\<lambda>(new, p). Inr (new, extend_new_blocks rid new ?m, p))) = Inr (new, m', p')"
    using e unfolding base_allocate_new_blocks_def Let_def prod.case set_req_blocks_fields d_def .
  show ?thesis
  proof (cases "d \<le> 0")
    case True
    then have "new = []" "m' = ?m" "p' = p" using e' by auto
    then show ?thesis using r' k True by (simp add: d_def)
  next
    case False
    then have "get_new_blocks d p = Inr (new, p')" "m' = extend_new_blocks rid new ?m" using e' by auto
    then show ?thesis using mreach_extend [OF r', of d new p' rid] False keeps_trans [OF k] by (auto simp: d_def)
  qed
qed

lemma known_append_null:
  assumes "table_ok p bs"
  shows "table_ok p (bs @ replicate k (Blk 0))" "real_blocks p (bs @ replicate k (Blk 0)) = real_blocks p bs"
  using assms by (auto simp: table_ok_def list_all_iff)

text \<open>Moving a block to the end of the table and leaving the null block in its place.\<close>

lemma move_block_ok:
  assumes t: "table_ok p bs" and j: "j < length bs"
  shows "table_ok p ((bs @ [bs ! j])[j := Blk 0])" "real_blocks p ((bs @ [bs ! j])[j := Blk 0]) = real_blocks p bs"
proof -
  let ?bs = "(bs @ [bs ! j])[j := Blk 0]"
  have "mset ?bs = add_mset (Blk 0) (mset bs)" using j by (simp add: mset_update nth_append)
  then show m: "real_blocks p ?bs = real_blocks p bs" unfolding mset_filter by simp
  have "set ?bs \<subseteq> insert (Blk 0) (set bs)" using j by (auto dest!: set_update_subset_insert [THEN subsetD])
  then show "table_ok p ?bs"
    using t mset_eq_imp_distinct_iff [OF m] unfolding table_ok_def list_all_iff by auto
qed

lemma mamba_move_loop_ok:
  assumes "mamba_move_loop is skipped (Blk 0) bs = Inr bs'" "table_ok p bs" "\<forall>i \<in> set is. 0 \<le> i"
  shows "table_ok p bs' \<and> real_blocks p bs' = real_blocks p bs \<and> length bs \<le> length bs'"
  using assms
proof (induction "is" arbitrary: bs)
  case Nil
  then show ?case by simp
next
  case (Cons i "is")
  show ?case
  proof (cases "i < skipped")
    case False
    then show ?thesis using Cons.prems by simp
  next
    case True
    then obtain b where b: "py_index bs i = Inr b" "mamba_move_loop is skipped (Blk 0) ((bs @ [b])[nat i := Blk 0]) = Inr bs'"
      using Cons.prems by (auto simp: Let_def)
    then have i: "nat i < length bs" "b = bs ! nat i" using Cons.prems(3) by (auto simp: py_index_def split: if_splits)
    note M = move_block_ok [OF Cons.prems(2) i(1)]
    show ?thesis using Cons.IH [OF b(2)] M Cons.prems(3) i(2) by simp
  qed
qed

lemma mamba_move_loop_length:
  assumes "mamba_move_loop [a..b - 1] skipped null bs = Inr bs'" "0 \<le> a" "a \<le> b"
  shows "int (length bs') = int (length bs) + max 0 (min b skipped - a)"
  using assms
proof (induction "nat (b - a)" arbitrary: a bs)
  case 0
  then show ?case by simp
next
  case (Suc k)
  then have u: "[a..b - 1] = a # [a + 1..b - 1]" by (subst upto.simps) simp
  show ?case
  proof (cases "a < skipped")
    case True
    then obtain x where "mamba_move_loop [a + 1..b - 1] skipped null ((bs @ [x])[nat a := null]) = Inr bs'"
      using Suc.prems unfolding u by (auto simp: Let_def)
    from Suc.hyps(1) [OF _ this] show ?thesis using Suc.prems Suc.hyps(2) True by auto
  next
    case False
    then show ?thesis using Suc.prems unfolding u by simp
  qed
qed

lemma mreach_upd:
  assumes "mreach sha256 okr rest (m, p)"
  shows "mreach sha256 okr rest (m\<lparr>last_state_block_idx := i\<rparr>, p)" "mreach sha256 okr rest (m\<lparr>cached_blocks_this_step := c\<rparr>, p)"
    "mreach sha256 okr rest (m\<lparr>new_block_ids := ids\<rparr>, p)"
  using assms by (auto intro!: mreach_fields [OF assms] elim!: mreachE simp: mg_ok_def)

text \<open>The table of align mode before new blocks are taken: never as long as required.\<close>

lemma mamba_table_ok:
  assumes t: "table_ok p bs" and s: "0 \<le> s" "alloc \<longrightarrow> s \<le> int (length bs)" and R: "int (length bs) < R" "s \<le> R"
    and e: "(if alloc then mamba_move_loop [int (length bs) - s..int (length bs) - 1] (R - s - 1) (Blk 0)
               (if int (length bs) < R - s - 1 then bs @ replicate (nat (R - s - 1 - int (length bs))) (Blk 0) else bs)
             else Inr (if int (length bs) < R - s - 1 then bs @ replicate (nat (R - s - 1 - int (length bs))) (Blk 0) else bs)) = Inr bs'"
  shows "table_ok p bs' \<and> real_blocks p bs' = real_blocks p bs \<and> length bs \<le> length bs' \<and> int (length bs') < R"
proof -
  define b1 where "b1 = (if int (length bs) < R - s - 1 then bs @ replicate (nat (R - s - 1 - int (length bs))) (Blk 0) else bs)"
  have b1: "table_ok p b1" "real_blocks p b1 = real_blocks p bs" "int (length b1) = max (int (length bs)) (R - s - 1)"
    using known_append_null [OF t] t by (simp_all add: b1_def)
  show ?thesis
  proof (cases alloc)
    case False
    then have "bs' = b1" using e by (simp add: b1_def)
    then show ?thesis using b1 R s by simp
  next
    case True
    then have m: "mamba_move_loop [int (length bs) - s..int (length bs) - 1] (R - s - 1) (Blk 0) b1 = Inr bs'"
      using e by (simp add: b1_def)
    have "table_ok p bs' \<and> real_blocks p bs' = real_blocks p b1 \<and> length b1 \<le> length bs'"
      using m b1(1) s True by (intro mamba_move_loop_ok) auto
    moreover have "int (length bs') < R"
      using mamba_move_loop_length [OF m] s True b1(3) R by auto
    ultimately show ?thesis using b1 by auto
  qed
qed

lemma mamba_allocate_safe:
  assumes r: "mreach sha256 okr rest (m, p)" and ms: "mg_class m = MambaManager" "mg_spec m = MambaSpec ms" "0 \<le> num_speculative_blocks ms"
    and nm: "0 \<le> nm" and e: "mamba_allocate_new_blocks ms rid n nm (m, p) = Inr (new, m', p')"
  shows "mreach sha256 okr rest (m', p') \<and> keeps (m, p) (m', p') \<and>
    min (cdiv n (mg_block_size m)) (cdiv nm (mg_block_size m)) \<le> int (length (req_blocks rid m'))"
proof (cases "mamba_cache_mode ms = ''align''")
  case False
  have pos: "0 < mg_block_size m" using r by (auto elim!: mreachE simp: mg_ok_def)
  define k where "k = (if num_speculative_blocks ms > 0 then n + mg_block_size m * num_speculative_blocks ms else n)"
  have "base_allocate_new_blocks rid k (m, p) = Inr (new, m', p')" using e False by (simp add: mamba_allocate_new_blocks_def k_def)
  note B = base_allocate_safe [OF r this]
  have "cdiv n (mg_block_size m) \<le> cdiv k (mg_block_size m)" using pos ms(3) by (intro cdiv_mono) (auto simp: k_def)
  then show ?thesis using B by auto
next
  case True
  define bs where "bs = req_blocks rid m"
  define s where "s = num_speculative_blocks ms"
  define R where "R = cdiv nm (mg_block_size m) + s"
  define alloc where "alloc \<longleftrightarrow> rid \<in> set (allocated_block_reqs m)"
  define m2 where "m2 = (if alloc then (set_req_blocks rid bs m)\<lparr>last_state_block_idx := (last_state_block_idx m)(rid \<mapsto> int (length bs) - 1 - s)\<rparr>
    else if int (length bs) > 0 then (set_req_blocks rid bs m)\<lparr>last_state_block_idx := (last_state_block_idx m)(rid \<mapsto> int (length bs) - 1)\<rparr>
    else set_req_blocks rid bs m)"
  have ok: "mg_ok p m" using r by (rule mreachE)
  have r1: "mreach sha256 okr rest (set_req_blocks rid bs m, p)" using mreach_same_table [OF r] by (simp add: bs_def)
  then have r2: "mreach sha256 okr rest (m2, p)" unfolding m2_def by (auto intro: mreach_upd)
  have f2: "req_blocks rid m2 = bs" "mg_static m2 = mg_static m" "mg_null_block m2 = Blk 0" "allocated_block_reqs m2 = allocated_block_reqs m"
    "mg_spec m2 = mg_spec m" "mg_class m2 = mg_class m"
    using ok by (simp_all add: m2_def mg_ok_def)
  have pos: "0 < mg_block_size m" using ok by (simp add: mg_ok_def)
  show ?thesis
  proof (cases "R \<le> int (length bs)")
    case R: True
    then have "m' = set_req_blocks rid bs m" "p' = p"
      using e True by (simp_all add: mamba_allocate_new_blocks_def Let_def R_def s_def bs_def)
    then show ?thesis using r1 R ms(3) by (simp add: keeps_def R_def s_def)
  next
    case R: False
    have H: "rbind (if alloc then mamba_move_loop [int (length bs) - s..int (length bs) - 1] (R - s - 1) (Blk 0)
               (if int (length bs) < R - s - 1 then bs @ replicate (nat (R - s - 1 - int (length bs))) (Blk 0) else bs)
             else Inr (if int (length bs) < R - s - 1 then bs @ replicate (nat (R - s - 1 - int (length bs))) (Blk 0) else bs))
        (\<lambda>bs2. py_assert (if alloc then R - int (length bs2) \<le> 1 else R - int (length bs2) \<le> s + 1)
          (rbind (get_new_blocks (R - int (length bs2)) p) (\<lambda>(new, p). Inr (py_from (bs2 @ new) (int (length bs)),
            (set_req_blocks rid (bs2 @ new) m2)\<lparr>allocated_block_reqs := List.insert rid (allocated_block_reqs m2)\<rparr>, p)))) = Inr (new, m', p')"
      using e True R f2(3) unfolding mamba_allocate_new_blocks_def Let_def prod.case set_req_blocks_fields bs_def [symmetric] s_def [symmetric]
        R_def [symmetric] alloc_def [symmetric] m2_def [symmetric]
      by (simp only: if_False simp_thms)
    then obtain bs2 new' where b: "(if alloc then mamba_move_loop [int (length bs) - s..int (length bs) - 1] (R - s - 1) (Blk 0)
               (if int (length bs) < R - s - 1 then bs @ replicate (nat (R - s - 1 - int (length bs))) (Blk 0) else bs)
             else Inr (if int (length bs) < R - s - 1 then bs @ replicate (nat (R - s - 1 - int (length bs))) (Blk 0) else bs)) = Inr bs2"
      "get_new_blocks (R - int (length bs2)) p = Inr (new', p')"
      "m' = (set_req_blocks rid (bs2 @ new') m2)\<lparr>allocated_block_reqs := List.insert rid (allocated_block_reqs m)\<rparr>"
      unfolding rbind_eq_Inr py_assert_eq_Inr f2(4) by (elim exE conjE) auto
    have c0: "0 \<le> cdiv nm (mg_block_size m)" using pos nm by (rule cdiv_nonneg)
    have al: "align_ok m" using ok by (simp add: mg_ok_def)
    then have sl: "alloc \<longrightarrow> s \<le> int (length bs)" using ms(2) unfolding align_ok_def alloc_def s_def bs_def by fastforce
    have T: "table_ok p bs2" "real_blocks p bs2 = real_blocks p bs" "length bs \<le> length bs2" "int (length bs2) < R"
      using mamba_table_ok [OF table_ok_req [OF ok, of rid] _ _ _ _ b(1) [unfolded bs_def]] ms(3) sl R c0
      by (auto simp: bs_def s_def R_def)
    have N: "mreach sha256 okr rest (set_req_blocks rid (bs2 @ new') m2, p')" "pool_config p' = pool_config p"
      "int (length new') = R - int (length bs2)"
      using mreach_get_new [OF r2 _ b(2) T(1), of rid] T f2(1) by auto
    have "align_ok m'"
    proof -
      have "mg_ok p' (set_req_blocks rid (bs2 @ new') m2)" using N(1) by (rule mreachE)
      then have "align_ok (set_req_blocks rid (bs2 @ new') m2)" by (simp add: mg_ok_def)
      moreover have "s \<le> int (length (bs2 @ new'))" using N(3) c0 by (simp add: R_def)
      ultimately show ?thesis using ms True f2(4-6) by (auto simp: b(3) align_ok_def s_def)
    qed
    then have "mreach sha256 okr rest (m', p')"
      using ok by (intro mreach_fields [OF N(1)]) (auto simp: b(3) m2_def mg_ok_def)
    moreover have "int (length (req_blocks rid m')) = R" using N(3) by (simp add: b(3))
    ultimately show ?thesis using N(2) f2(2) ms(3) by (simp add: keeps_def b(3) R_def s_def)
  qed
qed

lemma allocate_new_blocks_safe:
  assumes r: "mreach sha256 okr rest (m, p)" and n: "0 \<le> nm"
    and s: "mg_class m = MambaManager \<Longrightarrow> \<exists>ms. mg_spec m = MambaSpec ms \<and> 0 \<le> num_speculative_blocks ms"
    and e: "allocate_new_blocks rid n nm (m, p) = Inr (new, m', p')"
  shows "mreach sha256 okr rest (m', p') \<and> keeps (m, p) (m', p') \<and>
    min (cdiv n (mg_block_size m)) (cdiv nm (mg_block_size m)) \<le> int (length (req_blocks rid m'))"
proof (cases "mg_class m = MambaManager")
  case True
  then obtain ms where "mg_spec m = MambaSpec ms" "0 \<le> num_speculative_blocks ms" using s by blast
  then show ?thesis using mamba_allocate_safe [OF r True _ _ n, of ms rid] e True by (simp add: allocate_new_blocks_def)
next
  case False
  then have "base_allocate_new_blocks rid n (m, p) = Inr (new, m', p')" using e by (simp add: allocate_new_blocks_def)
  from base_allocate_safe [OF r this] show ?thesis by linarith
qed

section \<open>Registering blocks\<close>

lemma base_cache_blocks_safe:
  assumes r: "mreach sha256 okr rest (m, p)" and q: "okr req" and n: "n div mg_block_size m \<le> int (length (req_blocks (request_id req) m))"
    and e: "base_cache_blocks sha256 req n retention (m, p) = Inr (m', p')"
  shows "mreach sha256 okr rest (m', p') \<and> keeps (m, p) (m', p') \<and>
    (\<forall>rid. req_blocks rid m' = req_blocks rid m)"
proof -
  define rid where "rid = request_id req"
  define nc where "nc = (case num_cached_block m rid of None \<Rightarrow> 0 | Some n \<Rightarrow> n)"
  define nf where "nf = n div mg_block_size m"
  obtain reg xs where R: "mg_ok p m" "pool_reach sha256 okr (p, mg_held p m + rest, reg)" "alloc_inv p xs" "cache_inv p"
    using r by (rule mreachE)
  have nc: "0 \<le> nc" using R(1) by (auto simp: nc_def mg_ok_def split: option.splits)
  let ?m = "set_req_blocks rid (req_blocks rid m) m"
  show ?thesis
  proof (cases "nc \<ge> nf")
    case True
    then have "m' = m" "p' = p" using e by (simp_all add: base_cache_blocks_def Let_def nc_def nf_def rid_def)
    then show ?thesis using r by simp
  next
    case False
    have "rbind (reachable_block_mask m nc nf (Some (mg_scheduler_block_size m)) (mg_use_eagle m) retention (Some (num_prompt_tokens req))) (\<lambda>bmask.
       rbind (cache_full_blocks sha256 req (req_blocks rid m) nc nf (mg_block_size m) (kv_cache_group_id m) bmask p) (\<lambda>p.
         Inr (?m\<lparr>num_cached_block := (num_cached_block m)(rid \<mapsto> nf)\<rparr>, p))) = Inr (m', p')"
      using e False unfolding base_cache_blocks_def Let_def prod.case rid_def [symmetric] set_req_blocks_fields nc_def [symmetric] nf_def [symmetric]
      by (simp only: if_False)
    then obtain bmask where c: "cache_full_blocks sha256 req (req_blocks rid m) nc nf (mg_block_size m) (kv_cache_group_id m) bmask p = Inr p'"
      and m': "m' = ?m\<lparr>num_cached_block := (num_cached_block m)(rid \<mapsto> nf)\<rparr>" unfolding rbind_eq_Inr by (elim exE conjE) auto
    have t: "list_all (known p) (req_blocks rid m)" "distinct (filter (in_pool p) (req_blocks rid m))"
      using table_ok_req [OF R(1), of rid] by (simp_all add: table_ok_def)
    have nf: "nf \<le> int (length (req_blocks rid m))" using n by (simp add: nf_def rid_def)
    have pos: "0 < mg_block_size m" using R(1) by (simp add: mg_ok_def)
    note cfg = same_allocD [OF cache_full_blocks_ok(1) [OF R(3,4) t nc nf c]]
    have rm: "mreach sha256 okr rest (?m, p')"
      using pool_reach.step [OF R(2) pool_step.cache_full [where okr = okr, OF t nc nf c pos q]] held_split [OF R(1), of rid]
      by (intro mreach_set [OF R(1) cfg table_ok_req [OF R(1)] order_refl]) simp_all
    have "mreach sha256 okr rest (m', p')"
      using R(1) nc False align_ok_set [of m rid] by (intro mreach_fields [OF rm]) (auto simp: m' mg_ok_def)
    then show ?thesis using cfg by (simp add: keeps_def m' req_blocks_set_if)
  qed
qed

lemma cache_blocks_safe:
  assumes r: "mreach sha256 okr rest (m, p)" and q: "okr req" and n: "n div mg_block_size m \<le> int (length (req_blocks (request_id req) m))"
    and e: "cache_blocks sha256 req n retention (m, p) = Inr (m', p')"
  shows "mreach sha256 okr rest (m', p') \<and> keeps (m, p) (m', p') \<and> (\<forall>rid. req_blocks rid m' = req_blocks rid m)"
proof (cases "mg_class m = MambaManager")
  case True
  then obtain m1 where b: "base_cache_blocks sha256 req n retention (m, p) = Inr (m1, p')"
    and m': "m' = m1 \<or> (\<exists>hs. m' = m1\<lparr>cached_blocks_this_step := hs\<rparr>)"
    using e by (auto simp: cache_blocks_def mamba_cache_blocks_def Let_def split: if_splits)
  show ?thesis using base_cache_blocks_safe [OF r q n b] m' by (auto simp: keeps_def intro: mreach_upd)
next
  case False
  then have "base_cache_blocks sha256 req n retention (m, p) = Inr (m', p')"
    using e by (cases "mg_class m") (simp_all add: cache_blocks_def)
  then show ?thesis by (rule base_cache_blocks_safe [OF r q n])
qed

section \<open>Freeing\<close>

lemma remove_range_ok:
  assumes "f \<le> l" "l \<le> length bs"
  shows "\<exists>k. f \<le> k \<and> k \<le> l \<and>
    remove_range_loop (rev [int f..int l - 1]) null bs acc =
      Inr (take k bs @ replicate (l - k) null @ drop l bs, acc @ rev (take (l - k) (drop k bs))) \<and>
    null \<notin> set (take (l - k) (drop k bs)) \<and> (k = f \<or> bs ! (k - 1) = null)"
  using assms
proof (induction l arbitrary: bs acc)
  case 0
  then show ?case by simp
next
  case (Suc l)
  show ?case
  proof (cases "f = Suc l")
    case True
    then show ?thesis by (intro exI [of _ "Suc l"]) simp
  next
    case False
    then have fl: "f \<le> l" and ll: "l < length bs" using Suc.prems by simp_all
    then have u: "rev [int f..int (Suc l) - 1] = int l # rev [int f..int l - 1]"
      using upto_rec2 [of "int f" "int l"] by simp
    have x: "py_index bs (int l) = Inr (bs ! l)" using ll by simp
    show ?thesis
    proof (cases "bs ! l = null")
      case True
      then show ?thesis using x u fl ll by (intro exI [of _ "Suc l"]) simp
    next
      case ne: False
      let ?bs = "bs[l := null]"
      have s: "py_set bs (int l) null = ?bs" by (simp add: py_set_def)
      obtain k where k: "f \<le> k" "k \<le> l" "remove_range_loop (rev [int f..int l - 1]) null ?bs (acc @ [bs ! l]) =
          Inr (take k ?bs @ replicate (l - k) null @ drop l ?bs, (acc @ [bs ! l]) @ rev (take (l - k) (drop k ?bs)))"
        "null \<notin> set (take (l - k) (drop k ?bs))" "k = f \<or> ?bs ! (k - 1) = null"
      proof -
        have "l \<le> length ?bs" using ll by simp
        from Suc.IH [OF fl this, of "acc @ [bs ! l]"] show ?thesis using that by (elim exE conjE)
      qed
      have d: "take (Suc l - k) (drop k bs) = take (l - k) (drop k bs) @ [bs ! l]"
        using k(2) ll by (simp add: Suc_diff_le take_Suc_conv_app_nth)
      have t: "take k ?bs = take k bs" "take (l - k) (drop k ?bs) = take (l - k) (drop k bs)" "drop l ?bs = null # drop (Suc l) bs"
        using k(2) ll Cons_nth_drop_Suc [of l ?bs] by (simp, intro nth_equalityI, auto)
      have "replicate (l - k) null @ null # drop (Suc l) bs = replicate (Suc l - k) null @ drop (Suc l) bs"
        using k(2) by (simp add: Suc_diff_le replicate_app_Cons_same)
      moreover have "k = f \<or> bs ! (k - 1) = null" using k(1,2,5) ll by (cases "k = 0") auto
      ultimately show ?thesis using k(1-4) ne x u s by (intro exI [of _ k]) (simp add: t d)
    qed
  qed
qed

text \<open>\<open>nulled f l bs bs'\<close>: the table \<open>bs'\<close> is \<open>bs\<close> with some blocks in \<open>[f, l)\<close> replaced by null.\<close>

definition nulled :: "int \<Rightarrow> int \<Rightarrow> kv_ref list \<Rightarrow> kv_ref list \<Rightarrow> bool" where
  "nulled f l bs bs' \<longleftrightarrow> length bs' = length bs \<and>
    (\<forall>j < length bs. bs' ! j = bs ! j \<or> f \<le> int j \<and> int j < l \<and> bs' ! j = Blk 0)"

lemma nulled_refl [simp]: "nulled f l bs bs"
  by (simp add: nulled_def)

lemma remove_loop_ok:
  assumes t: "table_ok p bs" and f: "0 \<le> f" and u: "u \<le> int (length bs)" "u \<le> l"
  shows "\<exists>bs' gone. remove_range_loop (rev [f..u - 1]) (Blk 0) bs [] = Inr (bs', gone) \<and> nulled f l bs bs' \<and>
      list_all (known p) gone \<and> table_ok p bs' \<and> real_blocks p bs = real_blocks p bs' + real_blocks p gone"
proof (cases "f < u")
  case False
  then show ?thesis using t by simp
next
  case True
  let ?f = "nat f" and ?u = "nat u"
  have i: "int ?f = f" "int ?u = u" "?f \<le> ?u" "?u \<le> length bs" using True f u by simp_all
  obtain k where k: "?f \<le> k" "k \<le> ?u" "remove_range_loop (rev [int ?f..int ?u - 1]) (Blk 0) bs [] =
      Inr (take k bs @ replicate (?u - k) (Blk 0) @ drop ?u bs, [] @ rev (take (?u - k) (drop k bs)))"
    using remove_range_ok [OF i(3,4), of "Blk 0" "[]"] by (elim exE conjE)
  let ?bs = "take k bs @ replicate (?u - k) (Blk 0) @ drop ?u bs" and ?g = "take (?u - k) (drop k bs)"
  have split: "bs = take k bs @ ?g @ drop ?u bs" using k(2) by (metis append_take_drop_id drop_drop le_add_diff_inverse2)
  have r: "real_blocks p bs = real_blocks p ?bs + real_blocks p (rev ?g)"
    by (subst split) (simp add: ac_simps)
  have "list_all (known p) (take k bs @ ?g @ drop ?u bs)" "distinct (filter (in_pool p) (take k bs @ ?g @ drop ?u bs))"
    using t split by (simp_all add: table_ok_def)
  then have "table_ok p ?bs" "list_all (known p) ?g" by (auto simp: table_ok_def list_all_iff)
  moreover have "nulled f l bs ?bs"
    using k(1,2) i u by (auto simp: nulled_def nth_append not_less)
  ultimately show ?thesis using k(3) r i by (intro exI [of _ ?bs] exI [of _ "rev ?g"]) simp
qed

lemma free_blocks_nil: "free_blocks [] p = Inr p"
  by (simp add: free_blocks_def prepend_n_def append_n_def)

lemma remove_range_safe:
  assumes r: "mreach sha256 okr rest (m, p)" and f: "0 \<le> f"
  shows "\<exists>m' p'. remove_blocks_in_range rid f l (m, p) = Inr (m', p') \<and> mreach sha256 okr rest (m', p') \<and> keeps (m, p) (m', p') \<and>
    nulled f l (req_blocks rid m) (req_blocks rid m') \<and> (\<forall>rid'. rid' \<noteq> rid \<longrightarrow> req_blocks rid' m' = req_blocks rid' m) \<and>
    num_cached_block m' = num_cached_block m \<and> last_state_block_idx m' = last_state_block_idx m"
proof -
  define bs where "bs = req_blocks rid m"
  define u where "u = min l (int (length bs))"
  have ok: "mg_ok p m" using r by (rule mreachE)
  show ?thesis
  proof (cases "map_of (req_to_blocks m) rid = None \<or> f \<ge> l")
    case True
    then have "remove_blocks_in_range rid f l (m, p) = Inr (m, p)" by (auto simp: remove_blocks_in_range_def)
    then show ?thesis using r by simp
  next
    case False
    have e: "remove_blocks_in_range rid f l (m, p) =
      rbind (remove_range_loop (rev [f..u - 1]) (Blk 0) bs []) (\<lambda>(bs, removed).
         if removed = [] then Inr (set_req_blocks rid bs m, p) else rbind (free_blocks removed p) (\<lambda>p. Inr (set_req_blocks rid bs m, p)))"
    proof -
      have "mg_null_block m = Blk 0" "map_of (req_to_blocks m) rid \<noteq> None" "\<not> l \<le> f" using False ok by (simp_all add: mg_ok_def)
      then show ?thesis unfolding remove_blocks_in_range_def Let_def prod.case u_def bs_def by (simp only: if_False)
    qed
    have u: "u \<le> int (length bs)" "u \<le> l" by (simp_all add: u_def)
    obtain bs' gone where g: "remove_range_loop (rev [f..u - 1]) (Blk 0) bs [] = Inr (bs', gone)" "nulled f l bs bs'"
      "list_all (known p) gone" "table_ok p bs'" "real_blocks p bs = real_blocks p bs' + real_blocks p gone"
      using remove_loop_ok [OF table_ok_req [OF ok, of rid, folded bs_def] f u] by (elim exE conjE)
    obtain p' where F: "free_blocks gone p = Inr p'" "mreach sha256 okr rest (set_req_blocks rid bs' m, p')" "pool_config p' = pool_config p"
      using mreach_free [OF r g(3,4), of rid] g(2,5) by (auto simp: bs_def nulled_def)
    have "remove_blocks_in_range rid f l (m, p) = Inr (set_req_blocks rid bs' m, p')"
      using e g(1) F(1) free_blocks_nil [of p] by (cases "gone = []") simp_all
    then show ?thesis using F(2,3) g(2) by (auto simp: keeps_def bs_def req_blocks_set_if)
  qed
qed

lemma base_remove_safe:
  assumes r: "mreach sha256 okr rest (m, p)"
  shows "\<exists>m' p'. base_remove_skipped_blocks rid n (m, p) = Inr (m', p') \<and> mreach sha256 okr rest (m', p') \<and> keeps (m, p) (m', p') \<and>
    nulled 0 (get_num_skipped_tokens (mg_spec m) n div mg_block_size m) (req_blocks rid m) (req_blocks rid m') \<and>
    (\<forall>rid'. rid' \<noteq> rid \<longrightarrow> req_blocks rid' m' = req_blocks rid' m) \<and> num_cached_block m' = num_cached_block m \<and>
    last_state_block_idx m' = last_state_block_idx m"
proof (cases "get_num_skipped_tokens (mg_spec m) n \<le> 0")
  case True
  then show ?thesis using r by (simp add: base_remove_skipped_blocks_def)
next
  case False
  let ?m = "set_req_blocks rid (req_blocks rid m) m"
  define s where "s = get_num_skipped_tokens (mg_spec m) n div mg_block_size m"
  define l where "l = min s (int (length (req_blocks rid m)))"
  have r': "mreach sha256 okr rest (?m, p)" using r by (rule mreach_same_table)
  have e: "base_remove_skipped_blocks rid n (m, p) = remove_blocks_in_range rid 0 l (?m, p)"
    using False unfolding base_remove_skipped_blocks_def Let_def prod.case set_req_blocks_fields s_def [symmetric] l_def [symmetric]
    by (simp only: if_False)
  obtain m' p' where R: "remove_blocks_in_range rid 0 l (?m, p) = Inr (m', p')" "mreach sha256 okr rest (m', p')" "keeps (?m, p) (m', p')"
    "nulled 0 l (req_blocks rid ?m) (req_blocks rid m')" "\<forall>rid'. rid' \<noteq> rid \<longrightarrow> req_blocks rid' m' = req_blocks rid' ?m"
    "num_cached_block m' = num_cached_block ?m" "last_state_block_idx m' = last_state_block_idx ?m"
    using remove_range_safe [OF r', of 0 rid l] by auto
  have "nulled 0 s (req_blocks rid m) (req_blocks rid m')" using R(4) by (auto simp: nulled_def l_def)
  then show ?thesis using R e by (intro exI [of _ m'] exI [of _ p']) (simp add: keeps_def s_def req_blocks_set_if)
qed

lemma mamba_free_one_safe:
  assumes r: "mreach sha256 okr rest (m, p)" and b: "py_index (req_blocks rid m) i = Inr b" and nb: "b \<noteq> Blk 0"
    and f: "free_blocks [b] p = Inr p'"
  shows "mreach sha256 okr rest (set_req_blocks rid (py_set (req_blocks rid m) i (Blk 0)) m, p') \<and> pool_config p' = pool_config p"
proof -
  define bs where "bs = req_blocks rid m"
  define j where "j = (if i < 0 then nat (int (length bs) + i) else nat i)"
  have ok: "mg_ok p m" using r by (rule mreachE)
  have j: "j < length bs" "b = bs ! j" using b by (auto simp: py_index_def j_def bs_def split: if_splits)
  have s: "py_set bs i (Blk 0) = bs[j := Blk 0]" by (simp add: py_set_def j_def)
  have t: "table_ok p bs" using ok unfolding bs_def by (rule table_ok_req)
  have k: "known p b" using t j by (simp add: table_ok_def list_all_length)
  have u: "bs[j := Blk 0] = take j bs @ Blk 0 # drop (Suc j) bs" and b: "bs = take j bs @ b # drop (Suc j) bs"
    using j by (simp_all add: upd_conv_take_nth_drop id_take_nth_drop)
  have rb: "real_blocks p bs = real_blocks p (bs[j := Blk 0]) + real_blocks p [b]" unfolding u by (subst b) simp
  have "list_all (known p) (take j bs @ b # drop (Suc j) bs)" "distinct (filter (in_pool p) (take j bs @ b # drop (Suc j) bs))"
    using t b by (simp_all add: table_ok_def)
  then have t': "table_ok p (bs[j := Blk 0])" unfolding u by (auto simp: table_ok_def list_all_iff split: if_splits)
  show ?thesis
    using mreach_free [OF r _ t', of "[b]" rid] k rb f by (simp add: bs_def s [unfolded bs_def])
qed

lemma mamba_remove_safe:
  assumes r: "mreach sha256 okr rest (m, p)" and e: "mamba_remove_skipped_blocks ms rid n (m, p) = Inr (m', p')"
  shows "mreach sha256 okr rest (m', p') \<and> keeps (m, p) (m', p') \<and> length (req_blocks rid m') = length (req_blocks rid m) \<and>
    (\<forall>rid'. rid' \<noteq> rid \<longrightarrow> req_blocks rid' m' = req_blocks rid' m) \<and> num_cached_block m' = num_cached_block m"
proof -
  define c where "c = max 0 (n - num_speculative_blocks ms)"
  obtain m1 p1 where B: "base_remove_skipped_blocks rid c (m, p) = Inr (m1, p1)" "mreach sha256 okr rest (m1, p1)" "keeps (m, p) (m1, p1)"
    "nulled 0 (get_num_skipped_tokens (mg_spec m) c div mg_block_size m) (req_blocks rid m) (req_blocks rid m1)"
    "\<forall>rid'. rid' \<noteq> rid \<longrightarrow> req_blocks rid' m1 = req_blocks rid' m" "num_cached_block m1 = num_cached_block m"
    using base_remove_safe [OF r, of rid c] by (elim exE conjE)
  have l1: "length (req_blocks rid m1) = length (req_blocks rid m)" using B(4) by (simp add: nulled_def)
  let ?m = "set_req_blocks rid (req_blocks rid m1) m1"
  have ok1: "mg_null_block m1 = Blk 0" using B(2) by (auto elim!: mreachE simp: mg_ok_def)
  have r1: "mreach sha256 okr rest (?m, p1)" using B(2) by (rule mreach_same_table)
  have "(m', p') = (m1, p1) \<or> (m', p') = (?m, p1) \<or> (\<exists>i b. py_index (req_blocks rid m1) i = Inr b \<and> b \<noteq> Blk 0 \<and>
      free_blocks [b] p1 = Inr p' \<and> m' = set_req_blocks rid (py_set (req_blocks rid m1) i (Blk 0)) ?m)"
  proof (cases "mamba_cache_mode ms = ''align'' \<and> (\<exists>i. last_state_block_idx m1 rid = Some i \<and> i < cdiv c (mg_block_size m1) - 1)")
    case False
    then have "mamba_remove_skipped_blocks ms rid n (m, p) = Inr (m1, p1)"
      using B(1) by (auto simp: mamba_remove_skipped_blocks_def c_def [symmetric] split: option.split simp del: rbind_eq_Inr)
    then show ?thesis using e by simp
  next
    case True
    then obtain i where i: "last_state_block_idx m1 rid = Some i" "i < cdiv c (mg_block_size m1) - 1" "mamba_cache_mode ms = ''align''" by blast
    have "rbind (py_index (req_blocks rid m1) i) (\<lambda>b. if b \<noteq> Blk 0
        then rbind (free_blocks [b] p1) (\<lambda>p. Inr (set_req_blocks rid (py_set (req_blocks rid m1) i (Blk 0)) ?m, p)) else Inr (?m, p1)) = Inr (m', p')"
      using e B(1) i ok1 by (simp add: mamba_remove_skipped_blocks_def c_def [symmetric] Let_def del: rbind_eq_Inr cong: if_cong)
    then obtain b where b: "py_index (req_blocks rid m1) i = Inr b" "(if b \<noteq> Blk 0
        then rbind (free_blocks [b] p1) (\<lambda>p. Inr (set_req_blocks rid (py_set (req_blocks rid m1) i (Blk 0)) ?m, p)) else Inr (?m, p1)) = Inr (m', p')"
      unfolding rbind_eq_Inr by blast
    show ?thesis
    proof (cases "b = Blk 0")
      case True
      then show ?thesis using b by simp
    next
      case False
      then show ?thesis using b by (intro disjI2 exI [of _ i] exI [of _ b]) simp
    qed
  qed
  then show ?thesis
  proof (elim disjE exE conjE)
    fix i b assume b: "py_index (req_blocks rid m1) i = Inr b" "b \<noteq> Blk 0" "free_blocks [b] p1 = Inr p'"
      and m': "m' = set_req_blocks rid (py_set (req_blocks rid m1) i (Blk 0)) ?m"
    have "mreach sha256 okr rest (m', p') \<and> pool_config p' = pool_config p1"
      using mamba_free_one_safe [OF r1, of rid i b p'] b by (simp add: m')
    then show ?thesis using B l1 by (simp add: m' keeps_def req_blocks_set_if py_set_def)
  qed (use B l1 r1 in \<open>auto simp: keeps_def req_blocks_set_if\<close>)
qed

lemma remove_skipped_safe:
  assumes r: "mreach sha256 okr rest (m, p)" and n: "\<forall>k. np = Some k \<longrightarrow> 0 \<le> k"
    and e: "remove_skipped_blocks rid n np (m, p) = Inr (m', p')"
  shows "mreach sha256 okr rest (m', p') \<and> keeps (m, p) (m', p') \<and> length (req_blocks rid m') = length (req_blocks rid m) \<and>
    (\<forall>rid'. rid' \<noteq> rid \<longrightarrow> req_blocks rid' m' = req_blocks rid' m) \<and> num_cached_block m' = num_cached_block m"
proof -
  have base: ?thesis if "base_remove_skipped_blocks rid n (m, p) = Inr (m', p')"
    using base_remove_safe [OF r, of rid n] that by (auto simp: nulled_def)
  have ok: "0 < mg_block_size m" using r by (auto elim!: mreachE simp: mg_ok_def)
  have rswa: ?thesis if "rswa_remove_skipped_blocks w rid n k (m, p) = Inr (m', p')" "0 \<le> k" for w k
    using remove_range_safe [OF r cdiv_nonneg [OF ok that(2)], of rid "max k (n - w) div mg_block_size m"] that(1)
    by (auto simp: rswa_remove_skipped_blocks_def Let_def nulled_def)
  have "base_remove_skipped_blocks rid n (m, p) = Inr (m', p') \<or> (\<exists>w k. np = Some k \<and> rswa_remove_skipped_blocks w rid n k (m, p) = Inr (m', p')) \<or>
    (\<exists>ms. mamba_remove_skipped_blocks ms rid n (m, p) = Inr (m', p'))"
    using e by (cases "mg_spec m") (auto simp: remove_skipped_blocks_def split: option.splits)
  then show ?thesis using base rswa mamba_remove_safe [OF r] n by (elim disjE exE conjE) blast+
qed


lemma pop_blocks_ok:
  assumes ok: "mg_ok p m" and pop: "pop_blocks_for_free rid m = (bs, m')"
  shows "bs = req_blocks rid m" "mg_ok p m'" "mg_held p m' = others p rid m" "mg_static m' = mg_static m"
    "req_to_blocks m' = AList.delete rid (req_to_blocks m)" "num_cached_block m' = (num_cached_block m)(rid := None)"
proof -
  have m': "m' = snd (pop_blocks_for_free rid m)" by (simp add: pop)
  have f: "req_to_blocks m' = AList.delete rid (req_to_blocks m)" "num_cached_block m' = (num_cached_block m)(rid := None)"
    "mg_static m' = mg_static m" "mg_null_block m' = mg_null_block m" "mg_block_size m' = mg_block_size m"
    by (simp_all add: m' pop_blocks_for_free_def Let_def mg_static_def)
  then show "req_to_blocks m' = AList.delete rid (req_to_blocks m)" "num_cached_block m' = (num_cached_block m)(rid := None)"
    "mg_static m' = mg_static m" by blast+
  show "bs = req_blocks rid m" using pop by (simp add: pop_blocks_for_free_def Let_def req_blocks_def split: if_splits)
  show "mg_held p m' = others p rid m" by (simp add: others_def mg_held_def tables_def f(1))
  have "align_ok m'"
  proof (rule align_ok_mono [of m])
    show "align_ok m" using ok by (simp add: mg_ok_def)
    then have a: "set (allocated_block_reqs m') \<subseteq> set (allocated_block_reqs m) - {rid}"
      unfolding m' pop_blocks_for_free_def Let_def align_ok_def by auto
    show "length (req_blocks rid' m) \<le> length (req_blocks rid' m')" if "rid' \<in> set (allocated_block_reqs m')" for rid'
      using that a by (auto simp: req_blocks_def f(1) delete_conv)
  qed (use f(3) in \<open>auto simp: mg_static_def m' pop_blocks_for_free_def Let_def\<close>)
  then show "mg_ok p m'" using ok distinct_delete [of "req_to_blocks m" rid] by (auto simp: mg_ok_def f AList.delete_eq)
qed

lemma mg_free_safe:
  assumes r: "mreach sha256 okr rest (m, p)"
  shows "\<exists>m' p'. mg_free rid (m, p) = Inr (m', p') \<and> mreach sha256 okr rest (m', p') \<and> keeps (m, p) (m', p') \<and>
    req_to_blocks m' = AList.delete rid (req_to_blocks m) \<and> mg_held p' m' = others p rid m \<and>
    num_cached_block m' = (num_cached_block m)(rid := None)"
proof -
  obtain bs m' where pop: "pop_blocks_for_free rid m = (bs, m')" by fastforce
  have ok: "mg_ok p m" using r by (rule mreachE)
  note P = pop_blocks_ok [OF ok pop]
  have k: "list_all (known p) (rev (req_blocks rid m))" using table_ok_req [OF ok, of rid] by (simp add: table_ok_def list_all_iff)
  have h: "mg_held p m = real_blocks p (req_blocks rid m) + others p rid m" using ok by (rule held_split)
  then have "real_blocks p (rev (req_blocks rid m)) \<subseteq># mg_held p m" by simp
  then obtain p' reg where F: "free_blocks (rev (req_blocks rid m)) p = Inr p'" "pool_config p' = pool_config p"
    "pool_reach sha256 okr (p', mg_held p m - real_blocks p (rev (req_blocks rid m)) + rest, reg)" by (rule mreach_free_blocks [OF r k])
  have "mreach sha256 okr rest (m', p')"
    using F(3) h P(2) by (intro mreachI [of p' m']) (auto simp: mg_ok_config [OF F(2)] mg_held_config [OF F(2)] P(3))
  then show ?thesis
    using F pop P mg_held_config [OF F(2), of m'] by (intro exI [of _ m'] exI [of _ p']) (auto simp: mg_free_def keeps_def)
qed

end
