(* ===== verification/Cache_Hits.thy ===== *)
theory Cache_Hits
  imports Single_Type
begin

text \<open>
  What \<^verbatim>\<open>find_longest_cache_hit\<close> of the managers returns.  A prefix of \<open>L\<close> blocks is
  \<open>usable\<close> for a KV cache spec when every block that holds tokens the next token attends
  to, by \<^verbatim>\<open>get_num_skipped_tokens\<close>, is cached for all groups.  The locale \<open>hit_finder\<close> is
  the contract: the call returns, with one list per group, the real cached blocks
  wherever the prefix needs them, and without the EAGLE drop the longest such prefix.
\<close>

section \<open>Cached blocks\<close>

definition hit :: "block_pool \<Rightarrow> int list \<Rightarrow> bytes \<Rightarrow> kv_ref list \<Rightarrow> bool" where
  "hit p gids h bs \<longleftrightarrow> length bs = length gids \<and>
    (\<forall>k < length gids. \<exists>key. make_block_hash_with_group_id h (gids ! k) = Inr key \<and>
       in_pool p (bs ! k) \<and> key \<in> set (keys_of p (bs ! k)))"

definition cached :: "block_pool \<Rightarrow> int list \<Rightarrow> bytes \<Rightarrow> bool" where
  "cached p gids h \<longleftrightarrow> (\<exists>bs. hit p gids h bs)"

definition gids_ok :: "int list \<Rightarrow> bool" where
  "gids_ok gids \<longleftrightarrow> gids \<noteq> [] \<and> list_all (\<lambda>g. 0 \<le> g \<and> g < 2 ^ 32) gids"

definition col_at :: "nat \<Rightarrow> kv_ref list list \<Rightarrow> kv_ref list" where
  "col_at j cols = map (\<lambda>c. c ! j) cols"

definition cols_len :: "nat \<Rightarrow> int list \<Rightarrow> kv_ref list list \<Rightarrow> bool" where
  "cols_len n gids cols \<longleftrightarrow> length cols = length gids \<and> (\<forall>c \<in> set cols. length c = n)"

definition usable :: "(int \<Rightarrow> int) \<Rightarrow> int \<Rightarrow> block_pool \<Rightarrow> int list \<Rightarrow> bytes list \<Rightarrow> nat \<Rightarrow> bool" where
  "usable skipped bs p gids hs L \<longleftrightarrow>
    (\<forall>j < L. skipped (int L * bs) div bs \<le> int j \<longrightarrow> cached p gids (hs ! j))"

text \<open>The blocks of a result: cached where needed, and otherwise cached or null.\<close>

definition hit_blocks :: "(int \<Rightarrow> int) \<Rightarrow> int \<Rightarrow> block_pool \<Rightarrow> int list \<Rightarrow> bytes list \<Rightarrow> nat \<Rightarrow> kv_ref list list \<Rightarrow> bool" where
  "hit_blocks skipped bs p gids hs L cols \<longleftrightarrow> cols_len L gids cols \<and>
    (\<forall>j < L. hit p gids (hs ! j) (col_at j cols) \<or>
      int j < skipped (int L * bs) div bs \<and> (\<forall>c \<in> set cols. c ! j = null_block p))"

definition longest :: "(int \<Rightarrow> int) \<Rightarrow> int \<Rightarrow> block_pool \<Rightarrow> int list \<Rightarrow> bytes list \<Rightarrow> int \<Rightarrow> int \<Rightarrow> nat \<Rightarrow> bool" where
  "longest skipped bs p gids hs max_length al L \<longleftrightarrow>
    (\<forall>L'. int L' * bs \<le> max_length \<and> int L' * bs mod al = 0 \<and> usable skipped bs p gids hs L' \<longrightarrow> L' \<le> L)"

lemma hit_blocks_usable: "hit_blocks skipped bs p gids hs L cols \<Longrightarrow> usable skipped bs p gids hs L"
  unfolding hit_blocks_def usable_def cached_def by (metis linorder_not_le)

lemma cached_lookup_ok:
  assumes c: "cache_inv p" and g: "gids_ok gids"
  obtains "\<not> cached p gids h" "cached_lookup p gids h = Inr None"
  | bs where "hit p gids h bs" "cached_lookup p gids h = Inr (Some bs)"
proof -
  have g': "\<And>g. g \<in> set gids \<Longrightarrow> 0 \<le> g \<and> g < 2 ^ 32" using g by (simp add: gids_ok_def list_all_iff)
  obtain res where res: "get_cached_loop p h gids [] = Inr res"
    "case res of
       Some bs \<Rightarrow> \<exists>bs'. bs = [] @ bs' \<and> length bs' = length gids \<and>
         (\<forall>i < length gids. \<exists>key. make_block_hash_with_group_id h (gids ! i) = Inr key \<and>
            in_pool p (bs' ! i) \<and> key \<in> set (keys_of p (bs' ! i)))
     | None \<Rightarrow> \<exists>g \<in> set gids. \<exists>key. make_block_hash_with_group_id h g = Inr key \<and>
         (\<forall>b. in_pool p b \<longrightarrow> key \<notin> set (keys_of p b))"
    using get_cached_loop_ok [OF c g', where h = h and acc = "[]"] by blast
  show ?thesis
  proof (cases res)
    case None
    then obtain g key where "g \<in> set gids" "make_block_hash_with_group_id h g = Inr key"
      "\<forall>b. in_pool p b \<longrightarrow> key \<notin> set (keys_of p b)" using res(2) by auto
    then have "\<not> cached p gids h" unfolding cached_def hit_def in_set_conv_nth by (metis sum.inject(2))
    moreover have "cached_lookup p gids h = Inr None" using res(1) None by (simp add: cached_lookup_def get_cached_block_def)
    ultimately show ?thesis by (rule that(1))
  next
    case (Some bs)
    then have h: "hit p gids h bs" using res(2) by (simp add: hit_def)
    then have "bs \<noteq> []" using g by (auto simp: hit_def gids_ok_def)
    then have "cached_lookup p gids h = Inr (Some bs)" using res(1) Some by (simp add: cached_lookup_def get_cached_block_def)
    with h show ?thesis by (rule that(2))
  qed
qed

section \<open>Columns\<close>

lemma cols_len_nonempty: "gids_ok gids \<Longrightarrow> cols_len n gids cols \<Longrightarrow> cols \<noteq> []"
  by (auto simp: gids_ok_def cols_len_def)

lemma cols_len_take: "cols_len n gids cols \<Longrightarrow> m \<le> n \<Longrightarrow> cols_len m gids (map (take m) cols)"
  by (auto simp: cols_len_def)

lemma cols_len_const: "cols_len n gids (map (\<lambda>_. replicate n b) gids)"
  by (auto simp: cols_len_def)

lemma cols_len_append:
  "cols_len n gids cols \<Longrightarrow> length bs = length gids \<Longrightarrow> cols_len (Suc n) gids (map2 (\<lambda>c b. c @ [b]) cols bs)"
  by (auto simp: cols_len_def set_zip)

lemma cols_len_update:
  "cols_len n gids cols \<Longrightarrow> length bs = length gids \<Longrightarrow> cols_len n gids (map2 (\<lambda>c b. c[i := b]) cols bs)"
  by (auto simp: cols_len_def set_zip)

lemma col_at_take: "j < m \<Longrightarrow> col_at j (map (take m) cols) = col_at j cols"
  by (simp add: col_at_def)

lemma col_at_append:
  assumes "cols_len n gids cols" "length bs = length gids"
  shows "col_at n (map2 (\<lambda>c b. c @ [b]) cols bs) = bs" "j < n \<Longrightarrow> col_at j (map2 (\<lambda>c b. c @ [b]) cols bs) = col_at j cols"
  using assms by (auto simp: col_at_def cols_len_def nth_append intro!: nth_equalityI)

lemma col_at_update:
  assumes "cols_len n gids cols" "length bs = length gids" "i < n"
  shows "col_at i (map2 (\<lambda>c b. c[i := b]) cols bs) = bs" "j \<noteq> i \<Longrightarrow> col_at j (map2 (\<lambda>c b. c[i := b]) cols bs) = col_at j cols"
  using assms by (auto simp: col_at_def cols_len_def intro!: nth_equalityI)

lemma null_col: "(\<forall>c \<in> set cols. c ! j = b) \<longleftrightarrow> col_at j cols = replicate (length cols) b"
  by (simp add: col_at_def map_replicate_const [symmetric])

lemma pop_all_take:
  assumes "cols_len (Suc n) gids cols"
  shows "pop_all cols = Inr (map (take n) cols)"
proof -
  have "\<not> list_ex (\<lambda>c. c = []) cols" using assms by (auto simp: list_ex_iff cols_len_def)
  moreover have "map butlast cols = map (take n) cols" using assms by (auto simp: cols_len_def butlast_conv_take)
  ultimately show ?thesis by (simp add: pop_all_def)
qed

lemma align_pop_ok:
  assumes "cols_len n gids cols" "gids_ok gids"
  shows "\<exists>m \<le> n. align_pop bs al cols = Inr (map (take m) cols) \<and> int m * bs mod al = 0 \<and>
    (\<forall>m' \<le> n. int m' * bs mod al = 0 \<longrightarrow> m' \<le> m)"
  using assms(1)
proof (induction n arbitrary: cols)
  case 0
  then obtain c cs where c: "cols = c # cs" "c = []" using cols_len_nonempty [OF assms(2)] by (cases cols) (auto simp: cols_len_def)
  then have "align_pop bs al cols = Inr cols" by (subst align_pop.simps) simp
  moreover have "map (take 0) cols = cols" using 0 by (auto simp: cols_len_def intro!: map_idI)
  ultimately show ?case by (intro exI [of _ 0]) simp
next
  case (Suc n)
  obtain c cs where c: "cols = c # cs" "length c = Suc n"
    using Suc.prems cols_len_nonempty [OF assms(2)] by (cases cols) (auto simp: cols_len_def)
  have t: "map (take (Suc n)) cols = cols" using Suc.prems by (auto simp: cols_len_def intro!: map_idI)
  show ?case
  proof (cases "bs = al \<or> int (Suc n) * bs mod al = 0")
    case True
    then have "align_pop bs al cols = Inr cols" using c by (subst align_pop.simps) auto
    moreover have "int (Suc n) * bs mod al = 0" using True by auto
    ultimately show ?thesis using t by (intro exI [of _ "Suc n"]) auto
  next
    case False
    have "pop_all cols = Inr (map (take n) cols)" using Suc.prems by (rule pop_all_take)
    then have p: "\<not> list_ex (\<lambda>c. c = []) cols" "map butlast cols = map (take n) cols"
      unfolding pop_all_def by (metis Inl_Inr_False sum.inject(2))+
    have e: "align_pop bs al cols = align_pop bs al (map (take n) cols)"
      unfolding p(2) [symmetric] using False c(2) p(1) unfolding c(1) by (subst align_pop.simps) simp
    have "cols_len n gids (map (take n) cols)" using Suc.prems by (rule cols_len_take) simp
    from Suc.IH [OF this] obtain m where m: "m \<le> n" "align_pop bs al (map (take n) cols) = Inr (map (take m) (map (take n) cols))"
      "int m * bs mod al = 0" "\<forall>m' \<le> n. int m' * bs mod al = 0 \<longrightarrow> m' \<le> m" by (elim exE conjE)
    have "map (take m) (map (take n) cols) = map (take m) cols" using m(1) by (simp add: min_def)
    moreover have "m' \<le> n" if "m' \<le> Suc n" "int m' * bs mod al = 0" for m' using that False by (cases "m' = Suc n") auto
    ultimately show ?thesis using m e by (intro exI [of _ m]) auto
  qed
qed

lemma align_pop_id:
  assumes "cols_len n gids cols" "gids_ok gids" "int n * bs mod al = 0"
  shows "align_pop bs al cols = Inr cols"
proof -
  obtain m where m: "m \<le> n" "align_pop bs al cols = Inr (map (take m) cols)" "\<forall>m' \<le> n. int m' * bs mod al = 0 \<longrightarrow> m' \<le> m"
    using align_pop_ok [OF assms(1,2), of bs al] by blast
  then have "m = n" using assms(3) by force
  moreover have "map (take n) cols = cols" using assms(1) by (auto simp: cols_len_def intro!: map_idI)
  ultimately show ?thesis using m(2) by simp
qed

lemma drop_last_ok:
  assumes "cols_len n gids cols" "gids_ok gids"
  shows "drop_last d cols k = (if d \<and> 0 < n then k (map (take (n - 1)) cols) else Inr cols)"
proof -
  obtain c cs where c: "cols = c # cs" "length c = n"
    using assms cols_len_nonempty [OF assms(2,1)] by (cases cols) (auto simp: cols_len_def)
  then have "py_index cols 0 = Inr c" by (simp add: py_index_def)
  moreover have "pop_all cols = Inr (map (take (n - 1)) cols)" if "0 < n"
    using pop_all_take [of "n - 1" gids cols] that assms(1) by simp
  ultimately show ?thesis using c by (auto simp: drop_last_def)
qed

section \<open>The scans\<close>

lemma hit_scan_ok:
  assumes c: "cache_inv p" and g: "gids_ok gids" and "cols_len n gids cols"
  shows "\<exists>m cols'. m \<le> length hs \<and> hit_scan p gids hs cols = Inr cols' \<and> cols_len (n + m) gids cols' \<and>
    (\<forall>j < n. col_at j cols' = col_at j cols) \<and> (\<forall>j < m. hit p gids (hs ! j) (col_at (n + j) cols')) \<and>
    (m < length hs \<longrightarrow> \<not> cached p gids (hs ! m))"
  using assms(3)
proof (induction hs arbitrary: n cols)
  case Nil
  then show ?case by auto
next
  case (Cons h hs)
  show ?case
  proof (cases rule: cached_lookup_ok [OF c g, of h])
    case 1
    then show ?thesis using Cons.prems by (intro exI [of _ 0]) auto
  next
    case (2 bs)
    let ?cols = "map2 (\<lambda>c b. c @ [b]) cols bs"
    have l: "length bs = length gids" using 2(1) by (simp add: hit_def)
    note A = col_at_append [OF Cons.prems l]
    have "cols_len (Suc n) gids ?cols" using Cons.prems l by (rule cols_len_append)
    from Cons.IH [OF this] obtain m cols' where m: "m \<le> length hs" "hit_scan p gids hs ?cols = Inr cols'"
      "cols_len (Suc n + m) gids cols'" "\<forall>j < Suc n. col_at j cols' = col_at j ?cols"
      "\<forall>j < m. hit p gids (hs ! j) (col_at (Suc n + j) cols')" "m < length hs \<longrightarrow> \<not> cached p gids (hs ! m)" by blast
    have "hit p gids ((h # hs) ! j) (col_at (n + j) cols')" if "j < Suc m" for j
    proof (cases j)
      case 0
      then show ?thesis using m(4) A(1) 2(1) by simp
    next
      case (Suc i)
      then show ?thesis using that m(5) by simp
    qed
    moreover have "col_at j cols' = col_at j cols" if "j < n" for j using that m(4) A(2) by simp
    ultimately show ?thesis using 2(2) m by (intro exI [of _ "Suc m"] exI [of _ cols']) simp
  qed
qed

lemma chunk_loop_eq_scan:
  assumes "0 \<le> a" "b \<le> int (length hashes)"
  shows "chunk_loop p gids hashes [a..b - 1] cols = hit_scan p gids (take (nat (b - a)) (drop (nat a) hashes)) cols"
  using assms
proof (induction "nat (b - a)" arbitrary: a cols)
  case 0
  then show ?case by simp
next
  case (Suc n)
  then have "[a..b - 1] = a # [a + 1..b - 1]" by (subst upto.simps) simp
  moreover have "drop (nat a) hashes = hashes ! nat a # drop (nat (a + 1)) hashes"
    using Suc.prems Suc.hyps(2) by (simp add: Cons_nth_drop_Suc nat_add_distrib)
  moreover have "nat (b - a) = Suc (nat (b - (a + 1)))" using Suc.hyps(2) by simp
  moreover have "py_index hashes a = Inr (hashes ! nat a)" using Suc.prems Suc.hyps(2) by (simp add: py_index_def)
  moreover have "chunk_loop p gids hashes [a + 1..b - 1] cols' = hit_scan p gids (take (nat (b - (a + 1))) (drop (nat (a + 1)) hashes)) cols'" for cols'
    using Suc.hyps Suc.prems by (intro Suc.hyps(1)) auto
  ultimately show ?case by (cases "cached_lookup p gids (hashes ! nat a)") (auto split: option.splits)
qed

section \<open>The sliding window search\<close>

definition win_cached :: "block_pool \<Rightarrow> int list \<Rightarrow> bytes list \<Rightarrow> int \<Rightarrow> nat \<Rightarrow> bool" where
  "win_cached p gids hs need L \<longleftrightarrow> (\<forall>j < L. int L - need \<le> int j \<longrightarrow> cached p gids (hs ! j))"

definition swa_inv ::
  "block_pool \<Rightarrow> int list \<Rightarrow> bytes list \<Rightarrow> int \<Rightarrow> int \<Rightarrow> bool \<Rightarrow> int \<Rightarrow> nat \<Rightarrow> nat \<Rightarrow> nat \<Rightarrow> kv_ref list list \<Rightarrow> bool" where
  "swa_inv p gids hs bs al d need N i nc cols \<longleftrightarrow> cols_len N gids cols \<and> i + nc \<le> N \<and>
    (\<forall>j. i \<le> j \<and> j < i + nc \<longrightarrow> hit p gids (hs ! j) (col_at j cols)) \<and>
    (\<forall>j < i. col_at j cols = replicate (length gids) (null_block p)) \<and>
    (0 < nc \<longrightarrow> (int (i + nc) - (if d then 1 else 0)) * bs mod al = 0) \<and>
    (\<not> d \<and> 1 \<le> need \<longrightarrow> (\<forall>L. i + nc < L \<and> L \<le> N \<and> int L * bs mod al = 0 \<longrightarrow> \<not> win_cached p gids hs need L))"

lemma swa_inv_start:
  "swa_inv p gids hs bs al d need N N 0 (map (\<lambda>_. replicate N (null_block p)) gids)"
  by (auto simp: swa_inv_def cols_len_def col_at_def map_replicate_const)

lemma swa_inv_max:
  "swa_inv p gids hs bs al d need N i nc cols \<Longrightarrow> \<not> d \<Longrightarrow> 1 \<le> need \<Longrightarrow> i + nc < L \<Longrightarrow> L \<le> N \<Longrightarrow>
    int L * bs mod al = 0 \<Longrightarrow> \<not> win_cached p gids hs need L"
  by (simp add: swa_inv_def)

lemma swa_inv_restart:
  assumes "swa_inv p gids hs bs al d need N (Suc i) nc cols"
    and "\<And>L. \<not> d \<Longrightarrow> 1 \<le> need \<Longrightarrow> i < L \<Longrightarrow> L \<le> Suc i + nc \<Longrightarrow> int L * bs mod al = 0 \<Longrightarrow> \<not> win_cached p gids hs need L"
  shows "swa_inv p gids hs bs al d need N i 0 cols"
proof -
  have "\<not> win_cached p gids hs need L" if "\<not> d" "1 \<le> need" "i < L" "L \<le> N" "int L * bs mod al = 0" for L
    using that assms(2) [of L] swa_inv_max [OF assms(1), of L] by (cases "L \<le> Suc i + nc") simp_all
  then show ?thesis using assms(1) by (auto simp: swa_inv_def)
qed

lemma swa_inv_miss:
  assumes "swa_inv p gids hs bs al d need N (Suc i) nc cols" "\<not> cached p gids (hs ! i)" "nc = 0 \<or> int nc < need"
  shows "swa_inv p gids hs bs al d need N i 0 cols"
  using assms(1)
proof (rule swa_inv_restart)
  fix L assume "i < L" "L \<le> Suc i + nc" "1 \<le> need"
  then show "\<not> win_cached p gids hs need L" using assms(2,3) unfolding win_cached_def by (auto intro!: exI [of _ i])
qed

lemma swa_inv_skip:
  assumes "swa_inv p gids hs bs al d need N (Suc i) 0 cols" "(if d then int i else int i + 1) * bs mod al \<noteq> 0"
  shows "swa_inv p gids hs bs al d need N i 0 cols"
  using assms(1)
proof (rule swa_inv_restart)
  fix L assume "i < L" "L \<le> Suc i + 0" "\<not> d" "int L * bs mod al = 0"
  moreover from this have "L = Suc i" by simp
  ultimately show "\<not> win_cached p gids hs need L" using assms(2) by (simp add: add.commute)
qed

lemma swa_inv_take:
  assumes I: "swa_inv p gids hs bs al d need N (Suc i) nc cols" and h: "hit p gids (hs ! i) bl"
    and a: "nc \<noteq> 0 \<or> bs = al \<or> (if d then int i else int i + 1) * bs mod al = 0"
  shows "swa_inv p gids hs bs al d need N i (nc + 1) (map2 (\<lambda>c b. c[i := b]) cols bl)"
proof -
  let ?cols = "map2 (\<lambda>c b. c[i := b]) cols bl"
  have l: "length bl = length gids" using h by (simp add: hit_def)
  have c: "cols_len N gids cols" "i < N" using I by (auto simp: swa_inv_def)
  note A = col_at_update [OF c(1) l c(2)]
  have "hit p gids (hs ! j) (col_at j ?cols)" if "i \<le> j" "j < Suc i + nc" for j
  proof (cases "j = i")
    case True
    then show ?thesis using A(1) h by simp
  next
    case False
    then show ?thesis using that I A(2) [of j] by (simp add: swa_inv_def)
  qed
  moreover have "col_at j ?cols = replicate (length gids) (null_block p)" if "j < i" for j
    using that I A(2) [of j] by (simp add: swa_inv_def)
  moreover have "(int (Suc i + nc) - (if d then 1 else 0)) * bs mod al = 0"
    using I a by (cases "nc = 0") (auto simp: swa_inv_def add.commute split: if_splits)
  ultimately show ?thesis using I cols_len_update [OF c(1) l, of i] by (simp add: swa_inv_def)
qed

lemma swa_loop_ok:
  assumes c: "cache_inv p" and g: "gids_ok gids" and N: "N \<le> length hs"
    and "swa_inv p gids hs bs al d need N i nc cols" "nc = 0 \<or> int nc < need"
  shows "\<exists>found i' nc' cols'.
    swa_loop p gids hs bs al d need i nc cols = Inr (found, nc', if found then map (take (i' + nc')) cols' else cols') \<and>
    swa_inv p gids hs bs al d need N i' nc' cols' \<and>
    (if found then 0 < nc' \<and> need \<le> int nc' else i' = 0)"
  using assms(4,5)
proof (induction i arbitrary: nc cols)
  case 0
  then show ?case by (intro exI [of _ False] exI [of _ 0] exI [of _ nc] exI [of _ cols]) simp
next
  case (Suc i)
  have "i < length hs" using Suc.prems(1) N by (auto simp: swa_inv_def)
  then have x: "py_index hs (int i) = Inr (hs ! i)" by simp
  show ?case
  proof (cases rule: cached_lookup_ok [OF c g, of "hs ! i"])
    case 1
    then have "swa_inv p gids hs bs al d need N i 0 cols" using Suc.prems by (intro swa_inv_miss)
    from Suc.IH [OF this] show ?thesis using x 1(2) by simp
  next
    case (2 bl)
    show ?thesis
    proof (cases "nc = 0 \<and> bs \<noteq> al \<and> (if d then int i else int i + 1) * bs mod al \<noteq> 0")
      case True
      then have "swa_inv p gids hs bs al d need N i nc cols" using Suc.prems(1) swa_inv_skip by blast
      from Suc.IH [OF this] show ?thesis using x 2(2) True by simp
    next
      case False
      let ?cols = "map2 (\<lambda>c b. c[i := b]) cols bl"
      have n: "swa_inv p gids hs bs al d need N i (nc + 1) ?cols"
        using Suc.prems(1) 2(1) False by (intro swa_inv_take) auto
      have e: "swa_loop p gids hs bs al d need (Suc i) nc cols =
        (if int (nc + 1) \<ge> need then Inr (True, nc + 1, map (take (i + (nc + 1))) ?cols)
         else swa_loop p gids hs bs al d need i (nc + 1) ?cols)"
        by (simp only: swa_loop.simps x 2(2) rbind.simps option.case if_not_P [OF False] Let_def)
      show ?thesis
      proof (cases "int (nc + 1) \<ge> need")
        case True
        then show ?thesis using n e by (intro exI [of _ True] exI [of _ i] exI [of _ "nc + 1"] exI [of _ ?cols]) simp
      next
        case less: False
        then show ?thesis using Suc.IH [OF n] unfolding e by simp
      qed
    qed
  qed
qed

text \<open>The window needs the last \<^verbatim>\<open>cdiv(window - 1, block_size)\<close> blocks.\<close>

lemma swa_needed_blocks:
  assumes "0 < bs"
  shows "max 0 (int L * bs - w + 1) div bs \<le> int j \<longleftrightarrow> int L - cdiv (w - 1) bs \<le> int j"
proof -
  have "(int L * bs - w + 1) div bs = (1 - w + int L * bs) div bs" by (simp add: algebra_simps)
  also have "\<dots> = int L + (1 - w) div bs" using assms by (intro div_mult_self1) simp
  finally have "(int L * bs - w + 1) div bs = int L - cdiv (w - 1) bs" by (simp add: cdiv_alt)
  moreover have "max 0 x div bs = max 0 (x div bs)" for x
    using assms by (simp add: max_def div_int_pos_iff pos_imp_zdiv_neg_iff)
  ultimately show ?thesis by simp
qed

section \<open>The contract\<close>

text \<open>A call returns, with blocks that are cached wherever the prefix needs them.\<close>

definition sound_hit ::
  "(int \<Rightarrow> int) \<Rightarrow> int \<Rightarrow> block_pool \<Rightarrow> int list \<Rightarrow> bytes list \<Rightarrow> int \<Rightarrow> int \<Rightarrow> nat \<Rightarrow> kv_ref list list \<Rightarrow> bool" where
  "sound_hit skipped bs p gids hs max_length al L cols \<longleftrightarrow>
    hit_blocks skipped bs p gids hs L cols \<and> int L * bs \<le> max_length \<and> int L * bs mod al = 0"

definition group_block_size :: "kv_spec \<Rightarrow> int \<Rightarrow> int \<Rightarrow> int" where
  "group_block_size spec dcp pcp = (if dcp * pcp > 1 then spec_block_size spec * (dcp * pcp) else spec_block_size spec)"

locale hit_finder =
  fixes find :: "bytes list \<Rightarrow> int \<Rightarrow> int list \<Rightarrow> block_pool \<Rightarrow> kv_spec \<Rightarrow> bool \<Rightarrow> int \<Rightarrow> int \<Rightarrow> int \<Rightarrow> kv_ref list list result"
    and supported :: "kv_spec \<Rightarrow> bool \<Rightarrow> int \<Rightarrow> int \<Rightarrow> int \<Rightarrow> bool"
  assumes bs_pos: "supported spec d al dcp pcp \<Longrightarrow> 0 < group_block_size spec dcp pcp"
    and no_drop: "supported spec d al dcp pcp \<Longrightarrow> supported spec False al dcp pcp"
    and finds: "\<lbrakk>cache_inv p; gids_ok gids; supported spec d al dcp pcp; bs = group_block_size spec dcp pcp;
        0 \<le> max_length; max_length div bs \<le> int (length hs)\<rbrakk> \<Longrightarrow>
      \<exists>L cols. find hs max_length gids p spec d al dcp pcp = Inr cols \<and>
        sound_hit (get_num_skipped_tokens spec) bs p gids hs max_length al L cols \<and>
        (\<not> d \<longrightarrow> longest (get_num_skipped_tokens spec) bs p gids hs max_length al L)"
begin

text \<open>Searching again below the length found finds the same length.\<close>

lemma find_stable:
  assumes c: "cache_inv p" and g: "gids_ok gids" and ok: "supported spec d al dcp pcp"
    and bs: "bs = group_block_size spec dcp pcp" and m: "max_length div bs \<le> int (length hs)"
    and s: "sound_hit (get_num_skipped_tokens spec) bs p gids hs max_length al L cols"
  shows "\<exists>cols'. find hs (int L * bs) gids p spec False al dcp pcp = Inr cols' \<and>
    sound_hit (get_num_skipped_tokens spec) bs p gids hs (int L * bs) al L cols'"
proof -
  have pos: "0 < bs" using bs_pos [OF ok] bs by simp
  have h: "hit_blocks (get_num_skipped_tokens spec) bs p gids hs L cols" "int L * bs \<le> max_length" "int L * bs mod al = 0"
    using s by (simp_all add: sound_hit_def)
  have "int L \<le> max_length div bs" using h(2) int_le_div_iff [OF pos] by simp
  then have "int L * bs div bs \<le> int (length hs)" "0 \<le> int L * bs" using m pos by simp_all
  then obtain L' cols' where f: "find hs (int L * bs) gids p spec False al dcp pcp = Inr cols'"
    "sound_hit (get_num_skipped_tokens spec) bs p gids hs (int L * bs) al L' cols'"
    "longest (get_num_skipped_tokens spec) bs p gids hs (int L * bs) al L'"
    using finds [OF c g no_drop [OF ok] bs, of "int L * bs" hs] by blast
  have "L \<le> L'" using f(3) h(3) hit_blocks_usable [OF h(1)] by (simp add: longest_def)
  moreover have "int L' * bs \<le> int L * bs" using f(2) by (simp add: sound_hit_def)
  then have "L' \<le> L" using pos by simp
  ultimately show ?thesis using f(1,2) by auto
qed

end

section \<open>The managers meet the contract\<close>

lemma hit_blocks_prefix:
  assumes "cols_len n gids cols" "\<forall>j < n. hit p gids (hs ! j) (col_at j cols)" "m \<le> n"
  shows "hit_blocks skipped bs p gids hs m (map (take m) cols)"
  using assms by (auto simp: hit_blocks_def cols_len_take col_at_take)

lemma sound_hitI:
  assumes "hit_blocks skipped bs p gids hs L cols" "int L \<le> max_length div bs" "int L * bs mod al = 0" "0 < bs"
  shows "sound_hit skipped bs p gids hs max_length al L cols"
  using assms int_le_div_iff [OF assms(4)] by (simp add: sound_hit_def)

lemma longestI:
  assumes "0 < bs" "\<And>L'. L < L' \<Longrightarrow> int L' \<le> max_length div bs \<Longrightarrow> int L' * bs mod al = 0 \<Longrightarrow> \<not> usable skipped bs p gids hs L'"
  shows "longest skipped bs p gids hs max_length al L"
  using assms int_le_div_iff [OF assms(1)] unfolding longest_def by (meson linorder_not_le)

lemma skipped_full: "is_FullAttentionSpec spec \<Longrightarrow> get_num_skipped_tokens spec n = 0"
  by (cases spec) simp_all

definition full_supported :: "kv_spec \<Rightarrow> bool \<Rightarrow> int \<Rightarrow> int \<Rightarrow> int \<Rightarrow> bool" where
  "full_supported spec d al dcp pcp \<longleftrightarrow> is_FullAttentionSpec spec \<and> 0 < group_block_size spec dcp pcp \<and> 0 < al"

lemma full_finds:
  assumes c: "cache_inv p" and g: "gids_ok gids" and ok: "full_supported spec d al dcp pcp"
    and bs: "bs = group_block_size spec dcp pcp" and m0: "0 \<le> max_length" and ml: "max_length div bs \<le> int (length hs)"
  shows "\<exists>L cols. full_find_longest_cache_hit hs max_length gids p spec d al dcp pcp = Inr cols \<and>
    sound_hit (get_num_skipped_tokens spec) bs p gids hs max_length al L cols \<and>
    (\<not> d \<longrightarrow> longest (get_num_skipped_tokens spec) bs p gids hs max_length al L)"
proof -
  define N where "N = nat (max_length div bs)"
  have spec: "is_FullAttentionSpec spec" and pos: "0 < bs" using ok bs by (simp_all add: full_supported_def)
  have N: "int N = max_length div bs" "N \<le> length hs" using m0 ml pos by (simp_all add: N_def pos_imp_zdiv_nonneg_iff nat_le_iff)
  have z: "cols_len 0 gids (map (\<lambda>_. []) gids)" by (simp add: cols_len_def)
  obtain m cols where s: "m \<le> length (take N hs)" "hit_scan p gids (take N hs) (map (\<lambda>_. []) gids) = Inr cols"
    "cols_len (0 + m) gids cols" "\<forall>j < m. hit p gids (take N hs ! j) (col_at (0 + j) cols)"
    "m < length (take N hs) \<longrightarrow> \<not> cached p gids (take N hs ! m)"
    using hit_scan_ok [OF c g z, of "take N hs"] by (elim exE conjE)
  have m: "m \<le> N" "cols_len m gids cols" "\<forall>j < m. hit p gids (hs ! j) (col_at j cols)" "m < N \<Longrightarrow> \<not> cached p gids (hs ! m)"
    using s N(2) by simp_all
  define n where "n = (if d \<and> 0 < m then m - 1 else m)"
  have n: "n \<le> m" "drop_last d cols Inr = Inr (map (take n) cols)"
    using drop_last_ok [OF m(2) g, of d Inr] m(2) by (auto simp: n_def cols_len_def intro!: map_idI [symmetric])
  obtain k where k: "k \<le> n" "align_pop bs al (map (take n) cols) = Inr (map (take k) (map (take n) cols))"
    "int k * bs mod al = 0" "\<forall>m' \<le> n. int m' * bs mod al = 0 \<longrightarrow> m' \<le> k"
    using align_pop_ok [OF cols_len_take [OF m(2) n(1)] g, of bs al] by (elim exE conjE)
  have "\<not> max_length div bs < 0" using N(1) by linarith
  then have r: "full_find_longest_cache_hit hs max_length gids p spec d al dcp pcp = Inr (map (take k) cols)"
    using spec s(2) n(2) k(1,2) bs N_def
    by (simp add: full_find_longest_cache_hit_def group_block_size_def Let_def min_def comp_def)
  have "sound_hit (get_num_skipped_tokens spec) bs p gids hs max_length al k (map (take k) cols)"
    using hit_blocks_prefix [OF m(2,3), of k] k n(1) m(1) N(1) pos by (intro sound_hitI) auto
  moreover have "longest (get_num_skipped_tokens spec) bs p gids hs max_length al k" if "\<not> d"
  proof (rule longestI [OF pos])
    fix L assume L: "k < L" "int L \<le> max_length div bs" "int L * bs mod al = 0"
    have "n = m" using that by (simp add: n_def)
    then have "m < L" using k(4) L(1,3) by (meson linorder_not_le)
    then show "\<not> usable (get_num_skipped_tokens spec) bs p gids hs L"
      using m(4) L(2) N(1) skipped_full [OF spec] by (auto simp: usable_def intro!: exI [of _ m])
  qed
  ultimately show ?thesis using r by blast
qed

definition swa_supported :: "kv_spec \<Rightarrow> bool \<Rightarrow> int \<Rightarrow> int \<Rightarrow> int \<Rightarrow> bool" where
  "swa_supported spec d al dcp pcp \<longleftrightarrow> (case spec_sliding_window spec of None \<Rightarrow> False | Some w \<Rightarrow> 2 \<le> w) \<and>
    dcp = 1 \<and> pcp = 1 \<and> 0 < spec_block_size spec \<and> 0 < al"

lemma skipped_window:
  "spec_sliding_window spec = Some w \<Longrightarrow> is_SlidingWindowSpec spec \<and> get_num_skipped_tokens spec n = max 0 (n - w + 1)"
  by (cases spec) simp_all

text \<open>The trimming after the search.\<close>

lemma swa_trim_ok:
  assumes g: "gids_ok gids" and I: "swa_inv p gids hs bs al d need N i nc cols"
    and f: "if found then 0 < nc \<and> need \<le> int nc else i = 0" and nd: "need = nd + (if d then 1 else 0)"
  shows "\<exists>L \<le> N. rbind (if found then Inr (map (take (i + nc)) cols) else align_pop bs al (map (take nc) cols))
       (\<lambda>cols. drop_last d cols (align_pop bs al)) = Inr (map (take L) cols) \<and> int L * bs mod al = 0 \<and>
     (\<forall>j < L. hit p gids (hs ! j) (col_at j cols) \<or> int j < int L - nd \<and> col_at j cols = replicate (length gids) (null_block p)) \<and>
     (\<not> d \<longrightarrow> L = i + nc)"
proof -
  let ?E = "i + nc"
  have E: "cols_len N gids cols" "?E \<le> N" "\<And>j. i \<le> j \<Longrightarrow> j < ?E \<Longrightarrow> hit p gids (hs ! j) (col_at j cols)"
    "\<And>j. j < i \<Longrightarrow> col_at j cols = replicate (length gids) (null_block p)"
    "0 < nc \<Longrightarrow> (int ?E - (if d then 1 else 0)) * bs mod al = 0"
    using I by (simp_all add: swa_inv_def)
  have len: "cols_len m gids (map (take m) cols)" if "m \<le> N" for m using E(1) that by (rule cols_len_take)
  have tt: "take m \<circ> take n = (take m :: kv_ref list \<Rightarrow> kv_ref list)" if "m \<le> n" for m n
    using that by (auto simp: fun_eq_iff min_def)
  show ?thesis
  proof (cases found)
    case True
    define L where "L = (if d then ?E - 1 else ?E)"
    have nc: "0 < nc" "need \<le> int nc" using f True by simp_all
    have L: "L \<le> ?E" "int L = int ?E - (if d then 1 else 0)" using nc by (auto simp: L_def)
    then have al: "int L * bs mod al = 0" using E(5) [OF nc(1)] by simp
    have "drop_last d (map (take ?E) cols) (align_pop bs al) = Inr (map (take L) cols)"
      using drop_last_ok [OF len [OF E(2)] g, of d "align_pop bs al"] align_pop_id [OF len g al] L(1) E(2) nc(1)
      by (auto simp: L_def tt)
    moreover have "hit p gids (hs ! j) (col_at j cols) \<or> int j < int L - nd \<and> col_at j cols = replicate (length gids) (null_block p)"
      if "j < L" for j using that E(3) [of j] E(4) [of j] L nc(2) nd by (cases "i \<le> j") (auto split: if_splits)
    ultimately show ?thesis using True al L(1) E(2) by (intro exI [of _ L]) (auto simp: L_def)
  next
    case False
    then have i: "i = 0" using f by simp
    obtain m where m: "m \<le> nc" "align_pop bs al (map (take nc) cols) = Inr (map (take m) (map (take nc) cols))"
      "int m * bs mod al = 0" "\<forall>m' \<le> nc. int m' * bs mod al = 0 \<longrightarrow> m' \<le> m"
      using align_pop_ok [OF len g, of nc bs al] E(2) by (auto simp: i)
    have m': "align_pop bs al (map (take nc) cols) = Inr (map (take m) cols)" using m(1,2) tt by simp
    have m1: "m - 1 \<le> N" using m(1) E(2) i by simp
    obtain k where k: "k \<le> m - 1" "align_pop bs al (map (take (m - 1)) cols) = Inr (map (take k) (map (take (m - 1)) cols))"
      "int k * bs mod al = 0"
      using align_pop_ok [OF len [OF m1] g, of bs al] by (elim exE conjE)
    define L where "L = (if d \<and> 0 < m then k else m)"
    have "drop_last d (map (take m) cols) (align_pop bs al) = Inr (map (take L) cols)"
      using drop_last_ok [OF len g, of m d "align_pop bs al"] k(1,2) m(1) E(2) i by (auto simp: L_def tt)
    moreover have "L \<le> nc" "int L * bs mod al = 0" using k(1,3) m(1,3) by (auto simp: L_def)
    moreover have "\<not> d \<longrightarrow> L = nc" using m E(5) i by (cases "nc = 0") (auto simp: L_def intro!: antisym)
    ultimately show ?thesis using False m' i E(2,3) by (intro exI [of _ L]) auto
  qed
qed

lemma swa_finds:
  assumes c: "cache_inv p" and g: "gids_ok gids" and ok: "swa_supported spec d al dcp pcp"
    and bs: "bs = group_block_size spec dcp pcp" and m0: "0 \<le> max_length" and ml: "max_length div bs \<le> int (length hs)"
  shows "\<exists>L cols. swa_find_longest_cache_hit hs max_length gids p spec d al dcp pcp = Inr cols \<and>
    sound_hit (get_num_skipped_tokens spec) bs p gids hs max_length al L cols \<and>
    (\<not> d \<longrightarrow> longest (get_num_skipped_tokens spec) bs p gids hs max_length al L)"
proof -
  define N where "N = nat (max_length div bs)"
  obtain w where w: "spec_sliding_window spec = Some w" "2 \<le> w" using ok by (auto simp: swa_supported_def split: option.splits)
  have pos: "0 < bs" and bs': "spec_block_size spec = bs" and cp: "dcp = 1" "pcp = 1"
    using ok bs by (simp_all add: swa_supported_def group_block_size_def)
  have N: "int N = max_length div bs" "N \<le> length hs" using m0 ml pos by (simp_all add: N_def pos_imp_zdiv_nonneg_iff nat_le_iff)
  define need where "need = contiguous_blocks_for_hit w bs d"
  define nd where "nd = cdiv (w - 1) bs"
  have nd: "1 \<le> nd" "need = nd + (if d then 1 else 0)"
    using cdiv_le_iff [OF pos, of "w - 1" 0] w(2) by (auto simp: nd_def need_def contiguous_blocks_for_hit_def Let_def)
  obtain found i nc cols where s:
    "swa_loop p gids hs bs al d need N 0 (map (\<lambda>_. replicate N (null_block p)) gids) =
       Inr (found, nc, if found then map (take (i + nc)) cols else cols)"
    "swa_inv p gids hs bs al d need N i nc cols" "if found then 0 < nc \<and> need \<le> int nc else i = 0"
    using swa_loop_ok [OF c g N(2) swa_inv_start [of p gids hs bs al d need N]] by auto
  obtain L where L: "L \<le> N" "rbind (if found then Inr (map (take (i + nc)) cols) else align_pop bs al (map (take nc) cols))
       (\<lambda>cols. drop_last d cols (align_pop bs al)) = Inr (map (take L) cols)" "int L * bs mod al = 0"
     "\<forall>j < L. hit p gids (hs ! j) (col_at j cols) \<or> int j < int L - nd \<and> col_at j cols = replicate (length gids) (null_block p)"
     "\<not> d \<longrightarrow> L = i + nc"
    using swa_trim_ok [OF g s(2,3) nd(2)] by (elim exE conjE)
  have r: "swa_find_longest_cache_hit hs max_length gids p spec d al dcp pcp = Inr (map (take L) cols)"
    using L(2) s(1) w(1) skipped_window [OF w(1)] cp bs'
    by (simp add: swa_find_longest_cache_hit_def Let_def N_def need_def cong: if_cong)
  have needed: "get_num_skipped_tokens spec (int L * bs) div bs \<le> int j \<longleftrightarrow> int L - nd \<le> int j" for L j
    using skipped_window [OF w(1)] swa_needed_blocks [OF pos] by (simp add: nd_def)
  have "cols_len N gids cols" using s(2) by (simp add: swa_inv_def)
  then have "cols_len L gids (map (take L) cols)" using L(1) by (rule cols_len_take)
  then have "hit_blocks (get_num_skipped_tokens spec) bs p gids hs L (map (take L) cols)"
    using L(4) needed [of L] unfolding hit_blocks_def null_col by (auto simp: col_at_take cols_len_def linorder_not_le [symmetric])
  then have "sound_hit (get_num_skipped_tokens spec) bs p gids hs max_length al L (map (take L) cols)"
    using L(1,3) N(1) pos by (intro sound_hitI) auto
  moreover have "longest (get_num_skipped_tokens spec) bs p gids hs max_length al L" if "\<not> d"
    using swa_inv_max [OF s(2) that] nd that L(5) N(1)
    by (intro longestI [OF pos]) (auto simp: usable_def win_cached_def needed)
  ultimately show ?thesis using r by blast
qed

definition chunked_supported :: "kv_spec \<Rightarrow> bool \<Rightarrow> int \<Rightarrow> int \<Rightarrow> int \<Rightarrow> bool" where
  "chunked_supported spec d al dcp pcp \<longleftrightarrow>
    (case spec of ChunkedLocalAttentionSpec _ chunk \<Rightarrow> 0 < chunk \<and> chunk mod spec_block_size spec = 0 | _ \<Rightarrow> False) \<and>
    \<not> d \<and> dcp = 1 \<and> pcp = 1 \<and> 0 < spec_block_size spec \<and> al = spec_block_size spec"

text \<open>With a chunk of whole blocks, a prefix that reaches the chunk of \<^verbatim>\<open>max_length\<close> skips
  exactly the blocks before this chunk.\<close>

lemma chunk_skipped:
  fixes chunk :: int
  assumes "0 < bs" "0 < chunk" "chunk mod bs = 0" "max_length div chunk * chunk div bs \<le> L" "L * bs \<le> max_length"
  shows "L * bs div chunk * chunk div bs = max_length div chunk * chunk div bs"
proof -
  obtain k where k: "chunk = bs * k" using assms(3) by auto
  have "max_length div chunk * chunk div bs * bs \<le> L * bs" using assms(1,4) by simp
  moreover have "max_length div chunk * chunk div bs * bs = max_length div chunk * chunk" using assms(1) k by simp
  ultimately have "max_length div chunk \<le> L * bs div chunk" using int_le_div_iff [OF assms(2)] by simp
  moreover have "L * bs div chunk \<le> max_length div chunk" using assms(2,5) by (intro zdiv_mono1)
  ultimately show ?thesis by simp
qed

lemma chunked_finds:
  assumes c: "cache_inv p" and g: "gids_ok gids" and ok: "chunked_supported spec d al dcp pcp"
    and bs: "bs = group_block_size spec dcp pcp" and m0: "0 \<le> max_length" and ml: "max_length div bs \<le> int (length hs)"
  shows "\<exists>L cols. chunked_find_longest_cache_hit hs max_length gids p spec d al dcp pcp = Inr cols \<and>
    sound_hit (get_num_skipped_tokens spec) bs p gids hs max_length al L cols \<and>
    (\<not> d \<longrightarrow> longest (get_num_skipped_tokens spec) bs p gids hs max_length al L)"
proof -
  obtain a chunk where spec: "spec = ChunkedLocalAttentionSpec a chunk" "0 < chunk" "chunk mod spec_block_size spec = 0"
    using ok by (auto simp: chunked_supported_def split: kv_spec.splits)
  have pos: "0 < bs" and bs': "spec_block_size spec = bs" and al: "al = bs" and x: "\<not> d" "dcp = 1" "pcp = 1"
    using ok bs by (simp_all add: chunked_supported_def group_block_size_def)
  define N where "N = nat (max_length div bs)"
  define S where "S = nat (max_length div chunk * chunk div bs)"
  have N: "int N = max_length div bs" "N \<le> length hs" using m0 ml pos by (simp_all add: N_def pos_imp_zdiv_nonneg_iff nat_le_iff)
  have S: "int S = max_length div chunk * chunk div bs" using m0 pos spec(2) by (simp add: S_def pos_imp_zdiv_nonneg_iff)
  have "max_length div chunk * chunk \<le> max_length" using int_le_div_iff [OF spec(2), of "max_length div chunk" max_length] by simp
  then have "S \<le> N" using zdiv_mono1 [OF _ pos] S N(1) by (metis of_nat_le_iff)
  then have NS: "take (N - S) (drop S hs) ! j = hs ! (S + j)" "length (take (N - S) (drop S hs)) = N - S" if "j < N - S" for j
    using that N(2) by simp_all
  let ?z = "map (\<lambda>_. replicate S (null_block p)) gids"
  obtain m cols where s: "m \<le> length (take (N - S) (drop S hs))" "hit_scan p gids (take (N - S) (drop S hs)) ?z = Inr cols"
    "cols_len (S + m) gids cols" "\<forall>j < S. col_at j cols = col_at j ?z"
    "\<forall>j < m. hit p gids (take (N - S) (drop S hs) ! j) (col_at (S + j) cols)"
    "m < length (take (N - S) (drop S hs)) \<longrightarrow> \<not> cached p gids (take (N - S) (drop S hs) ! m)"
    using hit_scan_ok [OF c g cols_len_const [of S gids "null_block p"], of "take (N - S) (drop S hs)"] by (elim exE conjE)
  have m: "m \<le> N - S" "\<And>j. j < m \<Longrightarrow> hit p gids (hs ! (S + j)) (col_at (S + j) cols)" "m < N - S \<Longrightarrow> \<not> cached p gids (hs ! (S + m))"
    using s(1,5,6) NS N(2) by auto
  have sk: "get_num_skipped_tokens spec (int L * bs) div bs = int S" if "S \<le> L" "L \<le> N" for L
    using chunk_skipped [OF pos spec(2), of max_length "int L"] spec bs' that S N(1) int_le_div_iff [OF pos, of "int L" max_length] by simp
  have "chunked_find_longest_cache_hit hs max_length gids p spec d al dcp pcp = Inr cols"
  proof -
    have d: "nat (int N - int S) = N - S" by arith
    have "chunk_loop p gids hs [int S..int N - 1] ?z = Inr cols"
      using chunk_loop_eq_scan [of "int S" "int N" hs p gids ?z] N(2) s(2) by (simp add: d)
    moreover have "(if 0 < max_length then max_length div chunk * chunk else 0) div bs = int S" using S m0 by auto
    ultimately show ?thesis using spec(1) bs' al x N(1) by (simp add: chunked_find_longest_cache_hit_def Let_def)
  qed
  moreover have "hit_blocks (get_num_skipped_tokens spec) bs p gids hs (S + m) cols"
    unfolding hit_blocks_def
  proof (intro conjI allI impI)
    fix j assume j: "j < S + m"
    show "hit p gids (hs ! j) (col_at j cols) \<or>
      int j < get_num_skipped_tokens spec (int (S + m) * bs) div bs \<and> (\<forall>c \<in> set cols. c ! j = null_block p)"
    proof (cases "j < S")
      case True
      then have "col_at j cols = replicate (length cols) (null_block p)"
        using s(3,4) by (simp add: col_at_def cols_len_def map_replicate_const)
      then show ?thesis using True sk [of "S + m"] m(1) \<open>S \<le> N\<close> by (simp add: null_col)
    next
      case False
      then show ?thesis using m(2) [of "j - S"] j by simp
    qed
  qed (rule s(3))
  then have "sound_hit (get_num_skipped_tokens spec) bs p gids hs max_length al (S + m) cols"
    using m(1) \<open>S \<le> N\<close> N(1) al pos by (intro sound_hitI) auto
  moreover have "longest (get_num_skipped_tokens spec) bs p gids hs max_length al (S + m)"
  proof (rule longestI [OF pos])
    fix L assume L: "S + m < L" "int L \<le> max_length div bs"
    then have "L \<le> N" "\<not> cached p gids (hs ! (S + m))" using N(1) m(3) by simp_all
    then show "\<not> usable (get_num_skipped_tokens spec) bs p gids hs L"
      using sk [of L] L(1) by (auto simp: usable_def intro!: exI [of _ "S + m"])
  qed
  ultimately show ?thesis by blast
qed

definition mamba_supported :: "kv_spec \<Rightarrow> bool \<Rightarrow> int \<Rightarrow> int \<Rightarrow> int \<Rightarrow> bool" where
  "mamba_supported spec d al dcp pcp \<longleftrightarrow> is_MambaSpec spec \<and> dcp = 1 \<and> pcp = 1 \<and> 0 < spec_block_size spec \<and> 0 < al"

lemma mamba_loop_ok:
  assumes c: "cache_inv p" and g: "gids_ok gids" and "N \<le> length hs"
  shows "\<exists>L \<le> N. \<exists>cols. mamba_loop p gids hs bs al N = Inr cols \<and> cols_len L gids cols \<and> int L * bs mod al = 0 \<and>
    (0 < L \<longrightarrow> hit p gids (hs ! (L - 1)) (col_at (L - 1) cols)) \<and>
    (\<forall>j. Suc j < L \<longrightarrow> col_at j cols = replicate (length gids) (null_block p)) \<and>
    (\<forall>L'. L < L' \<and> L' \<le> N \<and> int L' * bs mod al = 0 \<longrightarrow> \<not> cached p gids (hs ! (L' - 1)))"
  using assms(3)
proof (induction N)
  case 0
  then show ?case by (auto simp: cols_len_def)
next
  case (Suc i)
  have x: "py_index hs (int i) = Inr (hs ! i)" using Suc.prems by simp
  have IH: ?case if miss: "int (Suc i) * bs mod al = 0 \<longrightarrow> \<not> cached p gids (hs ! i)"
    and e: "mamba_loop p gids hs bs al (Suc i) = mamba_loop p gids hs bs al i"
  proof -
    have "i \<le> length hs" using Suc.prems by simp
    from Suc.IH [OF this] obtain L cols where L: "L \<le> i" "mamba_loop p gids hs bs al i = Inr cols" "cols_len L gids cols" "int L * bs mod al = 0"
      "0 < L \<longrightarrow> hit p gids (hs ! (L - 1)) (col_at (L - 1) cols)" "\<forall>j. Suc j < L \<longrightarrow> col_at j cols = replicate (length gids) (null_block p)"
      "\<forall>L'. L < L' \<and> L' \<le> i \<and> int L' * bs mod al = 0 \<longrightarrow> \<not> cached p gids (hs ! (L' - 1))" by (elim exE conjE)
    have "\<not> cached p gids (hs ! (L' - 1))" if "L < L'" "L' \<le> Suc i" "int L' * bs mod al = 0" for L'
      using that L(7) miss by (cases "L' = Suc i") auto
    then show ?thesis unfolding e using L by (intro exI [of _ L] exI [of _ cols] conjI) auto
  qed
  show ?case
  proof (cases rule: cached_lookup_ok [OF c g, of "hs ! i"])
    case 1
    then show ?thesis using x by (intro IH) simp_all
  next
    case (2 bl)
    show ?thesis
    proof (cases "bs \<noteq> al \<and> (int i + 1) * bs mod al \<noteq> 0")
      case True
      then show ?thesis using x 2(2) by (intro IH) (simp_all add: add.commute)
    next
      case False
      let ?cols = "map2 (\<lambda>_ b. replicate i (null_block p) @ [b]) gids bl"
      have l: "length bl = length gids" using 2(1) by (simp add: hit_def)
      have "cols_len (Suc i) gids ?cols" "col_at i ?cols = bl" "\<forall>j. j < i \<longrightarrow> col_at j ?cols = replicate (length gids) (null_block p)"
        using l by (auto simp: cols_len_def col_at_def set_zip nth_append intro!: nth_equalityI)
      moreover have "int (Suc i) * bs mod al = 0" using False by (auto simp: add.commute)
      ultimately show ?thesis using x 2 False by (intro exI [of _ "Suc i"] exI [of _ ?cols]) auto
    qed
  qed
qed

lemma mamba_finds:
  assumes c: "cache_inv p" and g: "gids_ok gids" and ok: "mamba_supported spec d al dcp pcp"
    and bs: "bs = group_block_size spec dcp pcp" and m0: "0 \<le> max_length" and ml: "max_length div bs \<le> int (length hs)"
  shows "\<exists>L cols. mamba_find_longest_cache_hit hs max_length gids p spec d al dcp pcp = Inr cols \<and>
    sound_hit (get_num_skipped_tokens spec) bs p gids hs max_length al L cols \<and>
    (\<not> d \<longrightarrow> longest (get_num_skipped_tokens spec) bs p gids hs max_length al L)"
proof -
  define N where "N = nat (max_length div bs)"
  obtain ms where spec: "spec = MambaSpec ms" using ok by (cases spec) (simp_all add: mamba_supported_def)
  have pos: "0 < bs" and bs': "spec_block_size spec = bs" and cp: "dcp = 1" "pcp = 1"
    using ok bs by (simp_all add: mamba_supported_def group_block_size_def)
  have N: "int N = max_length div bs" "N \<le> length hs" using m0 ml pos by (simp_all add: N_def pos_imp_zdiv_nonneg_iff nat_le_iff)
  obtain L cols where L: "L \<le> N" "mamba_loop p gids hs bs al N = Inr cols" "cols_len L gids cols" "int L * bs mod al = 0"
      "0 < L \<longrightarrow> hit p gids (hs ! (L - 1)) (col_at (L - 1) cols)" "\<forall>j. Suc j < L \<longrightarrow> col_at j cols = replicate (length gids) (null_block p)"
      "\<forall>L'. L < L' \<and> L' \<le> N \<and> int L' * bs mod al = 0 \<longrightarrow> \<not> cached p gids (hs ! (L' - 1))"
    using mamba_loop_ok [OF c g N(2), of bs al] by (elim exE conjE)
  have sk: "get_num_skipped_tokens spec (int L * bs) div bs = int L - 1" for L
  proof -
    have "(int L * bs - 1) div bs = (bs - 1 + (int L - 1) * bs) div bs" by (simp add: algebra_simps)
    also have "\<dots> = int L - 1 + (bs - 1) div bs" using pos by (intro div_mult_self1) simp
    finally show ?thesis using pos by (simp add: spec)
  qed
  have "mamba_find_longest_cache_hit hs max_length gids p spec d al dcp pcp = Inr cols"
    using L(2) spec bs' cp by (simp add: mamba_find_longest_cache_hit_def N_def)
  moreover have "hit_blocks (get_num_skipped_tokens spec) bs p gids hs L cols"
    unfolding hit_blocks_def
  proof (intro conjI allI impI)
    fix j assume j: "j < L"
    show "hit p gids (hs ! j) (col_at j cols) \<or>
      int j < get_num_skipped_tokens spec (int L * bs) div bs \<and> (\<forall>c \<in> set cols. c ! j = null_block p)"
    proof (cases "Suc j < L")
      case True
      then show ?thesis using L(3,6) sk [of L] by (simp add: null_col cols_len_def)
    next
      case False
      then have "j = L - 1" using j by simp
      then show ?thesis using L(5) j by simp
    qed
  qed (rule L(3))
  then have "sound_hit (get_num_skipped_tokens spec) bs p gids hs max_length al L cols"
    using L(1,4) N(1) pos by (intro sound_hitI) auto
  moreover have "longest (get_num_skipped_tokens spec) bs p gids hs max_length al L"
  proof (rule longestI [OF pos])
    fix L' assume L': "L < L'" "int L' \<le> max_length div bs" "int L' * bs mod al = 0"
    then have "\<not> cached p gids (hs ! (L' - 1))" using L(7) N(1) by simp
    then show "\<not> usable (get_num_skipped_tokens spec) bs p gids hs L'"
      using sk [of L'] L'(1) by (auto simp: usable_def of_nat_diff intro!: exI [of _ "L' - 1"])
  qed
  ultimately show ?thesis by blast
qed

definition finder_supported :: "manager_class \<Rightarrow> kv_spec \<Rightarrow> bool \<Rightarrow> int \<Rightarrow> int \<Rightarrow> int \<Rightarrow> bool" where
  "finder_supported cls = (case cls of
     SlidingWindowManager \<Rightarrow> swa_supported
   | ChunkedLocalAttentionManager \<Rightarrow> chunked_supported
   | MambaManager \<Rightarrow> mamba_supported
   | CrossAttentionManager \<Rightarrow> (\<lambda>spec d al dcp pcp. False)
   | _ \<Rightarrow> full_supported)"

lemmas supported_defs = full_supported_def swa_supported_def chunked_supported_def mamba_supported_def

interpretation full_hits: hit_finder full_find_longest_cache_hit full_supported
  by (unfold_locales, simp_all only: full_finds) (simp_all add: supported_defs)

interpretation swa_hits: hit_finder swa_find_longest_cache_hit swa_supported
  by (unfold_locales, simp_all only: swa_finds) (simp_all add: supported_defs group_block_size_def)

interpretation chunked_hits: hit_finder chunked_find_longest_cache_hit chunked_supported
  by (unfold_locales, simp_all only: chunked_finds) (simp_all add: supported_defs group_block_size_def)

interpretation mamba_hits: hit_finder mamba_find_longest_cache_hit mamba_supported
  by (unfold_locales, simp_all only: mamba_finds) (simp_all add: supported_defs group_block_size_def)

interpretation manager_hits: hit_finder "find_longest_cache_hit cls" "finder_supported cls" for cls
proof unfold_locales
  fix spec d al dcp pcp
  assume s: "finder_supported cls spec d al dcp pcp"
  show "0 < group_block_size spec dcp pcp"
    using s by (cases cls) (simp_all add: finder_supported_def full_hits.bs_pos swa_hits.bs_pos chunked_hits.bs_pos mamba_hits.bs_pos)
  show "finder_supported cls spec False al dcp pcp"
    using s by (cases cls) (simp_all add: finder_supported_def full_hits.no_drop swa_hits.no_drop chunked_hits.no_drop mamba_hits.no_drop)
next
  fix p gids spec d al dcp pcp bs max_length hs
  assume "cache_inv p" "gids_ok gids" "finder_supported cls spec d al dcp pcp" "bs = group_block_size spec dcp pcp"
    "0 \<le> max_length" "max_length div bs \<le> int (length (hs :: bytes list))"
  then show "\<exists>L cols. find_longest_cache_hit cls hs max_length gids p spec d al dcp pcp = Inr cols \<and>
      sound_hit (get_num_skipped_tokens spec) bs p gids hs max_length al L cols \<and>
      (\<not> d \<longrightarrow> longest (get_num_skipped_tokens spec) bs p gids hs max_length al L)"
    by (cases cls) (simp_all add: finder_supported_def find_longest_cache_hit_def full_finds swa_finds chunked_finds mamba_finds)
qed

section \<open>What a hit holds\<close>

text \<open>The block was registered, since it was last allocated, as the end of the first \<open>n\<close>
  tokens of some request of the group, and these are the first \<open>n\<close> tokens of \<open>r\<close>, with
  the same extra keys.\<close>

definition holds_prefix :: "(bytes \<Rightarrow> bytes) \<Rightarrow> int \<Rightarrow> registry \<Rightarrow> request \<Rightarrow> int \<Rightarrow> int \<Rightarrow> kv_ref \<Rightarrow> bool" where
  "holds_prefix sha256 hbs reg r n gid b \<longleftrightarrow> (\<exists>r'. (r', n, gid) \<in> reg b \<and>
    take (nat n) (all_token_ids r') = take (nat n) (all_token_ids r) \<and>
    (\<forall>k. (int k + 1) * hbs \<le> n \<longrightarrow>
      extra_keys sha256 r' (int k * hbs) (int k * hbs + hbs) = extra_keys sha256 r (int k * hbs) (int k * hbs + hbs)))"

lemma hit_holds_prefix:
  assumes "collision_free hf nh" "hash_block_size p = hbs" "enable_caching p"
    and reach: "pool_reach sha256 (hashes_ok hbs hf nh sha256) (p, held, reg)" and ok: "hashes_ok hbs hf nh sha256 r"
    and hs: "hashes_at p r bs = Inr hs" "j < length hs" "0 < bs" and h: "hit p gids (hs ! j) bl" and k: "k < length gids"
  shows "holds_prefix sha256 hbs reg r ((int j + 1) * bs) (gids ! k) (bl ! k)"
proof -
  have hbs: "0 < hbs" using reachD [OF reach] assms(2) by (metis registered_def)
  define n where "n = (int j + 1) * bs"
  define i where "i = nat (n div hbs - 1)"
  have n: "n mod hbs = 0" "0 < n div hbs" "n div hbs \<le> int (length (rq_block_hashes r))" "hs ! j = rq_block_hashes r ! i"
    using hashes_at_nth [OF hs] hbs assms(2) by (simp_all add: n_def i_def)
  have i: "(int i + 1) * hbs = n" using n(1,2) div_mult_mod_eq [of n hbs] by (simp add: i_def)
  then have i': "Suc i * nat hbs = nat n" using hbs
    by (metis nat_int_add nat_mult_distrib of_nat_0_le_iff of_nat_1 of_nat_Suc nat_int plus_1_eq_Suc add.commute)
  have il: "i < length (rq_block_hashes r)" using n(2,3) by (simp add: i_def nat_less_iff)
  obtain key where key: "make_block_hash_with_group_id (rq_block_hashes r ! i) (gids ! k) = Inr key"
    "in_pool p (bl ! k)" "key \<in> set (keys_of p (bl ! k))" using h k n(4) by (auto simp: hit_def)
  obtain r' where r': "(r', n, gids ! k) \<in> reg (bl ! k)" "take (nat n) (all_token_ids r') = take (nat n) (all_token_ids r)"
    "\<forall>k \<le> i. extra_keys sha256 r' (int k * hbs) (int k * hbs + hbs) = extra_keys sha256 r (int k * hbs) (int k * hbs + hbs)"
    using key_sound [OF assms(1-3) reach ok il key] unfolding i i' by (elim exE conjE)
  have "k \<le> i" if "(int k + 1) * hbs \<le> n" for k using that hbs by (simp flip: i)
  then show ?thesis using r' by (auto simp: holds_prefix_def n_def)
qed

section \<open>Properties\<close>

text \<open>C27. Looking up the longest prefix-cache hit is correct where the manager supports the configuration
  (\<open>finder_supported\<close>): full attention and its variants with a positive block size; sliding windows of at least
  two tokens and Mamba, without context parallelism; chunked local attention without context
  parallelism and without the EAGLE drop, when the chunk is a whole number of blocks and the alignment is the block size.  Cross attention, which
  raises, is excluded.  There the call returns one list per group, all of the same length \<open>L\<close>, not longer than the limit and
  aligned; each block is either cached in all groups, or it is the null block and its
  tokens are skipped by the attention type; and, when no block is dropped for EAGLE, no
  longer aligned prefix has all the blocks it needs in the cache.\<close>

theorem longest_cache_hit_found:
  assumes "pool_reach sha256 okr (p, held, reg)" "gids_ok gids" "finder_supported cls spec d al dcp pcp"
    and "0 \<le> max_length" "max_length div group_block_size spec dcp pcp \<le> int (length hs)"
  defines "bs \<equiv> group_block_size spec dcp pcp" and "skipped \<equiv> \<lambda>n. get_num_skipped_tokens spec n div group_block_size spec dcp pcp"
  shows "\<exists>L cols. find_longest_cache_hit cls hs max_length gids p spec d al dcp pcp = Inr cols \<and>
    cols_len L gids cols \<and>
    (\<forall>j < L. hit p gids (hs ! j) (col_at j cols) \<or>
       int j < skipped (int L * bs) \<and> (\<forall>c \<in> set cols. c ! j = null_block p)) \<and>
    int L * bs \<le> max_length \<and> int L * bs mod al = 0 \<and>
    (\<not> d \<longrightarrow> (\<forall>L'. int L' * bs \<le> max_length \<and> int L' * bs mod al = 0 \<and>
       (\<forall>j < L'. skipped (int L' * bs) \<le> int j \<longrightarrow> cached p gids (hs ! j)) \<longrightarrow> L' \<le> L))"
proof -
  have "cache_inv p" using reachD [OF assms(1)] by metis
  from manager_hits.finds [OF this assms(2,3) refl assms(4,5)] show ?thesis
    by (simp add: sound_hit_def hit_blocks_def longest_def usable_def bs_def skipped_def)
qed

lemma ex_cached: "cached ex_pool3 [0] (rq_block_hashes (ex_hashed [5, 6, 7, 8]) ! 0)"
proof -
  have k: "list_all (known ex_pool2) [Blk 1, Blk 2]" using ex_in_pool by (simp add: known_def)
  have d: "distinct (filter (in_pool ex_pool2) [Blk 1, Blk 2])" by simp
  note C = cache_full_blocks_ok [OF ex_pool2_inv(2,3) k d _ _ ex_pool3_ok(1), simplified]
  have r: "registers ex_pool2 None 0 (Blk 1)" using ex_in_pool by (simp add: registers_def masked_out_def)
  obtain key where "make_block_hash_with_group_id (rq_block_hashes (ex_hashed [5, 6, 7, 8]) ! 0) 0 = Inr key"
    "keys_of ex_pool3 (Blk 1) = [key]" using C(3) [of 0] r ex_pool3_ok(2) by auto
  moreover have "in_pool ex_pool3 (Blk 1)" using ex_in_pool(1) in_pool_config [OF same_allocD [OF C(1)]] by simp
  ultimately show ?thesis unfolding cached_def hit_def by (intro exI [of _ "[Blk 1]"]) simp
qed


definition ex_window :: "int \<Rightarrow> int \<Rightarrow> kv_spec" where
  "ex_window bs w = SlidingWindowSpec (ex_attn bs QM_NONE) w 128"

lemma ex_window_simps [simp]:
  "spec_block_size (ex_window bs w) = bs" "spec_sliding_window (ex_window bs w) = Some w"
  "get_num_skipped_tokens (ex_window bs w) n = max 0 (n - w + 1)" "group_block_size (ex_window bs w) 1 1 = bs"
  by (simp_all add: ex_window_def ex_attn_def group_block_size_def)

theorem longest_cache_hit_found_witness:
  "\<exists>L cols. find_longest_cache_hit SlidingWindowManager [[1], rq_block_hashes (ex_hashed [5, 6, 7, 8]) ! 0] 4 [0] ex_pool3
      (ex_window 2 3) False 2 1 1 = Inr cols \<and> cols_len L [0] cols \<and> 2 \<le> L"
proof -
  let ?hs = "[[1], rq_block_hashes (ex_hashed [5, 6, 7, 8]) ! 0]"
  have "finder_supported SlidingWindowManager (ex_window 2 3) False 2 1 1" by (simp add: finder_supported_def supported_defs)
  note T = longest_cache_hit_found [OF ex_pool3_ok(3) _ this, of "[0]" 4 ?hs, simplified]
  have u: "\<forall>j < 2. max 0 (int 2 * 2 - 2) div 2 \<le> int j \<longrightarrow> cached ex_pool3 [0] (?hs ! j)"
    using ex_cached by (auto simp: less_2_cases_iff)
  show ?thesis using T u ex_cached by (auto simp: gids_ok_def dest!: spec [of _ "2 :: nat"])
qed

text \<open>C26. A cache hit never serves foreign data: when the hash function has no collisions
  and all requests carry the hashes of their full blocks, every block of the result that
  the attention type needs was registered, since it was last allocated to anyone, as the
  block that ends the prefix of \<open>(j + 1) * block_size\<close> tokens of a request of that group
  with the same tokens and the same extra keys up to there.  This holds for block sizes that are multiples of the hash
  block size, and for the configurations of \<open>finder_supported\<close>: full attention and its variants, sliding windows of at least two tokens and
  Mamba without context parallelism, each with and without the EAGLE drop, and chunked local attention
  without context parallelism and EAGLE whose chunk is a whole number of blocks; it does not cover cross
  attention, whose lookup raises.\<close>

theorem cache_hit_sound:
  assumes "collision_free hf nh" "hash_block_size p = hbs" "enable_caching p"
    and "pool_reach sha256 (hashes_ok hbs hf nh sha256) (p, held, reg)" "hashes_ok hbs hf nh sha256 r"
    and "gids_ok gids" "finder_supported cls spec d al dcp pcp"
    and "hashes_at p r (group_block_size spec dcp pcp) = Inr hs"
    and "0 \<le> max_length" "max_length div group_block_size spec dcp pcp \<le> int (length hs)"
    and "find_longest_cache_hit cls hs max_length gids p spec d al dcp pcp = Inr cols" "k < length gids"
  defines "bs \<equiv> group_block_size spec dcp pcp"
  shows "length cols = length gids \<and> int (length (cols ! k)) * bs \<le> max_length \<and>
    (\<forall>j < length (cols ! k). get_num_skipped_tokens spec (int (length (cols ! k)) * bs) div bs \<le> int j \<longrightarrow>
      in_pool p (cols ! k ! j) \<and> holds_prefix sha256 hbs reg r ((int j + 1) * bs) (gids ! k) (cols ! k ! j))"
proof -
  have "cache_inv p" using reachD [OF assms(4)] by metis
  from manager_hits.finds [OF this assms(6,7) refl assms(9,10)] obtain L where
    s: "sound_hit (get_num_skipped_tokens spec) bs p gids hs max_length al L cols" using assms(11) by (auto simp: bs_def)
  have pos: "0 < bs" using manager_hits.bs_pos [OF assms(7)] by (simp add: bs_def)
  have c: "length cols = length gids" "length (cols ! k) = L" using s assms(12) by (auto simp: sound_hit_def hit_blocks_def cols_len_def)
  have "int L \<le> int (length hs)" using s int_le_div_iff [OF pos, of "int L" max_length] assms(10) by (simp add: sound_hit_def bs_def)
  then have "hit p gids (hs ! j) (col_at j cols) \<and> j < length hs"
    if "j < L" "get_num_skipped_tokens spec (int L * bs) div bs \<le> int j" for j
    using s that unfolding sound_hit_def hit_blocks_def by force
  moreover have "col_at j cols ! k = cols ! k ! j" for j using c assms(12) by (simp add: col_at_def)
  ultimately have "in_pool p (cols ! k ! j) \<and> holds_prefix sha256 hbs reg r ((int j + 1) * bs) (gids ! k) (cols ! k ! j)"
    if "j < L" "get_num_skipped_tokens spec (int L * bs) div bs \<le> int j" for j
    using hit_holds_prefix [OF assms(1-5) assms(8) [folded bs_def] _ pos _ assms(12), of j "col_at j cols"] that assms(12)
    unfolding hit_def by metis
  then show ?thesis using c s by (auto simp: sound_hit_def)
qed

theorem cache_hit_sound_witness:
  "\<exists>b. find_longest_cache_hit FullAttentionManager (rq_block_hashes (ex_hashed [5, 6, 9])) 2 [0] ex_pool3
      (FullAttentionSpec (ex_full 2 128)) False 2 1 1 = Inr [[b]] \<and>
    holds_prefix id 2 ex_reg3 (ex_hashed [5, 6, 9]) 2 0 b"
proof -
  let ?spec = "FullAttentionSpec (ex_full 2 128)" and ?hs = "rq_block_hashes (ex_hashed [5, 6, 9])"
  have ok: "finder_supported FullAttentionManager ?spec False 2 1 1" and g: "group_block_size ?spec 1 1 = 2"
    by (simp_all add: finder_supported_def supported_defs group_block_size_def ex_full_def)
  have h: "?hs = [rq_block_hashes (ex_hashed [5, 6, 7, 8]) ! 0]"
    by (simp add: ex_hashed_def ex_request_def extra_keys_def gen_lora_extra_hash_keys_def mm_block_keys_def
        salt_keys_def embeds_keys_def py_slice_def slice_bound_def)
  have at: "hashes_at ex_pool3 (ex_hashed [5, 6, 9]) (group_block_size ?spec 1 1) = Inr ?hs"
    using ex_pool3_ok(4) by (simp add: hashes_at_def g)
  have gid: "gids_ok [0]" by (simp add: gids_ok_def)
  have c: "cache_inv ex_pool3" using reachD [OF ex_pool3_ok(3)] by metis
  obtain L cols where f: "find_longest_cache_hit FullAttentionManager ?hs 2 [0] ex_pool3 ?spec False 2 1 1 = Inr cols"
    "sound_hit (get_num_skipped_tokens ?spec) 2 ex_pool3 [0] ?hs 2 2 L cols"
    "longest (get_num_skipped_tokens ?spec) 2 ex_pool3 [0] ?hs 2 2 L"
    using manager_hits.finds [OF c gid ok g [symmetric], of 2 ?hs] h by auto
  have "usable (get_num_skipped_tokens ?spec) 2 ex_pool3 [0] ?hs 1" using ex_cached by (simp add: usable_def h)
  then have "1 \<le> L" using f(3) by (simp add: longest_def)
  moreover have "L \<le> 1" using f(2) by (simp add: sound_hit_def)
  ultimately have "cols_len 1 [0] cols" using f(2) by (simp add: sound_hit_def hit_blocks_def)
  then obtain b where b: "cols = [[b]]" by (auto simp: cols_len_def length_Suc_conv)
  then show ?thesis
    using cache_hit_sound [OF ex_hash_collision_free ex_pool3_ok(4,5,3) ex_hashed_ok gid ok at _ _ f(1), of 0] f(1) h
    by (simp add: g)
qed

lemma chunk_start_inside:
  fixes chunk :: int
  assumes "0 < bs" "bs \<le> chunk" "0 < m" "m div chunk * chunk mod bs \<noteq> 0" "L = m div chunk * chunk div bs"
  shows "0 < L" "L * bs div chunk * chunk div bs < L"
proof -
  let ?s = "m div chunk * chunk"
  have Ls: "L * bs = ?s - ?s mod bs" using assms(5) by (simp add: minus_mod_eq_div_mult)
  have r: "0 < ?s mod bs" "?s mod bs < bs" using assms(1,4) pos_mod_sign [of bs ?s] pos_mod_bound [of bs ?s] by linarith+
  have "0 \<le> m div chunk" using assms(1-3) by (simp add: pos_imp_zdiv_nonneg_iff)
  moreover have "m div chunk \<noteq> 0" using assms(4) by auto
  ultimately have q: "1 \<le> m div chunk" by linarith
  then have "chunk \<le> ?s" using assms(1,2) mult_right_mono [of 1 "m div chunk" chunk] by simp
  then have "0 < L * bs" using Ls r(2) assms(2) by linarith
  then show "0 < L" using assms(1) by (simp add: zero_less_mult_iff)
  have "(m div chunk - 1) * chunk < L * bs" using Ls r(2) assms(2) by (simp add: algebra_simps)
  moreover have "L * bs < ?s" using Ls r(1) by simp
  ultimately have "L * bs div chunk = m div chunk - 1" using assms(1,2)
    by (intro int_div_pos_eq [where r = "L * bs - (m div chunk - 1) * chunk"]) (simp_all add: algebra_simps)
  then have "L * bs div chunk * chunk < L * bs" using \<open>(m div chunk - 1) * chunk < L * bs\<close> by simp
  then show "L * bs div chunk * chunk div bs < L" using int_le_div_iff [OF assms(1), of L "L * bs div chunk * chunk"] by linarith
qed

text \<open>C39. Chunked local attention whose chunks are not whole numbers of blocks: for every pool, when the chunk of
  \<^verbatim>\<open>max_length\<close> begins inside a block, a block is not larger than a chunk, and the block in which the chunk
  begins is not cached or not full at \<^verbatim>\<open>max_length\<close>, the lookup reports all blocks before it as computed, with
  null blocks only; but at the length reported the next token is in the chunk before, and its attention reads tokens of a block
  for which only the null block was returned.\<close>

theorem chunked_unaligned_hit:
  assumes "pool_reach sha256 okr (p, held, reg)" "gids_ok gids" "0 < as_block_size a" "as_block_size a \<le> chunk" "0 < max_length"
    and L_def: "L = max_length div chunk * chunk div as_block_size a"
    and "max_length div as_block_size a \<le> int (length hs)" "max_length div chunk * chunk mod as_block_size a \<noteq> 0"
    and "L < max_length div as_block_size a \<longrightarrow> \<not> cached p gids (hs ! nat L)"
  shows "find_longest_cache_hit ChunkedLocalAttentionManager hs max_length gids p (ChunkedLocalAttentionSpec a chunk) False (as_block_size a) 1 1 =
      Inr (map (\<lambda>_. replicate (nat L) (null_block p)) gids) \<and> 0 < L \<and>
    get_num_skipped_tokens (ChunkedLocalAttentionSpec a chunk) (L * as_block_size a) div as_block_size a < L"
proof -
  have c: "cache_inv p" using reachD [OF assms(1)] by metis
  let ?z = "map (\<lambda>_. replicate (nat L) (null_block p)) gids"
  have L: "0 < L" "L * as_block_size a div chunk * chunk div as_block_size a < L"
    using chunk_start_inside [OF assms(3,4,5,8) L_def] by blast+
  have "chunk_loop p gids hs [L..max_length div as_block_size a - 1] ?z = Inr ?z"
  proof (cases "L < max_length div as_block_size a")
    case True
    then have "cached_lookup p gids (hs ! nat L) = Inr None"
      using assms(9) by (cases rule: cached_lookup_ok [OF c assms(2), of "hs ! nat L"]) (auto simp: cached_def)
    moreover have "py_index hs L = Inr (hs ! nat L)" using L(1) True assms(7) by (simp add: py_index_def)
    ultimately show ?thesis using True by (subst upto_rec1) simp_all
  qed simp
  then show ?thesis using L assms(5)
    by (simp add: find_longest_cache_hit_def chunked_find_longest_cache_hit_def py_assert_def Let_def L_def [symmetric])
qed

theorem chunked_unaligned_hit_witness:
  "find_longest_cache_hit ChunkedLocalAttentionManager [[8], [9]] 4 [0] ex_pool2 (ChunkedLocalAttentionSpec (ex_attn 2 QM_NONE) 3) False 2 1 1 =
      Inr [[null_block ex_pool2]] \<and>
    get_num_skipped_tokens (ChunkedLocalAttentionSpec (ex_attn 2 QM_NONE) 3) 2 div 2 < 1"
proof -
  have "\<not> cached ex_pool2 [0] h" for h using ex_pool2_inv(4) by (simp add: cached_def hit_def)
  then show ?thesis using chunked_unaligned_hit [OF ex_pool2_ok(2), of "[0]" "ex_attn 2 QM_NONE" 3 4 1 "[[8], [9]]"]
    by (simp add: gids_ok_def ex_attn_def)
qed

lemma align_pop_small:
  assumes "cols_len n gids cols" "gids_ok gids" "m \<le> n" "n < m + 2" "even m"
  shows "align_pop 2 4 cols = Inr (map (take m) cols)"
proof -
  obtain k where k: "k \<le> n" "align_pop 2 4 cols = Inr (map (take k) cols)" "int k * 2 mod 4 = 0"
    "\<forall>m' \<le> n. int m' * 2 mod 4 = 0 \<longrightarrow> m' \<le> k"
    using align_pop_ok [OF assms(1,2), of 2 4] by (elim exE conjE)
  have "int m * 2 mod 4 = 0" using assms(5) by (auto elim!: evenE)
  then have "m \<le> k" using k(4) assms(3) by simp
  moreover have "even k" using k(3) by presburger
  ultimately have "k = m" using k(1) assms(4,5) by presburger
  then show ?thesis using k(2) by simp
qed

text \<open>C40. With EAGLE and an alignment coarser than the block size, the sliding window search
  can lose a hit: when three blocks are cached and fit in the window, full attention
  reports the first two of them, and the sliding window manager none.\<close>

theorem swa_eagle_drops_twice:
  assumes "pool_reach sha256 okr (p, held, reg)" "gids_ok gids" "\<forall>j < 3. cached p gids (hs ! j)" "length hs = 3"
  shows "swa_find_longest_cache_hit hs 6 gids p (ex_window 2 100) True 4 1 1 = Inr (map (\<lambda>_. []) gids) \<and>
    (\<exists>cols. full_find_longest_cache_hit hs 6 gids p (FullAttentionSpec (ex_full 2 128)) True 4 1 1 = Inr cols \<and> cols_len 2 gids cols)"
proof -
  have c: "cache_inv p" using reachD [OF assms(1)] by metis
  let ?z = "map (\<lambda>_. replicate 3 (null_block p)) gids" and ?e = "map (\<lambda>_. []) gids"
  have look: "\<exists>bl. cached_lookup p gids (hs ! j) = Inr (Some bl) \<and> length bl = length gids" if "j < 3" for j
    using assms(3) that by (cases rule: cached_lookup_ok [OF c assms(2), of "hs ! j"]) (auto simp: hit_def)
  obtain b0 b1 b2 where b: "cached_lookup p gids (hs ! 0) = Inr (Some b0)" "length b0 = length gids"
    "cached_lookup p gids (hs ! 1) = Inr (Some b1)" "length b1 = length gids"
    "cached_lookup p gids (hs ! 2) = Inr (Some b2)" "length b2 = length gids"
    using look [of 0] look [of 1] look [of 2] by auto
  have need: "contiguous_blocks_for_hit 100 2 True = 51" by (simp add: contiguous_blocks_for_hit_def cdiv_def)
  let ?u = "\<lambda>i cols bl. map2 (\<lambda>c b. c[i := b]) cols bl"
  have idx: "py_index hs 2 = Inr (hs ! 2)" "py_index hs 1 = Inr (hs ! 1)" "py_index hs 0 = Inr (hs ! 0)"
    using assms(4) by (simp_all add: py_index_def)
  have "swa_loop p gids hs 2 4 True 51 3 0 ?z = Inr (False, 3, ?u 0 (?u 1 (?u 2 ?z b2) b1) b0)"
    using b(1,3,5) idx by (simp add: numeral_3_eq_3 numeral_2_eq_2 Let_def)
  moreover have "cols_len 3 gids (?u 0 (?u 1 (?u 2 ?z b2) b1) b0)" by (intro cols_len_update cols_len_const b)
  ultimately obtain S where S: "swa_loop p gids hs 2 4 True 51 3 0 ?z = Inr (False, 3, S)" "cols_len 3 gids S" by blast
  have t3: "map (take 3) S = S" and t0: "map (\<lambda>_. []) S = ?e" using S(2) by (auto simp: cols_len_def map_replicate_const intro!: map_idI)
  have l: "cols_len 1 gids (map (take 1) S)" "cols_len 2 gids (map (take 2) S)" using S(2) by (auto intro: cols_len_take)
  have "align_pop 2 4 (map (take 1) S) = Inr (map (take 0) (map (take 1) S))" "align_pop 2 4 S = Inr (map (take 2) S)"
    by (rule align_pop_small [OF l(1) assms(2)] align_pop_small [OF S(2) assms(2)]; simp)+
  moreover from this have "drop_last True (map (take 2) S) (align_pop 2 4) = Inr ?e"
    using drop_last_ok [OF l(2) assms(2), of True "align_pop 2 4"] t0 by (simp add: comp_def)
  ultimately have swa: "swa_find_longest_cache_hit hs 6 gids p (ex_window 2 100) True 4 1 1 = Inr ?e"
    using S(1) t3 need skipped_window [of "ex_window 2 100" 100] by (simp add: swa_find_longest_cache_hit_def)
  obtain m cols where h: "m \<le> length hs" "hit_scan p gids hs ?e = Inr cols" "cols_len (0 + m) gids cols"
    "m < length hs \<longrightarrow> \<not> cached p gids (hs ! m)"
    using hit_scan_ok [OF c assms(2), of 0 ?e hs] by (auto simp: cols_len_def)
  have "m = 3" using h(1,4) assms(3,4) by force
  then have c3: "cols_len 3 gids cols" using h(3) by simp
  then have c2: "cols_len 2 gids (map (take 2) cols)" by (rule cols_len_take) simp
  have "align_pop 2 4 (map (take 2) cols) = Inr (map (take 2) cols)" using c2 assms(2) by (rule align_pop_id) simp
  then have "full_find_longest_cache_hit hs 6 gids p (FullAttentionSpec (ex_full 2 128)) True 4 1 1 = Inr (map (take 2) cols)"
    using h(2) assms(4) drop_last_ok [OF c3 assms(2), of True Inr] by (simp add: full_find_longest_cache_hit_def ex_full_def)
  then show ?thesis using swa c2 by blast
qed

theorem swa_eagle_drops_twice_witness:
  "swa_find_longest_cache_hit (replicate 3 (rq_block_hashes (ex_hashed [5, 6, 7, 8]) ! 0)) 6 [0] ex_pool3 (ex_window 2 100) True 4 1 1 = Inr [[]]"
  using swa_eagle_drops_twice [OF ex_pool3_ok(3), of "[0]" "replicate 3 (rq_block_hashes (ex_hashed [5, 6, 7, 8]) ! 0)"] ex_cached
  by (simp add: gids_ok_def)

end
