(* ===== verification/Coordinator.thy ===== *)
theory Coordinator
  imports Manager_Safety Cache_Hits
begin

text \<open>
  \<^verbatim>\<open>vllm/v1/core/kv_cache_coordinator.py\<close>: the managers of all KV cache groups over one
  block pool.  The three coordinator classes are the values of \<open>coordinator_kind\<close>.  The
  environment variable \<^verbatim>\<open>VLLM_PREFIX_CACHE_RETENTION_INTERVAL\<close> is an argument of the
  constructor; Python sets of group indices are lists without duplicates.
\<close>

section \<open>State\<close>

record kv_cache_group =
  group_spec :: kv_spec
  is_eagle_group :: bool

record kv_cache_config =
  num_blocks :: int
  kv_cache_groups :: "kv_cache_group list"

definition has_mamba_layers :: "kv_cache_config \<Rightarrow> bool" where
  "has_mamba_layers c = list_ex (\<lambda>g. is_MambaSpec (group_spec g)) (kv_cache_groups c)"

definition needs_kv_cache_zeroing :: "kv_cache_config \<Rightarrow> bool" where
  "needs_kv_cache_zeroing c = has_mamba_layers c"

definition validate_prefix_cache_retention_interval :: "int option \<Rightarrow> int \<Rightarrow> kv_cache_config \<Rightarrow> unit result" where
  "validate_prefix_cache_retention_interval retention sbs c =
    (case retention of
       None \<Rightarrow> Inr ()
     | Some r \<Rightarrow>
         if \<not> list_ex (\<lambda>g. is_SlidingWindowSpec (group_spec g) \<or> is_MambaSpec (group_spec g)) (kv_cache_groups c) then Inl ValueError
         else if r < 0 \<or> r mod sbs \<noteq> 0 then Inl ValueError
         else Inr ())"

datatype coordinator_kind = NoPrefixCache | Unitary | Hybrid

record spec_group =
  sg_spec :: kv_spec
  sg_group_ids :: "int list"
  sg_manager_cls :: manager_class
  sg_use_eagle :: bool

record coordinator =
  co_kind :: coordinator_kind
  co_config :: kv_cache_config
  co_managers :: "st_manager list"
  co_pool :: block_pool
  co_enable_caching :: bool
  co_scheduler_block_size :: int
  co_hash_block_size :: int
  co_eagle_group_ids :: "int list"
  co_retention_interval :: "int option"
  co_block_size :: int
  co_dcp_world_size :: int
  co_pcp_world_size :: int
  co_attention_groups :: "spec_group list"
  num_uncached_common_prefix_tokens :: int

section \<open>Construction\<close>

text \<open>\<^verbatim>\<open>KVCacheCoordinator.__init__\<close>.\<close>

fun init_managers :: "(int \<Rightarrow> kv_cache_group \<Rightarrow> st_manager result) \<Rightarrow> int \<Rightarrow> kv_cache_group list \<Rightarrow> st_manager list result" where
  "init_managers mk i [] = Inr []"
| "init_managers mk i (g # gs) = rbind (mk i g) (\<lambda>m. rbind (init_managers mk (i + 1) gs) (\<lambda>ms. Inr (m # ms)))"

definition eagle_group_ids :: "kv_cache_config \<Rightarrow> bool \<Rightarrow> int list" where
  "eagle_group_ids c use_eagle =
    (let n = length (kv_cache_groups c);
         ids = filter (\<lambda>i. is_eagle_group (kv_cache_groups c ! nat i)) [0..int n - 1]
     in if use_eagle \<and> ids = [] then [0..int n - 1] else ids)"

definition base_init ::
  "coordinator_kind \<Rightarrow> kv_cache_config \<Rightarrow> int \<Rightarrow> int \<Rightarrow> bool \<Rightarrow> bool \<Rightarrow> bool \<Rightarrow> bool \<Rightarrow> int \<Rightarrow> int \<Rightarrow> int \<Rightarrow> int \<Rightarrow> int option \<Rightarrow>
   coordinator result" where
  "base_init kind c max_model_len max_num_batched_tokens use_eagle caching events use_int dcp pcp sbs hbs retention =
    py_assert (sbs mod hbs = 0 \<and> list_all (\<lambda>g. sbs mod spec_block_size (group_spec g) = 0) (kv_cache_groups c))
     (rbind (pool_init (num_blocks c) caching hbs events use_int) (\<lambda>p.
      rbind (init_managers (\<lambda>i g. get_manager_for_kv_cache_spec (group_spec g) max_num_batched_tokens max_model_len
               (null_block p) caching i sbs dcp pcp (needs_kv_cache_zeroing c)) 0 (kv_cache_groups c)) (\<lambda>ms.
      rbind (validate_prefix_cache_retention_interval retention sbs c) (\<lambda>_.
        Inr \<lparr>co_kind = kind, co_config = c, co_managers = ms, co_pool = p, co_enable_caching = caching,
          co_scheduler_block_size = sbs, co_hash_block_size = hbs, co_eagle_group_ids = eagle_group_ids c use_eagle,
          co_retention_interval = retention, co_block_size = sbs, co_dcp_world_size = dcp, co_pcp_world_size = pcp,
          co_attention_groups = [], num_uncached_common_prefix_tokens = 0\<rparr>))))"

definition unitary_init :: "coordinator \<Rightarrow> coordinator result" where
  "unitary_init co =
    rbind (py_index (kv_cache_groups (co_config co)) 0) (\<lambda>g.
     let bs = spec_block_size (group_spec g);
         bs = (if co_dcp_world_size co > 1 then bs * co_dcp_world_size co else bs);
         bs = (if co_pcp_world_size co > 1 then bs * co_pcp_world_size co else bs) in
     py_assert (\<not> co_enable_caching co \<or> co_hash_block_size co = bs)
      (py_assert (length (kv_cache_groups (co_config co)) = 1)
        (Inr (co\<lparr>co_block_size := bs,
          co_managers := (case co_managers co of [] \<Rightarrow> []
            | m # ms \<Rightarrow> m\<lparr>mg_use_eagle := (0 \<in> set (co_eagle_group_ids co))\<rparr> # ms)\<rparr>))))"

text \<open>\<^verbatim>\<open>verify_and_split_kv_cache_groups\<close>: groups with equal specs are looked up together.\<close>

fun add_to_group :: "kv_spec \<Rightarrow> manager_class \<Rightarrow> int \<Rightarrow> bool \<Rightarrow> spec_group list \<Rightarrow> spec_group list result" where
  "add_to_group spec cls i eagle [] = Inr [\<lparr>sg_spec = spec, sg_group_ids = [i], sg_manager_cls = cls, sg_use_eagle = eagle\<rparr>]"
| "add_to_group spec cls i eagle (g # gs) =
    (if sg_spec g = spec
     then py_assert (cls = sg_manager_cls g)
       (Inr (g\<lparr>sg_group_ids := sg_group_ids g @ [i], sg_use_eagle := (sg_use_eagle g \<or> eagle)\<rparr> # gs))
     else rbind (add_to_group spec cls i eagle gs) (\<lambda>gs. Inr (g # gs)))"

definition split_groups :: "coordinator \<Rightarrow> spec_group list result" where
  "split_groups co =
    rfold (\<lambda>(i, g, m) gs. add_to_group (group_spec g) (mg_class m) i (i \<in> set (co_eagle_group_ids co)) gs)
      (zip (map int [0..<length (kv_cache_groups (co_config co))]) (zip (kv_cache_groups (co_config co)) (co_managers co))) []"

definition hybrid_init :: "coordinator \<Rightarrow> coordinator result" where
  "hybrid_init co =
    py_assert (list_all (\<lambda>g. spec_block_size (group_spec g) mod co_hash_block_size co = 0) (kv_cache_groups (co_config co)))
     (py_assert (co_dcp_world_size co = 1) (py_assert (co_pcp_world_size co = 1)
       (rbind (split_groups co) (\<lambda>gs.
         py_assert (length gs > 1)
          (let gs = filter (\<lambda>g. is_FullAttentionSpec (sg_spec g)) gs @ filter (\<lambda>g. \<not> is_FullAttentionSpec (sg_spec g)) gs;
               eagle = concat (map sg_group_ids (filter sg_use_eagle gs))
           in Inr (co\<lparr>co_attention_groups := gs,
             co_managers := map2 (\<lambda>i m. if i \<in> set eagle then m\<lparr>mg_use_eagle := True\<rparr> else m)
               (map int [0..<length (co_managers co)]) (co_managers co)\<rparr>))))))"

definition get_kv_cache_coordinator ::
  "kv_cache_config \<Rightarrow> int \<Rightarrow> int \<Rightarrow> bool \<Rightarrow> bool \<Rightarrow> bool \<Rightarrow> bool \<Rightarrow> int \<Rightarrow> int \<Rightarrow> int \<Rightarrow> int \<Rightarrow> int option \<Rightarrow> coordinator result" where
  "get_kv_cache_coordinator c max_model_len max_num_batched_tokens use_eagle caching events use_int dcp pcp sbs hbs retention =
    (if \<not> caching
     then base_init NoPrefixCache c max_model_len max_num_batched_tokens use_eagle False events use_int dcp pcp sbs hbs retention
     else if length (kv_cache_groups c) = 1
     then rbind (base_init Unitary c max_model_len max_num_batched_tokens use_eagle caching events use_int dcp pcp sbs hbs retention) unitary_init
     else rbind (base_init Hybrid c max_model_len max_num_batched_tokens use_eagle caching events use_int dcp pcp sbs hbs retention) hybrid_init)"

section \<open>Operations over all managers\<close>

fun each_manager ::
  "(int \<Rightarrow> mstate \<Rightarrow> ('a \<times> mstate) result) \<Rightarrow> int \<Rightarrow> st_manager list \<Rightarrow> block_pool \<Rightarrow> ('a list \<times> st_manager list \<times> block_pool) result" where
  "each_manager f i [] p = Inr ([], [], p)"
| "each_manager f i (m # ms) p =
    rbind (f i (m, p)) (\<lambda>(a, m, p). rbind (each_manager f (i + 1) ms p) (\<lambda>(as, ms, p). Inr (a # as, m # ms, p)))"

definition for_managers :: "(int \<Rightarrow> mstate \<Rightarrow> ('a \<times> mstate) result) \<Rightarrow> coordinator \<Rightarrow> ('a list \<times> coordinator) result" where
  "for_managers f co = rbind (each_manager f 0 (co_managers co) (co_pool co)) (\<lambda>(as, ms, p). Inr (as, co\<lparr>co_managers := ms, co_pool := p\<rparr>))"

definition mg_unit :: "mstate result \<Rightarrow> (unit \<times> mstate) result" where
  "mg_unit r = rbind r (\<lambda>st. Inr ((), st))"

definition co_get_num_blocks_to_allocate ::
  "string \<Rightarrow> int \<Rightarrow> kv_ref list list \<Rightarrow> int \<Rightarrow> int \<Rightarrow> int \<Rightarrow> bool \<Rightarrow> coordinator \<Rightarrow> (int \<times> coordinator) result" where
  "co_get_num_blocks_to_allocate rid ntokens new_computed num_encoder_tokens total_computed num_tokens_main_model apply_cap co =
    rbind (for_managers (\<lambda>i (m, p).
        if mg_class m = CrossAttentionManager
        then rbind (get_num_blocks_to_allocate rid num_encoder_tokens [] 0 num_encoder_tokens apply_cap p m) (\<lambda>(n, m). Inr (n, m, p))
        else rbind (py_index new_computed i) (\<lambda>nc.
          rbind (get_num_blocks_to_allocate rid ntokens nc total_computed num_tokens_main_model apply_cap p m) (\<lambda>(n, m). Inr (n, m, p)))) co)
      (\<lambda>(ns, co). Inr (sum_list ns, co))"

definition co_allocate_new_computed_blocks :: "string \<Rightarrow> kv_ref list list \<Rightarrow> int \<Rightarrow> int \<Rightarrow> coordinator \<Rightarrow> coordinator result" where
  "co_allocate_new_computed_blocks rid new_computed num_local num_external co =
    (if list_ex (\<lambda>m. num_cached_block m rid \<noteq> None) (co_managers co)
     then py_assert (list_all (\<lambda>bs. length bs = 0) new_computed) (Inr co)
     else
       rbind (for_managers (\<lambda>i st. rbind (py_index new_computed i) (\<lambda>nc.
           mg_unit (add_local_computed_blocks rid nc num_local num_external st))) co) (\<lambda>(_, co).
         if num_external > 0
         then rbind (for_managers (\<lambda>i st. mg_unit (allocate_external_computed_blocks rid num_local num_external st)) co) (\<lambda>(_, co). Inr co)
         else Inr co))"

definition co_allocate_new_blocks :: "string \<Rightarrow> int \<Rightarrow> int \<Rightarrow> int \<Rightarrow> coordinator \<Rightarrow> (kv_ref list list \<times> coordinator) result" where
  "co_allocate_new_blocks rid ntokens num_tokens_main_model num_encoder_tokens co =
    for_managers (\<lambda>i st. allocate_new_blocks rid
      (if mg_class (fst st) = CrossAttentionManager then num_encoder_tokens else ntokens) num_tokens_main_model st) co"

definition co_cache_blocks :: "(bytes \<Rightarrow> bytes) \<Rightarrow> request \<Rightarrow> int \<Rightarrow> coordinator \<Rightarrow> coordinator result" where
  "co_cache_blocks sha256 r num_computed co =
    (let aligned = num_computed div co_scheduler_block_size co * co_scheduler_block_size co;
         tokens = (\<lambda>m. if co_kind co \<noteq> Hybrid then num_computed
           else if mg_use_eagle m \<and> aligned > 0 then min num_computed (aligned + mg_block_size m) else aligned) in
     rbind (for_managers (\<lambda>i st. mg_unit (cache_blocks sha256 r (tokens (fst st)) (co_retention_interval co) st)) co) (\<lambda>(_, co). Inr co))"

definition co_free :: "string \<Rightarrow> coordinator \<Rightarrow> coordinator result" where
  "co_free rid co = rbind (for_managers (\<lambda>i st. mg_unit (mg_free rid st)) co) (\<lambda>(_, co). Inr co)"

definition co_pop_blocks_for_free :: "string \<Rightarrow> coordinator \<Rightarrow> kv_ref list \<times> coordinator" where
  "co_pop_blocks_for_free rid co =
    (let res = map (pop_blocks_for_free rid) (co_managers co)
     in (concat (map fst res), co\<lparr>co_managers := map snd res\<rparr>))"

definition co_get_num_common_prefix_blocks :: "string \<Rightarrow> coordinator \<Rightarrow> int list \<times> coordinator" where
  "co_get_num_common_prefix_blocks rid co =
    (if co_kind co = NoPrefixCache then (replicate (length (co_managers co)) 0, co)
     else let res = map (get_num_common_prefix_blocks rid (co_pool co)) (co_managers co)
          in (map fst res, co\<lparr>co_managers := map snd res\<rparr>))"

definition co_remove_skipped_blocks :: "string \<Rightarrow> int \<Rightarrow> int option \<Rightarrow> coordinator \<Rightarrow> coordinator result" where
  "co_remove_skipped_blocks rid total_computed num_prompt co =
    rbind (for_managers (\<lambda>i st. mg_unit (remove_skipped_blocks rid total_computed num_prompt st)) co) (\<lambda>(_, co). Inr co)"

definition co_get_blocks :: "string \<Rightarrow> coordinator \<Rightarrow> kv_ref list list" where
  "co_get_blocks rid co = map (req_blocks rid) (co_managers co)"

definition co_new_step_starts :: "coordinator \<Rightarrow> coordinator" where
  "co_new_step_starts co = co\<lparr>co_managers := map new_step_starts (co_managers co)\<rparr>"

section \<open>Longest cache hit\<close>

text \<open>\<^verbatim>\<open>_get_block_hashes\<close> of the hybrid coordinator.\<close>

definition get_block_hashes :: "int \<Rightarrow> bytes list \<Rightarrow> kv_spec \<Rightarrow> bytes list result" where
  "get_block_hashes hbs hashes spec =
    (if spec_block_size spec = hbs then Inr hashes
     else rbind (block_hash_list_with_block_size hashes hbs (spec_block_size spec)) (\<lambda>v. hl_from v 0))"

record hit_state =
  curr_hit_length :: int
  longest_hit_length :: int
  hit_blocks_by_group :: "kv_ref list option list"
  eagle_verified :: "int list"

text \<open>The body of the loop over the attention groups.\<close>

definition group_lookup :: "coordinator \<Rightarrow> bytes list \<Rightarrow> int \<Rightarrow> int \<times> spec_group \<Rightarrow> hit_state \<Rightarrow> hit_state result" where
  "group_lookup co hashes max_hit = (\<lambda>(idx, g) s.
    let spec = sg_spec g; bs = spec_block_size spec in
    rbind (py_index (sg_group_ids g) 0) (\<lambda>g0.
    rbind (py_index (hit_blocks_by_group s) g0) (\<lambda>cached.
      if is_FullAttentionSpec spec \<and> cached \<noteq> None
      then Inr (s\<lparr>curr_hit_length := curr_hit_length s div bs * bs\<rparr>)
      else
        let drop = sg_use_eagle g \<and> idx \<notin> set (eagle_verified s);
            max_length = (if drop then min (curr_hit_length s + bs) max_hit else curr_hit_length s) in
        rbind (get_block_hashes (co_hash_block_size co) hashes spec) (\<lambda>hs.
        rbind (Single_Type.find_longest_cache_hit (sg_manager_cls g) hs max_length (sg_group_ids g) (co_pool co) spec drop
                 (co_scheduler_block_size co) 1 1) (\<lambda>cols.
        rbind (py_index cols 0) (\<lambda>c0.
          let new_hit_length = int (length c0) * bs
          in Inr (s\<lparr>eagle_verified := (if drop then List.insert idx (eagle_verified s)
                      else if new_hit_length < curr_hit_length s then [] else eagle_verified s),
                   curr_hit_length := new_hit_length,
                   hit_blocks_by_group := fold (\<lambda>(gid, bl) h. h[nat gid := Some bl]) (zip (sg_group_ids g) cols) (hit_blocks_by_group s),
                   longest_hit_length := max (longest_hit_length s) new_hit_length\<rparr>)))))))"

definition groups_pass :: "coordinator \<Rightarrow> bytes list \<Rightarrow> int \<Rightarrow> hit_state \<Rightarrow> hit_state result" where
  "groups_pass co hashes max_hit s =
    rfold (group_lookup co hashes max_hit) (zip (map int [0..<length (co_attention_groups co)]) (co_attention_groups co)) s"

definition is_simple_hybrid :: "coordinator \<Rightarrow> bool" where
  "is_simple_hybrid co = (case co_attention_groups co of [g, _] \<Rightarrow> is_FullAttentionSpec (sg_spec g) | _ \<Rightarrow> False)"

partial_function (option) hit_loop :: "coordinator \<Rightarrow> bytes list \<Rightarrow> int \<Rightarrow> int \<Rightarrow> hit_state \<Rightarrow> (int \<times> hit_state) result option" where
  "hit_loop co hashes max_hit hit_length s =
    (case groups_pass co hashes max_hit (s\<lparr>curr_hit_length := hit_length\<rparr>) of
       Inl e \<Rightarrow> Some (Inl e)
     | Inr s \<Rightarrow>
         if curr_hit_length s \<ge> hit_length then Some (Inr (hit_length, s))
         else if is_simple_hybrid co then Some (Inr (curr_hit_length s, s))
         else hit_loop co hashes max_hit (curr_hit_length s) s)"

definition truncate_first :: "coordinator \<Rightarrow> int \<Rightarrow> kv_ref list option list \<Rightarrow> kv_ref list option list" where
  "truncate_first co hit_length blocks =
    (case co_attention_groups co of
       [] \<Rightarrow> blocks
     | g # _ \<Rightarrow>
         if is_FullAttentionSpec (sg_spec g)
         then fold (\<lambda>gid h. h[nat gid := map_option (\<lambda>bl. py_upto bl (hit_length div spec_block_size (sg_spec g))) (h ! nat gid)]) (sg_group_ids g) blocks
         else blocks)"

definition hybrid_find_longest_cache_hit :: "bytes list \<Rightarrow> int \<Rightarrow> coordinator \<Rightarrow> (kv_ref list list \<times> int \<times> coordinator) result option" where
  "hybrid_find_longest_cache_hit hashes max_hit co =
    map_option (\<lambda>r. rbind r (\<lambda>(hit_length, s).
        Inr (map (\<lambda>b. case b of None \<Rightarrow> [] | Some bl \<Rightarrow> bl) (truncate_first co hit_length (hit_blocks_by_group s)), hit_length,
          co\<lparr>num_uncached_common_prefix_tokens := longest_hit_length s - hit_length\<rparr>)))
      (hit_loop co hashes max_hit max_hit
        \<lparr>curr_hit_length = max_hit, longest_hit_length = 0,
         hit_blocks_by_group = replicate (length (kv_cache_groups (co_config co))) None, eagle_verified = []\<rparr>)"

definition unitary_find_longest_cache_hit :: "bytes list \<Rightarrow> int \<Rightarrow> coordinator \<Rightarrow> (kv_ref list list \<times> int) result" where
  "unitary_find_longest_cache_hit hashes max_hit co =
    rbind (py_index (kv_cache_groups (co_config co)) 0) (\<lambda>g.
    rbind (py_index (co_managers co) 0) (\<lambda>m.
    rbind (Single_Type.find_longest_cache_hit (mg_class m) hashes max_hit [0] (co_pool co) (group_spec g)
             (0 \<in> set (co_eagle_group_ids co)) (co_block_size co) (co_dcp_world_size co) (co_pcp_world_size co)) (\<lambda>cols.
    rbind (py_index cols 0) (\<lambda>c. Inr (cols, int (length c) * co_block_size co)))))"

definition co_find_longest_cache_hit :: "bytes list \<Rightarrow> int \<Rightarrow> coordinator \<Rightarrow> (kv_ref list list \<times> int \<times> coordinator) result option" where
  "co_find_longest_cache_hit hashes max_hit co =
    (case co_kind co of
       NoPrefixCache \<Rightarrow> Some (Inr (replicate (length (co_managers co)) [], 0, co))
     | Unitary \<Rightarrow> Some (rbind (unitary_find_longest_cache_hit hashes max_hit co) (\<lambda>(bl, n). Inr (bl, n, co)))
     | Hybrid \<Rightarrow> hybrid_find_longest_cache_hit hashes max_hit co)"

text \<open>\<^verbatim>\<open>find_longest_cache_hit_per_group\<close>: every group on its own.\<close>

definition find_longest_cache_hit_per_group :: "bytes list \<Rightarrow> int \<Rightarrow> coordinator \<Rightarrow> (kv_ref list list \<times> int list) result" where
  "find_longest_cache_hit_per_group hashes max_hit co =
    (let n = length (kv_cache_groups (co_config co)) in
     rfold (\<lambda>g (hit_blocks, hit_lengths).
       rbind (get_block_hashes (co_hash_block_size co) hashes (sg_spec g)) (\<lambda>hs.
       rbind (Single_Type.find_longest_cache_hit (sg_manager_cls g) hs max_hit (sg_group_ids g) (co_pool co) (sg_spec g)
                (sg_use_eagle g) (co_scheduler_block_size co) 1 1) (\<lambda>cols.
       rbind (py_index cols 0) (\<lambda>c0.
         Inr (fold (\<lambda>(gid, bl) h. h[nat gid := bl]) (zip (sg_group_ids g) cols) hit_blocks,
              fold (\<lambda>(gid, bl) h. h[nat gid := int (length c0) * spec_block_size (sg_spec g)]) (zip (sg_group_ids g) cols) hit_lengths)))))
      (co_attention_groups co) (replicate n [], replicate n 0))"

section \<open>The attention groups of the hybrid coordinator\<close>

text \<open>What the groups record about the KV cache groups they stand for.\<close>

definition spec_group_ok :: "(int \<Rightarrow> kv_spec) \<Rightarrow> (int \<Rightarrow> manager_class) \<Rightarrow> int set \<Rightarrow> spec_group \<Rightarrow> bool" where
  "spec_group_ok spec cls eagle g \<longleftrightarrow> sg_group_ids g \<noteq> [] \<and>
    (\<forall>i \<in> set (sg_group_ids g). spec i = sg_spec g \<and> cls i = sg_manager_cls g) \<and>
    (sg_use_eagle g \<longleftrightarrow> (\<exists>i \<in> set (sg_group_ids g). i \<in> eagle))"

lemma add_to_group_ok:
  assumes "add_to_group (spec i) (cls i) i (i \<in> eagle) gs = Inr gs'"
    and "\<forall>g \<in> set gs. spec_group_ok spec cls eagle g" "distinct (map sg_spec gs)"
  shows "(\<forall>g \<in> set gs'. spec_group_ok spec cls eagle g) \<and> distinct (map sg_spec gs') \<and>
    set (map sg_spec gs') = insert (spec i) (set (map sg_spec gs)) \<and>
    mset (concat (map sg_group_ids gs')) = add_mset i (mset (concat (map sg_group_ids gs)))"
  using assms
proof (induction gs arbitrary: gs')
  case Nil
  then show ?case by (auto simp: spec_group_ok_def)
next
  case (Cons g gs)
  show ?case
  proof (cases "sg_spec g = spec i")
    case True
    then have "gs' = g\<lparr>sg_group_ids := sg_group_ids g @ [i], sg_use_eagle := (sg_use_eagle g \<or> i \<in> eagle)\<rparr> # gs" "cls i = sg_manager_cls g"
      using Cons.prems(1) by (auto simp: py_assert_def split: if_splits)
    then show ?thesis using Cons.prems(2,3) True by (auto simp: spec_group_ok_def)
  next
    case False
    then obtain gs1 where "add_to_group (spec i) (cls i) i (i \<in> eagle) gs = Inr gs1" "gs' = g # gs1"
      using Cons.prems(1) by auto
    then show ?thesis using Cons.IH [of gs1] Cons.prems(2,3) False by (auto simp: image_iff)
  qed
qed

lemma split_groups_ok:
  assumes "split_groups co = Inr gs" "length (co_managers co) = length (kv_cache_groups (co_config co))"
  defines "spec \<equiv> \<lambda>i. group_spec (kv_cache_groups (co_config co) ! nat i)" and "cls \<equiv> \<lambda>i. mg_class (co_managers co ! nat i)"
  shows "\<forall>g \<in> set gs. spec_group_ok spec cls (set (co_eagle_group_ids co)) g" "distinct (map sg_spec gs)"
    "mset (concat (map sg_group_ids gs)) = mset (map int [0..<length (kv_cache_groups (co_config co))])"
proof -
  let ?add = "\<lambda>(i, g, m) gs. add_to_group (group_spec g) (mg_class m) i (i \<in> set (co_eagle_group_ids co)) gs"
  have step: "(\<forall>g \<in> set gs'. spec_group_ok spec cls (set (co_eagle_group_ids co)) g) \<and> distinct (map sg_spec gs') \<and>
      mset (concat (map sg_group_ids gs')) = mset (concat (map sg_group_ids gs0)) + mset (map fst xs)"
    if "rfold ?add xs gs0 = Inr gs'" "\<forall>(i, g, m) \<in> set xs. group_spec g = spec i \<and> mg_class m = cls i"
      "\<forall>g \<in> set gs0. spec_group_ok spec cls (set (co_eagle_group_ids co)) g" "distinct (map sg_spec gs0)" for xs gs0 gs'
    using that
  proof (induction xs arbitrary: gs0)
    case Nil
    then show ?case by simp
  next
    case (Cons x xs)
    obtain i g m where x: "x = (i, g, m)" by (cases x)
    have e: "group_spec g = spec i" "mg_class m = cls i" using Cons.prems(2) x by auto
    obtain gs1 where g1: "add_to_group (spec i) (cls i) i (i \<in> set (co_eagle_group_ids co)) gs0 = Inr gs1" "rfold ?add xs gs1 = Inr gs'"
      using Cons.prems(1) unfolding x by (auto simp: e)
    then show ?case using Cons.IH [of gs1] add_to_group_ok [OF g1(1) Cons.prems(3,4)] Cons.prems(2) by (simp add: x)
  qed
  let ?n = "length (kv_cache_groups (co_config co))"
  let ?xs = "zip (map int [0..<?n]) (zip (kv_cache_groups (co_config co)) (co_managers co))"
  have "\<forall>(i, g, m) \<in> set ?xs. group_spec g = spec i \<and> mg_class m = cls i"
    using assms(2) by (auto simp: set_zip spec_def cls_def)
  moreover have "map fst ?xs = map int [0..<?n]" using assms(2) by simp
  ultimately show "\<forall>g \<in> set gs. spec_group_ok spec cls (set (co_eagle_group_ids co)) g" "distinct (map sg_spec gs)"
    "mset (concat (map sg_group_ids gs)) = mset (map int [0..<?n])"
    using step [of ?xs "[]" gs] assms(1) unfolding split_groups_def by simp_all
qed

lemma hybrid_init_ok:
  assumes h: "hybrid_init co = Inr co'" and l: "length (co_managers co) = length (kv_cache_groups (co_config co))"
  defines "n \<equiv> length (kv_cache_groups (co_config co))"
  shows "\<forall>g \<in> set (co_attention_groups co'). spec_group_ok (\<lambda>i. group_spec (kv_cache_groups (co_config co) ! nat i))
      (\<lambda>i. mg_class (co_managers co ! nat i)) (set (co_eagle_group_ids co)) g"
    "distinct (map sg_spec (co_attention_groups co'))" "1 < length (co_attention_groups co')"
    "mset (concat (map sg_group_ids (co_attention_groups co'))) = mset (map int [0..<n])"
    "\<exists>k. (\<forall>g \<in> set (take k (co_attention_groups co')). is_FullAttentionSpec (sg_spec g)) \<and>
      (\<forall>g \<in> set (drop k (co_attention_groups co')). \<not> is_FullAttentionSpec (sg_spec g))"
    "\<forall>g \<in> set (kv_cache_groups (co_config co)). spec_block_size (group_spec g) mod co_hash_block_size co = 0"
    "\<exists>ms. co' = co\<lparr>co_attention_groups := co_attention_groups co', co_managers := ms\<rparr>"
proof -
  let ?full = "\<lambda>g. is_FullAttentionSpec (sg_spec g)"
  define groups where "groups gs = filter ?full gs @ filter (\<lambda>g. \<not> ?full g) gs" for gs :: "spec_group list"
  obtain gs where s: "split_groups co = Inr gs"
    using h by (cases "split_groups co") (auto simp: hybrid_init_def py_assert_def split: if_splits)
  have e: "1 < length gs \<and> (\<forall>g \<in> set (kv_cache_groups (co_config co)). spec_block_size (group_spec g) mod co_hash_block_size co = 0) \<and>
    (\<exists>ms. co' = co\<lparr>co_attention_groups := groups gs, co_managers := ms\<rparr>)"
    using h unfolding hybrid_init_def py_assert_def Let_def s rbind.simps groups_def [symmetric] list_all_iff
    by (intro conjI) (auto split: if_splits)
  then have gs: "split_groups co = Inr gs" "1 < length gs" "co_attention_groups co' = filter ?full gs @ filter (\<lambda>g. \<not> ?full g) gs"
    "\<forall>g \<in> set (kv_cache_groups (co_config co)). spec_block_size (group_spec g) mod co_hash_block_size co = 0"
    using s by (auto simp: groups_def)
  note S = split_groups_ok [OF gs(1) l]
  have p: "mset (co_attention_groups co') = mset gs" unfolding gs(3) by simp
  have "set (co_attention_groups co') = set gs" using p by (rule mset_eq_setD)
  then show "\<forall>g \<in> set (co_attention_groups co'). spec_group_ok (\<lambda>i. group_spec (kv_cache_groups (co_config co) ! nat i))
      (\<lambda>i. mg_class (co_managers co ! nat i)) (set (co_eagle_group_ids co)) g" using S(1) by simp
  have "mset (map sg_spec (co_attention_groups co')) = mset (map sg_spec gs)" using p by simp
  then show "distinct (map sg_spec (co_attention_groups co'))" using S(2) mset_eq_imp_distinct_iff by blast
  show "1 < length (co_attention_groups co')" using gs(2) mset_eq_length [OF p] by simp
  have "mset (concat xss) = sum_mset (mset (map mset xss))" for xss :: "int list list" by (induction xss) auto
  then have "mset (concat (map sg_group_ids (co_attention_groups co'))) = mset (concat (map sg_group_ids gs))"
    using p by (simp add: comp_def flip: image_mset.compositionality)
  then show "mset (concat (map sg_group_ids (co_attention_groups co'))) = mset (map int [0..<n])" using S(3) by (simp add: n_def)
  show "\<exists>k. (\<forall>g \<in> set (take k (co_attention_groups co')). ?full g) \<and> (\<forall>g \<in> set (drop k (co_attention_groups co')). \<not> ?full g)"
    unfolding gs(3) by (intro exI [of _ "length (filter ?full gs)"]) simp
  show "\<forall>g \<in> set (kv_cache_groups (co_config co)). spec_block_size (group_spec g) mod co_hash_block_size co = 0"
    "\<exists>ms. co' = co\<lparr>co_attention_groups := co_attention_groups co', co_managers := ms\<rparr>"
    using gs(4) e by auto
qed

text \<open>The EAGLE bit of a group reaches the managers of its members.\<close>

lemma hybrid_init_managers:
  assumes "hybrid_init co = Inr co'" "i < length (co_managers co)"
  shows "co_managers co' ! i = (if \<exists>g \<in> set (co_attention_groups co'). sg_use_eagle g \<and> int i \<in> set (sg_group_ids g)
    then (co_managers co ! i)\<lparr>mg_use_eagle := True\<rparr> else co_managers co ! i)"
proof -
  obtain gs where s: "split_groups co = Inr gs"
    using assms(1) by (cases "split_groups co") (auto simp: hybrid_init_def py_assert_def split: if_splits)
  define groups where "groups = filter (\<lambda>g. is_FullAttentionSpec (sg_spec g)) gs @ filter (\<lambda>g. \<not> is_FullAttentionSpec (sg_spec g)) gs"
  have "co' = co\<lparr>co_attention_groups := groups,
      co_managers := map2 (\<lambda>i m. if i \<in> set (concat (map sg_group_ids (filter sg_use_eagle groups))) then m\<lparr>mg_use_eagle := True\<rparr> else m)
        (map int [0..<length (co_managers co)]) (co_managers co)\<rparr>"
    using assms(1) unfolding hybrid_init_def py_assert_def Let_def s rbind.simps groups_def [symmetric] by (auto split: if_splits)
  then show ?thesis using assms(2) by auto
qed

section \<open>The constructed coordinator\<close>

definition fresh_manager :: "coordinator \<Rightarrow> int \<Rightarrow> st_manager \<Rightarrow> bool" where
  "fresh_manager co i m \<longleftrightarrow> (let spec = group_spec (kv_cache_groups (co_config co) ! nat i) in
    get_manager_class spec = Some (mg_class m) \<and> mg_spec m = spec \<and> kv_cache_group_id m = i \<and>
    mg_block_size m = (if co_dcp_world_size co * co_pcp_world_size co > 1
      then spec_block_size spec * (co_dcp_world_size co * co_pcp_world_size co) else spec_block_size spec) \<and>
    mg_null_block m = null_block (co_pool co) \<and> mg_enable_caching m = co_enable_caching co \<and>
    mg_scheduler_block_size m = co_scheduler_block_size co \<and>
    req_to_blocks m = [] \<and> num_cached_block m = (\<lambda>_. None) \<and> allocated_block_reqs m = [])"

lemma init_managers_nth:
  "init_managers mk i gs = Inr ms \<Longrightarrow> length ms = length gs \<and> (\<forall>k < length gs. mk (i + int k) (gs ! k) = Inr (ms ! k))"
proof (induction gs arbitrary: i ms)
  case (Cons g gs)
  obtain m ms' where m: "mk i g = Inr m" "init_managers mk (i + 1) gs = Inr ms'" "ms = m # ms'" using Cons.prems by auto
  show ?case
  proof (intro conjI allI impI)
    show "length ms = length (g # gs)" using Cons.IH [OF m(2)] m(3) by simp
    fix k assume "k < length (g # gs)"
    then show "mk (i + int k) ((g # gs) ! k) = Inr (ms ! k)" using Cons.IH [OF m(2)] m by (cases k) (auto simp: add.assoc)
  qed
qed simp

lemma get_manager_fresh:
  assumes "get_manager_for_kv_cache_spec spec mbt mml null caching i sbs dcp pcp z = Inr m"
  shows "get_manager_class spec = Some (mg_class m)" "mg_spec m = spec" "kv_cache_group_id m = i" "mg_null_block m = null"
    "mg_block_size m = (if dcp * pcp > 1 then spec_block_size spec * (dcp * pcp) else spec_block_size spec)"
    "mg_enable_caching m = caching" "mg_scheduler_block_size m = sbs" "req_to_blocks m = []" "num_cached_block m = (\<lambda>_. None)"
    "allocated_block_reqs m = []" "mg_use_eagle m = False"
  using assms by (auto simp: get_manager_for_kv_cache_spec_def manager_init_def Let_def split: option.splits if_splits)

lemma base_init_ok:
  assumes "base_init kind c mml mbt ue caching ev ui dcp pcp sbs hbs ret = Inr co"
  shows "pool_init (num_blocks c) caching hbs ev ui = Inr (co_pool co)" "length (co_managers co) = length (kv_cache_groups c)"
    "co_config co = c" "co_kind co = kind" "co_enable_caching co = caching" "co_scheduler_block_size co = sbs" "co_hash_block_size co = hbs"
    "co_eagle_group_ids co = eagle_group_ids c ue" "co_dcp_world_size co = dcp" "co_pcp_world_size co = pcp"
    "\<forall>i < length (kv_cache_groups c). fresh_manager co (int i) (co_managers co ! i) \<and> \<not> mg_use_eagle (co_managers co ! i)"
    "sbs mod hbs = 0" "\<forall>g \<in> set (kv_cache_groups c). sbs mod spec_block_size (group_spec g) = 0"
proof -
  obtain p where p: "pool_init (num_blocks c) caching hbs ev ui = Inr p"
    using assms by (cases "pool_init (num_blocks c) caching hbs ev ui") (auto simp: base_init_def py_assert_def split: if_splits)
  define mk where "mk = (\<lambda>i (g :: kv_cache_group). get_manager_for_kv_cache_spec (group_spec g) mbt mml (null_block p) caching i sbs dcp pcp (needs_kv_cache_zeroing c))"
  obtain ms where ms: "init_managers mk 0 (kv_cache_groups c) = Inr ms"
    using assms by (cases "init_managers mk 0 (kv_cache_groups c)") (auto simp: base_init_def py_assert_def p mk_def [symmetric] split: if_splits)
  have co: "co = \<lparr>co_kind = kind, co_config = c, co_managers = ms, co_pool = p, co_enable_caching = caching,
      co_scheduler_block_size = sbs, co_hash_block_size = hbs, co_eagle_group_ids = eagle_group_ids c ue,
      co_retention_interval = ret, co_block_size = sbs, co_dcp_world_size = dcp, co_pcp_world_size = pcp,
      co_attention_groups = [], num_uncached_common_prefix_tokens = 0\<rparr>" and
    m: "sbs mod hbs = 0" "\<forall>g \<in> set (kv_cache_groups c). sbs mod spec_block_size (group_spec g) = 0"
    using assms by (auto simp: base_init_def py_assert_def p ms mk_def [symmetric] list_all_iff split: if_splits)
  note N = init_managers_nth [OF ms]
  show "sbs mod hbs = 0" "\<forall>g \<in> set (kv_cache_groups c). sbs mod spec_block_size (group_spec g) = 0" by fact+
  show "pool_init (num_blocks c) caching hbs ev ui = Inr (co_pool co)" "length (co_managers co) = length (kv_cache_groups c)"
    "co_config co = c" "co_kind co = kind" "co_enable_caching co = caching" "co_scheduler_block_size co = sbs" "co_hash_block_size co = hbs"
    "co_eagle_group_ids co = eagle_group_ids c ue" "co_dcp_world_size co = dcp" "co_pcp_world_size co = pcp"
    using N p by (simp_all add: co)
  have "fresh_manager co (int i) (ms ! i) \<and> \<not> mg_use_eagle (ms ! i)" if "i < length (kv_cache_groups c)" for i
  proof -
    have "mk (int i) (kv_cache_groups c ! i) = Inr (ms ! i)" using N that by simp
    note F = get_manager_fresh [OF this [unfolded mk_def]]
    show ?thesis using F by (simp add: fresh_manager_def co)
  qed
  then show "\<forall>i < length (kv_cache_groups c). fresh_manager co (int i) (co_managers co ! i) \<and> \<not> mg_use_eagle (co_managers co ! i)"
    by (simp add: co)
qed

lemma hybrid_coordinator_managers:
  assumes g: "get_kv_cache_coordinator c mml mbt ue True ev ui dcp pcp sbs hbs ret = Inr co" and n: "length (kv_cache_groups c) \<noteq> 1"
    and i: "i < length (kv_cache_groups c)"
  shows "get_manager_class (group_spec (kv_cache_groups c ! i)) = Some (mg_class (co_managers co ! i))"
    "mg_use_eagle (co_managers co ! i) \<longleftrightarrow> (\<exists>g \<in> set (co_attention_groups co). sg_use_eagle g \<and> int i \<in> set (sg_group_ids g))"
proof -
  obtain co0 where b: "base_init Hybrid c mml mbt ue True ev ui dcp pcp sbs hbs ret = Inr co0" and h: "hybrid_init co0 = Inr co"
    using g n by (cases "base_init Hybrid c mml mbt ue True ev ui dcp pcp sbs hbs ret") (auto simp: get_kv_cache_coordinator_def)
  note B = base_init_ok [OF b]
  have f: "fresh_manager co0 (int i) (co_managers co0 ! i)" "\<not> mg_use_eagle (co_managers co0 ! i)" using B(11) i by auto
  have "i < length (co_managers co0)" using B(2) i by simp
  note M = hybrid_init_managers [OF h this]
  show "get_manager_class (group_spec (kv_cache_groups c ! i)) = Some (mg_class (co_managers co ! i))"
    using f(1) M by (simp add: fresh_manager_def Let_def B(3))
  show "mg_use_eagle (co_managers co ! i) \<longleftrightarrow> (\<exists>g \<in> set (co_attention_groups co). sg_use_eagle g \<and> int i \<in> set (sg_group_ids g))"
    using f(2) M by simp
qed

lemma hybrid_coordinator_ok:
  assumes g: "get_kv_cache_coordinator c mml mbt ue True ev ui dcp pcp sbs hbs ret = Inr co" and n: "length (kv_cache_groups c) \<noteq> 1"
  shows "\<forall>x \<in> set (co_attention_groups co). spec_group_ok (\<lambda>i. group_spec (kv_cache_groups c ! nat i))
      (\<lambda>i. the (get_manager_class (group_spec (kv_cache_groups c ! nat i)))) (set (eagle_group_ids c ue)) x"
    "distinct (map sg_spec (co_attention_groups co))" "1 < length (co_attention_groups co)"
    "mset (concat (map sg_group_ids (co_attention_groups co))) = mset (map int [0..<length (kv_cache_groups c)])"
    "\<exists>k. (\<forall>x \<in> set (take k (co_attention_groups co)). is_FullAttentionSpec (sg_spec x)) \<and>
      (\<forall>x \<in> set (drop k (co_attention_groups co)). \<not> is_FullAttentionSpec (sg_spec x))"
    "\<forall>x \<in> set (kv_cache_groups c). spec_block_size (group_spec x) mod hbs = 0 \<and> sbs mod spec_block_size (group_spec x) = 0"
    "co_kind co = Hybrid" "co_config co = c" "co_scheduler_block_size co = sbs" "co_hash_block_size co = hbs"
    "pool_init (num_blocks c) True hbs ev ui = Inr (co_pool co)"
proof -
  obtain co0 where b: "base_init Hybrid c mml mbt ue True ev ui dcp pcp sbs hbs ret = Inr co0" and h: "hybrid_init co0 = Inr co"
    using g n by (cases "base_init Hybrid c mml mbt ue True ev ui dcp pcp sbs hbs ret") (auto simp: get_kv_cache_coordinator_def)
  note B = base_init_ok [OF b]
  have l: "length (co_managers co0) = length (kv_cache_groups (co_config co0))" using B(2,3) by simp
  note H = hybrid_init_ok [OF h l, unfolded B(3)]
  obtain ms where co: "co = co0\<lparr>co_attention_groups := co_attention_groups co, co_managers := ms\<rparr>" using H(7) by blast
  have "co_kind co = co_kind co0" "co_config co = co_config co0" "co_scheduler_block_size co = co_scheduler_block_size co0"
    "co_hash_block_size co = co_hash_block_size co0" "co_pool co = co_pool co0" by (subst co, simp)+
  then show "co_kind co = Hybrid" "co_config co = c" "co_scheduler_block_size co = sbs" "co_hash_block_size co = hbs"
    "pool_init (num_blocks c) True hbs ev ui = Inr (co_pool co)" using B(1,3,4,6,7) by simp_all
  show "distinct (map sg_spec (co_attention_groups co))" "1 < length (co_attention_groups co)"
    "mset (concat (map sg_group_ids (co_attention_groups co))) = mset (map int [0..<length (kv_cache_groups c)])"
    "\<exists>k. (\<forall>x \<in> set (take k (co_attention_groups co)). is_FullAttentionSpec (sg_spec x)) \<and>
      (\<forall>x \<in> set (drop k (co_attention_groups co)). \<not> is_FullAttentionSpec (sg_spec x))"
    using H(2-5) by simp_all
  show "\<forall>x \<in> set (kv_cache_groups c). spec_block_size (group_spec x) mod hbs = 0 \<and> sbs mod spec_block_size (group_spec x) = 0"
    using H(6) B(7,13) by simp
  show "\<forall>x \<in> set (co_attention_groups co). spec_group_ok (\<lambda>i. group_spec (kv_cache_groups c ! nat i))
      (\<lambda>i. the (get_manager_class (group_spec (kv_cache_groups c ! nat i)))) (set (eagle_group_ids c ue)) x"
  proof
    fix x assume x: "x \<in> set (co_attention_groups co)"
    have "set (sg_group_ids x) \<subseteq> set (concat (map sg_group_ids (co_attention_groups co)))" using x by auto
    also have "\<dots> = set (map int [0..<length (kv_cache_groups c)])" using H(4) by (rule mset_eq_setD)
    finally have r: "set (sg_group_ids x) \<subseteq> int ` {..<length (kv_cache_groups c)}" by (auto simp: lessThan_atLeast0)
    have "mg_class (co_managers co0 ! nat i) = the (get_manager_class (group_spec (kv_cache_groups c ! nat i)))" if "i \<in> set (sg_group_ids x)" for i
      using B(11) r that by (auto simp: fresh_manager_def Let_def B(3))
    then show "spec_group_ok (\<lambda>i. group_spec (kv_cache_groups c ! nat i))
      (\<lambda>i. the (get_manager_class (group_spec (kv_cache_groups c ! nat i)))) (set (eagle_group_ids c ue)) x"
      using H(1) x B(8) by (simp add: spec_group_ok_def)
  qed
qed

end
