(* ===== verification/Hybrid_Hits.thy ===== *)
theory Hybrid_Hits
  imports Coordinator
begin

text \<open>
  The fixed-point search of \<^verbatim>\<open>HybridKVCacheCoordinator.find_longest_cache_hit\<close>: it ends for
  all inputs, and for groups that shrink their candidate under the EAGLE drop its result
  is a prefix that every group has cached, the longest one when no block is dropped.
\<close>

section \<open>Dropping the last block\<close>

lemma drop_align_len:
  assumes c: "cols_len n gids cols" and g: "gids_ok gids"
  shows "\<exists>m \<le> n - 1. drop_last True cols (align_pop bs al) = Inr (map (take m) cols)"
proof (cases "0 < n")
  case True
  have "cols_len (n - 1) gids (map (take (n - 1)) cols)" using c by (rule cols_len_take) simp
  from align_pop_ok [OF this g, of bs al] obtain m where m: "m \<le> n - 1"
    "align_pop bs al (map (take (n - 1)) cols) = Inr (map (take m) (map (take (n - 1)) cols))" by (elim exE conjE)
  moreover have "map (take m) (map (take (n - 1)) cols) = map (take m) cols" using m(1) by (simp add: min_def)
  ultimately show ?thesis using True drop_last_ok [OF c g, of True] by (intro exI [of _ m]) simp
next
  case False
  then have "map (take 0) cols = cols" using c by (auto simp: cols_len_def intro!: map_idI)
  then show ?thesis using False drop_last_ok [OF c g, of True] by simp
qed

lemma cols_len_unique: "gids_ok gids \<Longrightarrow> cols_len m gids cols \<Longrightarrow> cols_len n gids cols \<Longrightarrow> m = n"
  using cols_len_nonempty [of gids n cols] by (cases cols) (auto simp: cols_len_def)

text \<open>A manager that honours \<^verbatim>\<open>drop_eagle_block\<close>: the block after the hit was within the limit.\<close>

locale dropping_finder = hit_finder +
  assumes drop_bound: "\<lbrakk>cache_inv p; gids_ok gids; supported spec True al dcp pcp; bs = group_block_size spec dcp pcp;
      0 \<le> max_length; max_length div bs \<le> int (length hs); find hs max_length gids p spec True al dcp pcp = Inr cols;
      cols_len L gids cols\<rbrakk> \<Longrightarrow> L = 0 \<or> (int L + 1) * bs \<le> max_length"
begin

text \<open>A search one block past the candidate, with the drop, never returns more than the candidate.\<close>

lemma candidate_shrinks:
  assumes c: "cache_inv p" and g: "gids_ok gids" and ok: "supported spec d al dcp pcp"
    and bs: "bs = group_block_size spec dcp pcp" and n: "0 \<le> cand" "cand \<le> limit" and m: "limit div bs \<le> int (length hs)"
  defines "max_length \<equiv> if d then min (cand + bs) limit else cand"
  shows "\<exists>L cols. find hs max_length gids p spec d al dcp pcp = Inr cols \<and>
    hit_blocks (get_num_skipped_tokens spec) bs p gids hs L cols \<and> int L * bs \<le> cand \<and> int L * bs mod al = 0 \<and>
    (\<not> d \<longrightarrow> longest (get_num_skipped_tokens spec) bs p gids hs cand al L)"
proof -
  have pos: "0 < bs" using bs_pos [OF ok] bs by simp
  have l: "0 \<le> max_length" "max_length \<le> limit" "d \<Longrightarrow> max_length \<le> cand + bs" "\<not> d \<Longrightarrow> max_length = cand"
    using n pos by (auto simp: max_length_def)
  have "max_length div bs \<le> limit div bs" using l(2) pos by (rule zdiv_mono1)
  then have ml: "max_length div bs \<le> int (length hs)" using m by simp
  obtain L cols where f: "find hs max_length gids p spec d al dcp pcp = Inr cols"
    "sound_hit (get_num_skipped_tokens spec) bs p gids hs max_length al L cols"
    "\<not> d \<longrightarrow> longest (get_num_skipped_tokens spec) bs p gids hs max_length al L"
    using finds [OF c g ok bs l(1) ml] by blast
  have s: "hit_blocks (get_num_skipped_tokens spec) bs p gids hs L cols" "int L * bs \<le> max_length" "int L * bs mod al = 0"
    using f(2) by (simp_all add: sound_hit_def)
  have "int L * bs \<le> cand"
  proof (cases d)
    case True
    then have "L = 0 \<or> (int L + 1) * bs \<le> max_length"
      using drop_bound [OF c g _ bs l(1) ml, of al cols L] ok f(1) s(1) by (simp add: hit_blocks_def)
    then show ?thesis using l(3) [OF True] n(1) by (auto simp: distrib_right)
  qed (use s(2) l(4) in simp)
  then show ?thesis using f s l(4) by (intro exI [of _ L] exI [of _ cols]) auto
qed

end

lemma full_drop_bound:
  assumes c: "cache_inv p" and g: "gids_ok gids" and ok: "full_supported spec True al dcp pcp"
    and bs: "bs = group_block_size spec dcp pcp" and m0: "0 \<le> max_length"
    and e: "full_find_longest_cache_hit hs max_length gids p spec True al dcp pcp = Inr cols" and L: "cols_len L gids cols"
  shows "L = 0 \<or> (int L + 1) * bs \<le> max_length"
proof -
  define N where "N = nat (max_length div bs)"
  have spec: "is_FullAttentionSpec spec" and pos: "0 < bs" using ok bs by (simp_all add: full_supported_def)
  have N: "int N = max_length div bs" using m0 pos by (simp add: N_def pos_imp_zdiv_nonneg_iff)
  have z: "cols_len 0 gids (map (\<lambda>_. []) gids)" by (simp add: cols_len_def)
  obtain m cols0 where s: "m \<le> length (take N hs)" "hit_scan p gids (take N hs) (map (\<lambda>_. []) gids) = Inr cols0" "cols_len (0 + m) gids cols0"
    using hit_scan_ok [OF c g z, of "take N hs"] by (elim exE conjE)
  have m: "m \<le> N" "cols_len m gids cols0" using s by simp_all
  have same: "rbind (drop_last True cols0 Inr) (align_pop bs al) = (if 0 < m then align_pop bs al (map (take (m - 1)) cols0) else align_pop bs al cols0)"
    using drop_last_ok [OF m(2) g, of True Inr] by simp
  have "\<not> max_length div bs < 0" using N by linarith
  then have r: "rbind (drop_last True cols0 Inr) (align_pop bs al) = Inr cols"
    using e spec s(2) bs N_def by (simp add: full_find_longest_cache_hit_def group_block_size_def Let_def)
  have "L \<le> m - 1"
  proof (cases "0 < m")
    case True
    have l: "cols_len (m - 1) gids (map (take (m - 1)) cols0)" using m(2) by (rule cols_len_take) simp
    obtain k where k: "k \<le> m - 1" "align_pop bs al (map (take (m - 1)) cols0) = Inr (map (take k) (map (take (m - 1)) cols0))"
      using align_pop_ok [OF l g, of bs al] by (elim exE conjE)
    then show ?thesis using cols_len_unique [OF g L] cols_len_take [OF l k(1)] r True same by simp
  next
    case False
    then obtain k where "k \<le> 0" "align_pop bs al cols0 = Inr (map (take k) cols0)"
      using align_pop_ok [OF m(2) g, of bs al] by auto
    then show ?thesis using cols_len_unique [OF g L] cols_len_take [OF m(2), of k] r False same by simp
  qed
  then have "L = 0 \<or> int L + 1 \<le> max_length div bs" using m(1) N by auto
  then show ?thesis using int_le_div_iff [OF pos, of "int L + 1" max_length] by simp
qed

lemma swa_drop_bound:
  assumes c: "cache_inv p" and g: "gids_ok gids" and ok: "swa_supported spec True al dcp pcp"
    and bs: "bs = group_block_size spec dcp pcp" and m0: "0 \<le> max_length" and ml: "max_length div bs \<le> int (length hs)"
    and e: "swa_find_longest_cache_hit hs max_length gids p spec True al dcp pcp = Inr cols" and L: "cols_len L gids cols"
  shows "L = 0 \<or> (int L + 1) * bs \<le> max_length"
proof -
  define N where "N = nat (max_length div bs)"
  obtain w where w: "spec_sliding_window spec = Some w" using ok by (auto simp: swa_supported_def split: option.splits)
  have pos: "0 < bs" and bs': "spec_block_size spec = bs" and cp: "dcp = 1" "pcp = 1"
    using ok bs by (simp_all add: swa_supported_def group_block_size_def)
  have N: "int N = max_length div bs" "N \<le> length hs" using m0 ml pos by (simp_all add: N_def pos_imp_zdiv_nonneg_iff nat_le_iff)
  define need where "need = contiguous_blocks_for_hit w bs True"
  obtain found i nc cols0 where s:
    "swa_loop p gids hs bs al True need N 0 (map (\<lambda>_. replicate N (null_block p)) gids) =
       Inr (found, nc, if found then map (take (i + nc)) cols0 else cols0)"
    "swa_inv p gids hs bs al True need N i nc cols0"
    using swa_loop_ok [OF c g N(2) swa_inv_start [of p gids hs bs al True need N]] by auto
  have E: "cols_len N gids cols0" "i + nc \<le> N" using s(2) by (simp_all add: swa_inv_def)
  define X where "X = (if found then Inr (map (take (i + nc)) cols0) else align_pop bs al (map (take nc) cols0))"
  have r: "rbind X (\<lambda>cols. drop_last True cols (align_pop bs al)) = Inr cols"
    using e s(1) w skipped_window [OF w] cp bs'
    by (simp add: swa_find_longest_cache_hit_def Let_def N_def need_def X_def cong: if_cong)
  have "\<exists>n \<le> N. \<exists>cols'. X = Inr cols' \<and> cols_len n gids cols'"
  proof (cases found)
    case True
    then show ?thesis using cols_len_take [OF E] E(2) by (auto simp: X_def)
  next
    case False
    have l: "cols_len nc gids (map (take nc) cols0)" using E(1) by (rule cols_len_take) (use E(2) in simp)
    obtain k where "k \<le> nc" "align_pop bs al (map (take nc) cols0) = Inr (map (take k) (map (take nc) cols0))"
      using align_pop_ok [OF l g, of bs al] by (elim exE conjE)
    then show ?thesis using cols_len_take [OF l, of k] E(2) False by (auto simp: X_def intro!: exI [of _ k])
  qed
  then obtain n cols' where n: "n \<le> N" "X = Inr cols'" "cols_len n gids cols'" by blast
  obtain m where m: "m \<le> n - 1" "drop_last True cols' (align_pop bs al) = Inr (map (take m) cols')"
    using drop_align_len [OF n(3) g, of bs al] by blast
  have "L = m" using cols_len_unique [OF g L] cols_len_take [OF n(3), of m] r n(2) m by simp
  then have "L = 0 \<or> int L + 1 \<le> max_length div bs" using m(1) n(1) N(1) by auto
  then show ?thesis using int_le_div_iff [OF pos, of "int L + 1" max_length] by simp
qed

text \<open>\<^verbatim>\<open>MambaManager\<close> ignores \<^verbatim>\<open>drop_eagle_block\<close>.\<close>

definition droppable :: "manager_class \<Rightarrow> kv_spec \<Rightarrow> bool \<Rightarrow> int \<Rightarrow> int \<Rightarrow> int \<Rightarrow> bool" where
  "droppable cls spec d al dcp pcp \<longleftrightarrow> finder_supported cls spec d al dcp pcp \<and> (d \<longrightarrow> cls \<noteq> MambaManager)"

interpretation group_finds: dropping_finder "find_longest_cache_hit cls" "droppable cls" for cls
proof unfold_locales
  fix spec d al dcp pcp
  assume "droppable cls spec d al dcp pcp"
  then show "0 < group_block_size spec dcp pcp" "droppable cls spec False al dcp pcp"
    using manager_hits.bs_pos manager_hits.no_drop by (auto simp: droppable_def)
next
  fix p gids spec d al dcp pcp bs max_length hs
  assume "cache_inv p" "gids_ok gids" "droppable cls spec d al dcp pcp" "bs = group_block_size spec dcp pcp"
    "0 \<le> max_length" "max_length div bs \<le> int (length (hs :: bytes list))"
  then show "\<exists>L cols. find_longest_cache_hit cls hs max_length gids p spec d al dcp pcp = Inr cols \<and>
      sound_hit (get_num_skipped_tokens spec) bs p gids hs max_length al L cols \<and>
      (\<not> d \<longrightarrow> longest (get_num_skipped_tokens spec) bs p gids hs max_length al L)"
    by (intro manager_hits.finds) (simp_all add: droppable_def)
next
  fix p gids spec al dcp pcp bs max_length hs cols L
  assume a: "cache_inv p" "gids_ok gids" "droppable cls spec True al dcp pcp" "bs = group_block_size spec dcp pcp"
    "0 \<le> max_length" "max_length div bs \<le> int (length (hs :: bytes list))"
    "find_longest_cache_hit cls hs max_length gids p spec True al dcp pcp = Inr cols" "cols_len L gids cols"
  then show "L = 0 \<or> (int L + 1) * bs \<le> max_length"
    using full_drop_bound [OF a(1,2) _ a(4,5) _ a(8)] swa_drop_bound [OF a(1,2) _ a(4-6) _ a(8)]
    by (cases cls) (simp_all add: droppable_def finder_supported_def find_longest_cache_hit_def chunked_supported_def)
qed

section \<open>One group\<close>

abbreviation group_bs :: "spec_group \<Rightarrow> int" where
  "group_bs g \<equiv> spec_block_size (sg_spec g)"

definition group_hashes :: "coordinator \<Rightarrow> bytes list \<Rightarrow> spec_group \<Rightarrow> bytes list" where
  "group_hashes co hashes g = projr (get_block_hashes (co_hash_block_size co) hashes (sg_spec g))"

definition group_ok :: "coordinator \<Rightarrow> spec_group \<Rightarrow> bool" where
  "group_ok co g \<longleftrightarrow> gids_ok (sg_group_ids g) \<and> distinct (sg_group_ids g) \<and>
    (\<forall>i \<in> set (sg_group_ids g). i < int (length (kv_cache_groups (co_config co)))) \<and>
    droppable (sg_manager_cls g) (sg_spec g) (sg_use_eagle g) (co_scheduler_block_size co) 1 1 \<and>
    group_bs g mod co_hash_block_size co = 0 \<and> co_scheduler_block_size co mod group_bs g = 0"

definition hybrid_ok :: "coordinator \<Rightarrow> bool" where
  "hybrid_ok co \<longleftrightarrow> 0 < co_hash_block_size co \<and> co_attention_groups co \<noteq> [] \<and>
    (\<forall>g \<in> set (co_attention_groups co). group_ok co g) \<and>
    distinct (concat (map sg_group_ids (co_attention_groups co))) \<and>
    (\<forall>g \<in> set (tl (co_attention_groups co)). \<not> is_FullAttentionSpec (sg_spec g))"

lemma group_bs_pos: "group_ok co g \<Longrightarrow> 0 < group_bs g \<and> group_block_size (sg_spec g) 1 1 = group_bs g"
  using group_finds.bs_pos by (fastforce simp: group_ok_def group_block_size_def)

lemma get_block_hashes_ok:
  assumes "0 < hbs" "0 < spec_block_size spec" "spec_block_size spec mod hbs = 0"
  shows "\<exists>hs. get_block_hashes hbs hashes spec = Inr hs \<and>
    int (length hs) = int (length hashes) div (spec_block_size spec div hbs)"
proof (cases "spec_block_size spec = hbs")
  case True
  then show ?thesis using assms(1) by (simp add: get_block_hashes_def)
next
  case False
  define v where "v = \<lparr>hl_block_hashes = hashes, hl_scale_factor = spec_block_size spec div hbs\<rparr>"
  have f: "0 < hl_scale_factor v" using assms by (auto simp: v_def elim!: dvdE simp flip: mod_0_imp_dvd simp: mod_eq_0_iff_dvd zero_less_mult_iff)
  have "0 \<le> hl_len v" using f by (simp add: hl_len_def pos_imp_zdiv_nonneg_iff)
  then show ?thesis using False assms(3) hl_from_ok(1) [OF f]
    by (simp add: get_block_hashes_def block_hash_list_with_block_size_def py_assert_def v_def [symmetric]) (simp add: hl_len_def v_def)
qed

lemma group_hashes_ok:
  assumes g: "group_ok co g" and h: "0 < co_hash_block_size co" and l: "limit div co_hash_block_size co \<le> int (length hashes)"
  shows "get_block_hashes (co_hash_block_size co) hashes (sg_spec g) = Inr (group_hashes co hashes g)"
    "limit div group_bs g \<le> int (length (group_hashes co hashes g))"
proof -
  let ?h = "co_hash_block_size co" and ?f = "group_bs g div co_hash_block_size co"
  have m: "group_bs g mod ?h = 0" and pos: "0 < group_bs g" using g group_bs_pos [OF g] by (auto simp: group_ok_def)
  obtain hs where hs: "get_block_hashes ?h hashes (sg_spec g) = Inr hs" "int (length hs) = int (length hashes) div ?f"
    using get_block_hashes_ok [OF h pos m] by blast
  then show "get_block_hashes ?h hashes (sg_spec g) = Inr (group_hashes co hashes g)" by (simp add: group_hashes_def)
  have bs: "group_bs g = ?h * ?f" using m by auto
  then have f: "0 < ?f" using pos h by (metis zero_less_mult_pos)
  have "limit div group_bs g = limit div ?h div ?f" by (subst bs) (use f in \<open>simp add: zdiv_zmult2_eq\<close>)
  also have "\<dots> \<le> int (length hashes) div ?f" using l f by (rule zdiv_mono1)
  finally show "limit div group_bs g \<le> int (length (group_hashes co hashes g))" using hs by (simp add: group_hashes_def)
qed

text \<open>The lists recorded for a group.\<close>

definition recorded :: "hit_state \<Rightarrow> spec_group \<Rightarrow> kv_ref list list \<Rightarrow> bool" where
  "recorded s g cols \<longleftrightarrow> map (\<lambda>i. hit_blocks_by_group s ! nat i) (sg_group_ids g) = map Some cols"

definition group_hit :: "coordinator \<Rightarrow> bytes list \<Rightarrow> hit_state \<Rightarrow> spec_group \<Rightarrow> nat \<Rightarrow> bool" where
  "group_hit co hashes s g L \<longleftrightarrow> (\<exists>cols. recorded s g cols \<and>
    hit_blocks (get_num_skipped_tokens (sg_spec g)) (group_bs g) (co_pool co) (sg_group_ids g) (group_hashes co hashes g) L cols)"

lemma store_cols:
  assumes "distinct ids" "\<forall>i \<in> set ids. 0 \<le> i \<and> i < int (length h)" "length cols = length ids"
  defines "h' \<equiv> fold (\<lambda>(gid, bl) h. h[nat gid := Some bl]) (zip ids cols) h"
  shows "length h' = length h \<and> map (\<lambda>i. h' ! nat i) ids = map Some cols \<and>
    (\<forall>i. 0 \<le> i \<and> i \<notin> set ids \<longrightarrow> h' ! nat i = h ! nat i)"
  using assms(1-3) unfolding h'_def
proof (induction ids cols arbitrary: h rule: list_induct2')
  case (4 i ids c cols)
  let ?h = "h[nat i := Some c]" and ?h' = "fold (\<lambda>(gid, bl) h. h[nat gid := Some bl]) (zip (i # ids) (c # cols)) h"
  have e: "?h' = fold (\<lambda>(gid, bl) h. h[nat gid := Some bl]) (zip ids cols) ?h" by simp
  have I: "length ?h' = length ?h" "map (\<lambda>i. ?h' ! nat i) ids = map Some cols"
    "\<And>k. 0 \<le> k \<Longrightarrow> k \<notin> set ids \<Longrightarrow> ?h' ! nat k = ?h ! nat k"
    using "4.IH" [of ?h] "4.prems" unfolding e by auto
  have "?h' ! nat i = Some c" using I(3) [of i] "4.prems" by (simp add: nat_less_iff)
  moreover have "?h' ! nat k = h ! nat k" if "0 \<le> k" "k \<notin> set (i # ids)" for k
    using I(3) [of k] that "4.prems" by (simp add: nat_eq_iff)
  ultimately show ?case using I(1,2) by simp
qed simp_all

lemma lookup_ok:
  assumes c: "cache_inv (co_pool co)" and h: "0 < co_hash_block_size co" and g: "group_ok co g"
    and l: "limit div co_hash_block_size co \<le> int (length hashes)"
    and s: "0 \<le> curr_hit_length s" "curr_hit_length s \<le> limit"
      "length (hit_blocks_by_group s) = length (kv_cache_groups (co_config co))"
    and n: "\<not> is_FullAttentionSpec (sg_spec g) \<or> hit_blocks_by_group s ! nat (hd (sg_group_ids g)) = None"
  shows "\<exists>L s'. group_lookup co hashes limit (idx, g) s = Inr s' \<and> group_hit co hashes s' g L \<and>
    curr_hit_length s' = int L * group_bs g \<and> int L * group_bs g \<le> curr_hit_length s \<and>
    int L * group_bs g mod co_scheduler_block_size co = 0 \<and>
    length (hit_blocks_by_group s') = length (hit_blocks_by_group s) \<and>
    (\<forall>i. 0 \<le> i \<and> i \<notin> set (sg_group_ids g) \<longrightarrow> hit_blocks_by_group s' ! nat i = hit_blocks_by_group s ! nat i) \<and>
    (\<not> sg_use_eagle g \<longrightarrow> longest (get_num_skipped_tokens (sg_spec g)) (group_bs g) (co_pool co) (sg_group_ids g)
       (group_hashes co hashes g) (curr_hit_length s) (co_scheduler_block_size co) L)"
proof -
  define d where "d = (sg_use_eagle g \<and> idx \<notin> set (eagle_verified s))"
  define hs where "hs = group_hashes co hashes g"
  let ?bs = "group_bs g" and ?ids = "sg_group_ids g" and ?cur = "curr_hit_length s"
  have gi: "gids_ok ?ids" "distinct ?ids" "\<forall>i \<in> set ?ids. 0 \<le> i \<and> i < int (length (hit_blocks_by_group s))"
    using g s(3) by (auto simp: group_ok_def gids_ok_def list_all_iff)
  have "droppable (sg_manager_cls g) (sg_spec g) d (co_scheduler_block_size co) 1 1"
    using g group_finds.no_drop by (cases d) (auto simp: group_ok_def d_def)
  note dr = this
  have bl: "?bs = group_block_size (sg_spec g) 1 1" "limit div ?bs \<le> int (length hs)"
    using group_bs_pos [OF g] group_hashes_ok(2) [OF g h l] by (simp_all add: hs_def)
  obtain L cols where f: "find_longest_cache_hit (sg_manager_cls g) hs (if d then min (?cur + ?bs) limit else ?cur) ?ids (co_pool co)
      (sg_spec g) d (co_scheduler_block_size co) 1 1 = Inr cols"
    "hit_blocks (get_num_skipped_tokens (sg_spec g)) ?bs (co_pool co) ?ids hs L cols" "int L * ?bs \<le> ?cur"
    "int L * ?bs mod co_scheduler_block_size co = 0"
    "\<not> d \<longrightarrow> longest (get_num_skipped_tokens (sg_spec g)) ?bs (co_pool co) ?ids hs ?cur (co_scheduler_block_size co) L"
    using group_finds.candidate_shrinks [OF c gi(1) dr bl(1) s(1,2) bl(2)] by (elim exE conjE)
  have cl: "cols_len L ?ids cols" using f(2) by (simp add: hit_blocks_def)
  obtain c0 cs where c0: "cols = c0 # cs" "length c0 = L"
    using cl cols_len_nonempty [OF gi(1) cl] by (cases cols) (auto simp: cols_len_def)
  obtain g0 gs where g0: "?ids = g0 # gs" using gi(1) by (cases ?ids) (auto simp: gids_ok_def)
  have i0: "py_index ?ids 0 = Inr g0" "py_index (hit_blocks_by_group s) g0 = Inr (hit_blocks_by_group s ! nat g0)" "py_index cols 0 = Inr c0"
    using g0 gi(3) c0 by (simp_all add: py_index_def nat_less_iff)
  have nf: "\<not> (is_FullAttentionSpec (sg_spec g) \<and> hit_blocks_by_group s ! nat g0 \<noteq> None)" using n g0 by simp
  define s' where "s' = s\<lparr>eagle_verified := (if d then List.insert idx (eagle_verified s)
        else if int L * ?bs < ?cur then [] else eagle_verified s),
      curr_hit_length := int L * ?bs,
      hit_blocks_by_group := fold (\<lambda>(gid, bl) h. h[nat gid := Some bl]) (zip ?ids cols) (hit_blocks_by_group s),
      longest_hit_length := max (longest_hit_length s) (int L * ?bs)\<rparr>"
  have e: "group_lookup co hashes limit (idx, g) s = Inr s'"
    using f(1) i0 group_hashes_ok(1) [OF g h l] c0(2)
    unfolding group_lookup_def Let_def prod.case d_def [symmetric] hs_def [symmetric] by (simp only: rbind.simps if_not_P [OF nf] s'_def Let_def)
  have st: "length (hit_blocks_by_group s') = length (hit_blocks_by_group s)" "recorded s' g cols"
    "\<forall>i. 0 \<le> i \<and> i \<notin> set ?ids \<longrightarrow> hit_blocks_by_group s' ! nat i = hit_blocks_by_group s ! nat i"
    using store_cols [OF gi(2,3), of cols] cl by (simp_all add: s'_def recorded_def cols_len_def)
  have "curr_hit_length s' = int L * ?bs" by (simp add: s'_def)
  moreover have "group_hit co hashes s' g L" using st(2) f(2) by (auto simp: group_hit_def hs_def)
  ultimately show ?thesis using e st(1,3) f(3-5) by (intro exI [of _ L] exI [of _ s']) (auto simp: hs_def d_def)
qed

section \<open>One pass\<close>

definition group_usable :: "coordinator \<Rightarrow> bytes list \<Rightarrow> int \<Rightarrow> spec_group \<Rightarrow> bool" where
  "group_usable co hashes n g \<longleftrightarrow> \<not> sg_use_eagle g \<and>
    usable (get_num_skipped_tokens (sg_spec g)) (group_bs g) (co_pool co) (sg_group_ids g) (group_hashes co hashes g) (nat (n div group_bs g))"

lemma group_hit_cong:
  assumes "\<forall>i \<in> set (sg_group_ids g). hit_blocks_by_group s' ! nat i = hit_blocks_by_group s ! nat i"
  shows "group_hit co hashes s' g L = group_hit co hashes s g L"
proof -
  have "map (\<lambda>i. hit_blocks_by_group s' ! nat i) (sg_group_ids g) = map (\<lambda>i. hit_blocks_by_group s ! nat i) (sg_group_ids g)"
    using assms by simp
  then show ?thesis by (simp only: group_hit_def recorded_def)
qed

lemma aligned_blocks:
  assumes "group_ok co g" "n mod co_scheduler_block_size co = 0" "0 \<le> n"
  shows "int (nat (n div group_bs g)) * group_bs g = n"
proof -
  have "group_bs g dvd n" using assms by (auto simp: group_ok_def intro: dvd_trans)
  then show ?thesis using assms group_bs_pos [OF assms(1)] by (simp add: pos_imp_zdiv_nonneg_iff)
qed

lemma longest_bound:
  assumes g: "group_ok co g" and n: "n mod co_scheduler_block_size co = 0" "0 \<le> n" "n \<le> cand" and u: "group_usable co hashes n g"
    and l: "longest (get_num_skipped_tokens (sg_spec g)) (group_bs g) (co_pool co) (sg_group_ids g)
       (group_hashes co hashes g) cand (co_scheduler_block_size co) L"
  shows "n \<le> int L * group_bs g"
proof -
  let ?k = "nat (n div group_bs g)"
  have k: "int ?k * group_bs g = n" using aligned_blocks [OF g n(1,2)] .
  then have "?k \<le> L" using l u n unfolding longest_def group_usable_def by metis
  then have "int ?k * group_bs g \<le> int L * group_bs g" using group_bs_pos [OF g] by (intro mult_right_mono) auto
  then show ?thesis using k by simp
qed

lemma pass_ok:
  assumes c: "cache_inv (co_pool co)" and h: "0 < co_hash_block_size co"
    and l: "limit div co_hash_block_size co \<le> int (length hashes)"
    and "\<forall>x \<in> set xs. group_ok co (snd x) \<and> \<not> is_FullAttentionSpec (sg_spec (snd x))"
    and "distinct (concat (map (\<lambda>x. sg_group_ids (snd x)) xs))"
    and "0 \<le> curr_hit_length s" "curr_hit_length s \<le> limit"
      "length (hit_blocks_by_group s) = length (kv_cache_groups (co_config co))"
  shows "\<exists>s'. rfold (group_lookup co hashes limit) xs s = Inr s' \<and> 0 \<le> curr_hit_length s' \<and> curr_hit_length s' \<le> curr_hit_length s \<and>
    (xs \<noteq> [] \<longrightarrow> curr_hit_length s' mod co_scheduler_block_size co = 0) \<and>
    length (hit_blocks_by_group s') = length (hit_blocks_by_group s) \<and>
    (\<forall>i. 0 \<le> i \<and> i \<notin> set (concat (map (\<lambda>x. sg_group_ids (snd x)) xs)) \<longrightarrow> hit_blocks_by_group s' ! nat i = hit_blocks_by_group s ! nat i) \<and>
    (\<forall>x \<in> set xs. \<exists>L. group_hit co hashes s' (snd x) L \<and> curr_hit_length s' \<le> int L * group_bs (snd x) \<and>
       int L * group_bs (snd x) \<le> curr_hit_length s) \<and>
    (\<forall>x. xs = [x] \<longrightarrow> (\<exists>L. group_hit co hashes s' (snd x) L \<and> int L * group_bs (snd x) = curr_hit_length s')) \<and>
    (\<forall>n. 0 \<le> n \<and> n \<le> curr_hit_length s \<and> n mod co_scheduler_block_size co = 0 \<and> (\<forall>x \<in> set xs. group_usable co hashes n (snd x)) \<longrightarrow>
       n \<le> curr_hit_length s')"
  using assms(4-)
proof (induction xs arbitrary: s)
  case Nil
  then show ?case by simp
next
  case (Cons x xs)
  obtain idx g where x: "x = (idx, g)" by fastforce
  have g: "group_ok co g" "\<not> is_FullAttentionSpec (sg_spec g)" using Cons.prems(1) x by simp_all
  obtain L s1 where a: "group_lookup co hashes limit (idx, g) s = Inr s1" "group_hit co hashes s1 g L"
    "curr_hit_length s1 = int L * group_bs g" "int L * group_bs g \<le> curr_hit_length s" "int L * group_bs g mod co_scheduler_block_size co = 0"
    "length (hit_blocks_by_group s1) = length (hit_blocks_by_group s)"
    "\<forall>i. 0 \<le> i \<and> i \<notin> set (sg_group_ids g) \<longrightarrow> hit_blocks_by_group s1 ! nat i = hit_blocks_by_group s ! nat i"
    "\<not> sg_use_eagle g \<longrightarrow> longest (get_num_skipped_tokens (sg_spec g)) (group_bs g) (co_pool co) (sg_group_ids g)
       (group_hashes co hashes g) (curr_hit_length s) (co_scheduler_block_size co) L"
    using lookup_ok [OF c h g(1) l Cons.prems(3-5) disjI1 [OF g(2)], of idx] by (elim exE conjE)
  have bs: "0 < group_bs g" using group_bs_pos [OF g(1)] by simp
  have s1: "0 \<le> curr_hit_length s1" "curr_hit_length s1 \<le> limit" "length (hit_blocks_by_group s1) = length (kv_cache_groups (co_config co))"
    using a(3,4,6) bs Cons.prems(4,5) by simp_all
  have prems: "\<forall>x \<in> set xs. group_ok co (snd x) \<and> \<not> is_FullAttentionSpec (sg_spec (snd x))" "distinct (concat (map (\<lambda>x. sg_group_ids (snd x)) xs))"
    using Cons.prems(1,2) by simp_all
  obtain s' where b: "rfold (group_lookup co hashes limit) xs s1 = Inr s'" "0 \<le> curr_hit_length s'" "curr_hit_length s' \<le> curr_hit_length s1"
    "xs \<noteq> [] \<longrightarrow> curr_hit_length s' mod co_scheduler_block_size co = 0" "length (hit_blocks_by_group s') = length (hit_blocks_by_group s1)"
    "\<forall>i. 0 \<le> i \<and> i \<notin> set (concat (map (\<lambda>x. sg_group_ids (snd x)) xs)) \<longrightarrow> hit_blocks_by_group s' ! nat i = hit_blocks_by_group s1 ! nat i"
    "\<forall>x \<in> set xs. \<exists>L. group_hit co hashes s' (snd x) L \<and> curr_hit_length s' \<le> int L * group_bs (snd x) \<and>
       int L * group_bs (snd x) \<le> curr_hit_length s1"
    "\<forall>n. 0 \<le> n \<and> n \<le> curr_hit_length s1 \<and> n mod co_scheduler_block_size co = 0 \<and> (\<forall>x \<in> set xs. group_usable co hashes n (snd x)) \<longrightarrow>
       n \<le> curr_hit_length s'"
    using Cons.IH [OF prems s1] by (elim exE conjE)
  have single: "\<exists>L. group_hit co hashes s' g L \<and> int L * group_bs g = curr_hit_length s'" if "xs = []"
    using that a(2,3) b(1) by auto
  have al: "curr_hit_length s' mod co_scheduler_block_size co = 0" using a(3,5) b(1,4) by (cases "xs = []") auto
  have "\<forall>i \<in> set (sg_group_ids g). hit_blocks_by_group s' ! nat i = hit_blocks_by_group s1 ! nat i"
    using b(6) g(1) Cons.prems(2) x by (auto simp: group_ok_def gids_ok_def list_all_iff)
  then have gh: "group_hit co hashes s' g L" using a(2) by (simp only: group_hit_cong)
  have hit: "\<exists>L. group_hit co hashes s' (snd y) L \<and> curr_hit_length s' \<le> int L * group_bs (snd y) \<and> int L * group_bs (snd y) \<le> curr_hit_length s"
    if "y \<in> set (x # xs)" for y
  proof (cases "y = x")
    case True
    then show ?thesis using gh b(3) a(3,4) x by auto
  next
    case False
    then have "y \<in> set xs" using that by simp
    then obtain L' where "group_hit co hashes s' (snd y) L'" "curr_hit_length s' \<le> int L' * group_bs (snd y)"
      "int L' * group_bs (snd y) \<le> curr_hit_length s1" using b(7) by blast
    then show ?thesis using a(3,4) by (intro exI [of _ L']) simp
  qed
  have comp: "n \<le> curr_hit_length s'" if n: "0 \<le> n" "n \<le> curr_hit_length s" "n mod co_scheduler_block_size co = 0"
    "\<forall>y \<in> set (x # xs). group_usable co hashes n (snd y)" for n
  proof -
    have u: "group_usable co hashes n g" using n(4) x by simp
    then have "n \<le> int L * group_bs g" using longest_bound [OF g(1) n(3,1,2) u] a(8) by (simp add: group_usable_def)
    then show ?thesis using b(8) n a(3) by simp
  qed
  have un: "hit_blocks_by_group s' ! nat i = hit_blocks_by_group s ! nat i"
    if "0 \<le> i" "i \<notin> set (concat (map (\<lambda>x. sg_group_ids (snd x)) (x # xs)))" for i
    using that a(7) b(6) x by simp
  show ?case
    using a(1,6) b(1,2,5) al hit comp un b(3) a(3,4) single unfolding x by (intro exI [of _ s']) simp
qed

lemma hybrid_groups:
  assumes "hybrid_ok co"
  obtains g0 gt xs where "co_attention_groups co = g0 # gt" "map snd xs = gt" "length xs = length gt"
    "zip (map int [0..<length (co_attention_groups co)]) (co_attention_groups co) = (0, g0) # xs"
proof -
  obtain g0 gt where g: "co_attention_groups co = g0 # gt" using assms by (cases "co_attention_groups co") (auto simp: hybrid_ok_def)
  let ?xs = "zip (map int [1..<Suc (length gt)]) gt"
  have "zip (map int [0..<length (co_attention_groups co)]) (co_attention_groups co) = (0, g0) # ?xs"
    unfolding g by (simp add: upt_conv_Cons del: upt_Suc)
  moreover have "map snd ?xs = gt" "length ?xs = length gt" by (simp_all del: upt_Suc)
  ultimately show ?thesis using that g by blast
qed

lemma recorded_some: "gids_ok (sg_group_ids g) \<Longrightarrow> group_hit co hashes s g L \<Longrightarrow> hit_blocks_by_group s ! nat (hd (sg_group_ids g)) \<noteq> None"
  by (cases "sg_group_ids g") (auto simp: group_hit_def recorded_def gids_ok_def)

text \<open>The full attention group is searched in the first pass only.\<close>

definition full_inv :: "coordinator \<Rightarrow> bytes list \<Rightarrow> spec_group \<Rightarrow> int \<Rightarrow> hit_state \<Rightarrow> bool" where
  "full_inv co hashes g n s \<longleftrightarrow> is_FullAttentionSpec (sg_spec g) \<longrightarrow>
    hit_blocks_by_group s ! nat (hd (sg_group_ids g)) = None \<or>
      (\<exists>L. group_hit co hashes s g L \<and> n \<le> int L * group_bs g) \<and> n mod co_scheduler_block_size co = 0"

lemma first_lookup_ok:
  assumes c: "cache_inv (co_pool co)" and h: "0 < co_hash_block_size co" and g: "group_ok co g"
    and l: "limit div co_hash_block_size co \<le> int (length hashes)"
    and s: "0 \<le> curr_hit_length s" "curr_hit_length s \<le> limit"
      "length (hit_blocks_by_group s) = length (kv_cache_groups (co_config co))"
    and i: "full_inv co hashes g (curr_hit_length s) s"
  shows "\<exists>s' L. group_lookup co hashes limit (idx, g) s = Inr s' \<and> group_hit co hashes s' g L \<and> curr_hit_length s' \<le> int L * group_bs g \<and>
    (\<not> is_FullAttentionSpec (sg_spec g) \<longrightarrow> int L * group_bs g = curr_hit_length s') \<and>
    0 \<le> curr_hit_length s' \<and> curr_hit_length s' \<le> curr_hit_length s \<and> curr_hit_length s' mod co_scheduler_block_size co = 0 \<and>
    length (hit_blocks_by_group s') = length (hit_blocks_by_group s) \<and>
    (\<forall>n. 0 \<le> n \<and> n \<le> curr_hit_length s \<and> n mod co_scheduler_block_size co = 0 \<and> group_usable co hashes n g \<longrightarrow> n \<le> curr_hit_length s')"
proof (cases "\<not> is_FullAttentionSpec (sg_spec g) \<or> hit_blocks_by_group s ! nat (hd (sg_group_ids g)) = None")
  case True
  obtain L s1 where a: "group_lookup co hashes limit (idx, g) s = Inr s1" "group_hit co hashes s1 g L"
    "curr_hit_length s1 = int L * group_bs g" "int L * group_bs g \<le> curr_hit_length s" "int L * group_bs g mod co_scheduler_block_size co = 0"
    "length (hit_blocks_by_group s1) = length (hit_blocks_by_group s)"
    "\<not> sg_use_eagle g \<longrightarrow> longest (get_num_skipped_tokens (sg_spec g)) (group_bs g) (co_pool co) (sg_group_ids g)
       (group_hashes co hashes g) (curr_hit_length s) (co_scheduler_block_size co) L"
    using lookup_ok [OF c h g l s True, of idx] by (elim exE conjE)
  have "n \<le> curr_hit_length s1" if "0 \<le> n" "n \<le> curr_hit_length s" "n mod co_scheduler_block_size co = 0" "group_usable co hashes n g" for n
    using longest_bound [OF g that(3,1,2,4)] a(3,7) that(4) by (simp add: group_usable_def)
  moreover have "0 \<le> curr_hit_length s1" using a(3) group_bs_pos [OF g] by simp
  ultimately show ?thesis using a(1-6) by (intro exI [of _ s1] exI [of _ L]) simp
next
  case False
  then obtain L where L: "group_hit co hashes s g L" "curr_hit_length s \<le> int L * group_bs g" "curr_hit_length s mod co_scheduler_block_size co = 0"
    using i unfolding full_inv_def by metis
  obtain g0 gs where g0: "sg_group_ids g = g0 # gs" using g by (cases "sg_group_ids g") (auto simp: group_ok_def gids_ok_def)
  then have r: "0 \<le> g0" "g0 < int (length (hit_blocks_by_group s))" using g s(3) by (auto simp: group_ok_def gids_ok_def)
  then have x: "py_index (sg_group_ids g) 0 = Inr g0" "py_index (hit_blocks_by_group s) g0 = Inr (hit_blocks_by_group s ! nat g0)"
    using g0 by (simp_all add: py_index_def nat_less_iff)
  have y: "is_FullAttentionSpec (sg_spec g) \<and> hit_blocks_by_group s ! nat g0 \<noteq> None" using False g0 by simp
  have "curr_hit_length s div group_bs g * group_bs g = curr_hit_length s"
    using aligned_blocks [OF g L(3) s(1)] group_bs_pos [OF g] s(1) by (simp add: pos_imp_zdiv_nonneg_iff)
  then have "group_lookup co hashes limit (idx, g) s = Inr s"
    using x y unfolding group_lookup_def Let_def prod.case by (simp only: rbind.simps if_P) simp
  then show ?thesis using L s y by (intro exI [of _ s] exI [of _ L]) simp
qed

definition pass_result :: "coordinator \<Rightarrow> bytes list \<Rightarrow> int \<Rightarrow> hit_state \<Rightarrow> bool" where
  "pass_result co hashes n s' \<longleftrightarrow> 0 \<le> curr_hit_length s' \<and> curr_hit_length s' \<le> n \<and>
    curr_hit_length s' mod co_scheduler_block_size co = 0 \<and>
    length (hit_blocks_by_group s') = length (kv_cache_groups (co_config co)) \<and>
    (\<forall>g \<in> set (co_attention_groups co). \<exists>L. group_hit co hashes s' g L \<and> curr_hit_length s' \<le> int L * group_bs g \<and>
       (\<not> is_FullAttentionSpec (sg_spec g) \<and> (curr_hit_length s' = n \<or> is_simple_hybrid co) \<longrightarrow> int L * group_bs g = curr_hit_length s')) \<and>
    (\<forall>k. 0 \<le> k \<and> k \<le> n \<and> k mod co_scheduler_block_size co = 0 \<and> (\<forall>g \<in> set (co_attention_groups co). group_usable co hashes k g) \<longrightarrow>
       k \<le> curr_hit_length s')"

lemma groups_pass_ok:
  assumes c: "cache_inv (co_pool co)" and ok: "hybrid_ok co" and g0: "co_attention_groups co = g0 # gt"
    and l: "limit div co_hash_block_size co \<le> int (length hashes)"
    and s: "0 \<le> curr_hit_length s" "curr_hit_length s \<le> limit"
      "length (hit_blocks_by_group s) = length (kv_cache_groups (co_config co))"
    and i: "full_inv co hashes g0 (curr_hit_length s) s"
  shows "\<exists>s'. groups_pass co hashes limit s = Inr s' \<and> pass_result co hashes (curr_hit_length s) s'"
proof -
  obtain xs where xs: "map snd xs = gt" "zip (map int [0..<length (co_attention_groups co)]) (co_attention_groups co) = (0, g0) # xs"
    using hybrid_groups [OF ok] g0 by (metis list.inject)
  have h: "0 < co_hash_block_size co" and go: "group_ok co g0" "\<forall>x \<in> set xs. group_ok co (snd x) \<and> \<not> is_FullAttentionSpec (sg_spec (snd x))"
    and d: "distinct (concat (map (\<lambda>x. sg_group_ids (snd x)) ((0, g0) # xs)))"
    using ok unfolding hybrid_ok_def g0 xs(1) [symmetric] by (simp_all add: comp_def)
  have gt: "g \<in> set gt \<longleftrightarrow> (\<exists>x \<in> set xs. g = snd x)" for g unfolding xs(1) [symmetric] by (simp add: image_iff)
  obtain s1 L where a: "group_lookup co hashes limit (0, g0) s = Inr s1" "group_hit co hashes s1 g0 L" "curr_hit_length s1 \<le> int L * group_bs g0"
    "0 \<le> curr_hit_length s1" "curr_hit_length s1 \<le> curr_hit_length s" "curr_hit_length s1 mod co_scheduler_block_size co = 0"
    "length (hit_blocks_by_group s1) = length (hit_blocks_by_group s)"
    "\<forall>n. 0 \<le> n \<and> n \<le> curr_hit_length s \<and> n mod co_scheduler_block_size co = 0 \<and> group_usable co hashes n g0 \<longrightarrow> n \<le> curr_hit_length s1"
    "\<not> is_FullAttentionSpec (sg_spec g0) \<longrightarrow> int L * group_bs g0 = curr_hit_length s1"
    using first_lookup_ok [OF c h go(1) l s i, of 0] by (elim exE conjE)
  have d': "distinct (concat (map (\<lambda>x. sg_group_ids (snd x)) xs))" and s1: "curr_hit_length s1 \<le> limit"
    "length (hit_blocks_by_group s1) = length (kv_cache_groups (co_config co))"
    using d a(5,7) s by simp_all
  obtain s' where b: "rfold (group_lookup co hashes limit) xs s1 = Inr s'" "0 \<le> curr_hit_length s'" "curr_hit_length s' \<le> curr_hit_length s1"
    "xs \<noteq> [] \<longrightarrow> curr_hit_length s' mod co_scheduler_block_size co = 0" "length (hit_blocks_by_group s') = length (hit_blocks_by_group s1)"
    "\<forall>i. 0 \<le> i \<and> i \<notin> set (concat (map (\<lambda>x. sg_group_ids (snd x)) xs)) \<longrightarrow> hit_blocks_by_group s' ! nat i = hit_blocks_by_group s1 ! nat i"
    "\<forall>x \<in> set xs. \<exists>L. group_hit co hashes s' (snd x) L \<and> curr_hit_length s' \<le> int L * group_bs (snd x) \<and>
       int L * group_bs (snd x) \<le> curr_hit_length s1"
    "\<forall>x. xs = [x] \<longrightarrow> (\<exists>L. group_hit co hashes s' (snd x) L \<and> int L * group_bs (snd x) = curr_hit_length s')"
    "\<forall>n. 0 \<le> n \<and> n \<le> curr_hit_length s1 \<and> n mod co_scheduler_block_size co = 0 \<and> (\<forall>x \<in> set xs. group_usable co hashes n (snd x)) \<longrightarrow>
       n \<le> curr_hit_length s'"
    using pass_ok [OF c h l go(2) d' a(4) s1] by (elim exE conjE)
  have "\<forall>i \<in> set (sg_group_ids g0). hit_blocks_by_group s' ! nat i = hit_blocks_by_group s1 ! nat i"
    using b(6) go(1) d by (auto simp: group_ok_def gids_ok_def list_all_iff)
  then have g0h: "group_hit co hashes s' g0 L" using a(2) by (simp only: group_hit_cong)
  have al: "curr_hit_length s' mod co_scheduler_block_size co = 0" using a(6) b(1,4) by (cases "xs = []") auto
  have hits: "\<exists>L. group_hit co hashes s' g L \<and> curr_hit_length s' \<le> int L * group_bs g \<and>
      (\<not> is_FullAttentionSpec (sg_spec g) \<and> (curr_hit_length s' = curr_hit_length s \<or> is_simple_hybrid co) \<longrightarrow>
        int L * group_bs g = curr_hit_length s')" if "g \<in> set (g0 # gt)" for g
  proof (cases "g = g0")
    case True
    then have "is_simple_hybrid co \<Longrightarrow> is_FullAttentionSpec (sg_spec g)" using g0 by (auto simp: is_simple_hybrid_def split: list.splits)
    then show ?thesis using True g0h a(3,9) b(3) a(5) by (intro exI [of _ L]) auto
  next
    case False
    then have "g \<in> set gt" using that by simp
    then obtain x where x: "x \<in> set xs" "g = snd x" unfolding gt by blast
    show ?thesis
    proof (cases "is_simple_hybrid co")
      case True
      then have "xs = [x]" using xs(1) x(1) g0 by (auto simp: is_simple_hybrid_def split: list.splits)
      then obtain L' where "group_hit co hashes s' g L'" "int L' * group_bs g = curr_hit_length s'" using b(8) x(2) by blast
      then show ?thesis by auto
    next
      case False
      obtain L' where "group_hit co hashes s' g L'" "curr_hit_length s' \<le> int L' * group_bs g" "int L' * group_bs g \<le> curr_hit_length s1"
        using b(7) x by blast
      then show ?thesis using False a(5) by (intro exI [of _ L']) auto
    qed
  qed
  have "groups_pass co hashes limit s = Inr s'" using a(1) b(1) by (simp add: groups_pass_def xs(2))
  moreover have "k \<le> curr_hit_length s'" if "0 \<le> k" "k \<le> curr_hit_length s" "k mod co_scheduler_block_size co = 0"
    "\<forall>g \<in> set (g0 # gt). group_usable co hashes k g" for k
  proof -
    have "\<forall>x \<in> set xs. group_usable co hashes k (snd x)" using that(4) gt by auto
    then show ?thesis using that a(8) b(9) by simp
  qed
  ultimately show ?thesis using b(2,3,5) a(5,7) al hits s(3) unfolding pass_result_def g0 by (intro exI [of _ s']) auto
qed

section \<open>The fixed point\<close>

definition loop_result :: "coordinator \<Rightarrow> bytes list \<Rightarrow> int \<Rightarrow> int \<Rightarrow> hit_state \<Rightarrow> bool" where
  "loop_result co hashes n m s' \<longleftrightarrow> 0 \<le> m \<and> m \<le> n \<and> m mod co_scheduler_block_size co = 0 \<and>
    length (hit_blocks_by_group s') = length (kv_cache_groups (co_config co)) \<and>
    (\<forall>g \<in> set (co_attention_groups co). \<exists>L. group_hit co hashes s' g L \<and> m \<le> int L * group_bs g \<and>
       (\<not> is_FullAttentionSpec (sg_spec g) \<longrightarrow> int L * group_bs g = m)) \<and>
    (\<forall>k. 0 \<le> k \<and> k \<le> n \<and> k mod co_scheduler_block_size co = 0 \<and> (\<forall>g \<in> set (co_attention_groups co). group_usable co hashes k g) \<longrightarrow> k \<le> m)"

lemma pass_loop_result:
  assumes "pass_result co hashes n s'" "curr_hit_length s' = n \<or> is_simple_hybrid co"
  shows "loop_result co hashes n (curr_hit_length s') s'"
  using assms unfolding pass_result_def loop_result_def by simp

lemma group_hit_curr [simp]: "group_hit co hashes (s\<lparr>curr_hit_length := n\<rparr>) g L = group_hit co hashes s g L"
  by (simp add: group_hit_def recorded_def)

lemma hit_loop_ok:
  assumes c: "cache_inv (co_pool co)" and ok: "hybrid_ok co" and g0: "co_attention_groups co = g0 # gt"
    and l: "limit div co_hash_block_size co \<le> int (length hashes)"
    and "0 \<le> n" "n \<le> limit" "length (hit_blocks_by_group s) = length (kv_cache_groups (co_config co))" "full_inv co hashes g0 n s"
  shows "\<exists>m s'. hit_loop co hashes limit n s = Some (Inr (m, s')) \<and> loop_result co hashes n m s'"
  using assms(5-)
proof (induction "nat n" arbitrary: n s rule: less_induct)
  case less
  let ?s = "s\<lparr>curr_hit_length := n\<rparr>"
  have i: "0 \<le> curr_hit_length ?s" "curr_hit_length ?s \<le> limit" "length (hit_blocks_by_group ?s) = length (kv_cache_groups (co_config co))"
    "full_inv co hashes g0 (curr_hit_length ?s) ?s" using less.prems by (simp_all add: full_inv_def)
  obtain s' where p: "groups_pass co hashes limit ?s = Inr s'" "pass_result co hashes n s'"
    using groups_pass_ok [OF c ok g0 l i] by auto
  have b: "0 \<le> curr_hit_length s'" "curr_hit_length s' \<le> n" using p(2) by (simp_all add: pass_result_def)
  show ?case
  proof (cases "curr_hit_length s' = n \<or> is_simple_hybrid co")
    case True
    then have "hit_loop co hashes limit n s = Some (Inr (curr_hit_length s', s'))"
      by (subst hit_loop.simps) (use p(1) b in auto)
    then show ?thesis using pass_loop_result [OF p(2) True] by blast
  next
    case False
    then have e: "hit_loop co hashes limit n s = hit_loop co hashes limit (curr_hit_length s') s'"
      by (subst hit_loop.simps) (use p(1) b in simp)
    have "nat (curr_hit_length s') < nat n" using False b by simp
    moreover have "length (hit_blocks_by_group s') = length (kv_cache_groups (co_config co))" "full_inv co hashes g0 (curr_hit_length s') s'"
      using p(2) g0 unfolding pass_result_def full_inv_def by auto
    ultimately obtain m s'' where m: "hit_loop co hashes limit (curr_hit_length s') s' = Some (Inr (m, s''))"
      "loop_result co hashes (curr_hit_length s') m s''"
      using less.hyps [of "curr_hit_length s'" s'] b less.prems(2) by auto
    have "loop_result co hashes n m s''"
      using m(2) p(2) b unfolding loop_result_def pass_result_def by auto
    then show ?thesis using m(1) e by simp
  qed
qed

lemma truncate_cols:
  fixes f :: "'a \<Rightarrow> 'a"
  assumes "distinct ids" "\<forall>i \<in> set ids. 0 \<le> i \<and> i < int (length h)"
  defines "h' \<equiv> fold (\<lambda>gid h. h[nat gid := map_option f (h ! nat gid)]) ids h"
  shows "length h' = length h \<and> (\<forall>i \<in> set ids. h' ! nat i = map_option f (h ! nat i)) \<and>
    (\<forall>i. 0 \<le> i \<and> i \<notin> set ids \<longrightarrow> h' ! nat i = h ! nat i)"
  using assms(1,2) unfolding h'_def
proof (induction ids arbitrary: h)
  case (Cons i ids)
  let ?h = "h[nat i := map_option f (h ! nat i)]" and ?h' = "fold (\<lambda>gid h. h[nat gid := map_option f (h ! nat gid)]) (i # ids) h"
  have I: "length ?h' = length ?h" "\<And>k. k \<in> set ids \<Longrightarrow> ?h' ! nat k = map_option f (?h ! nat k)"
    "\<And>k. 0 \<le> k \<Longrightarrow> k \<notin> set ids \<Longrightarrow> ?h' ! nat k = ?h ! nat k"
    using Cons.IH [of ?h] Cons.prems by auto
  have o: "?h ! nat k = h ! nat k" if "0 \<le> k" "k \<noteq> i" for k using that Cons.prems(2) by (simp add: nat_eq_iff)
  have "?h' ! nat i = map_option f (h ! nat i)" using I(3) [of i] Cons.prems by (simp add: nat_less_iff)
  moreover have "?h' ! nat k = map_option f (h ! nat k)" if "k \<in> set ids" for k
  proof -
    have "0 \<le> k" "k \<noteq> i" using that Cons.prems by auto
    then show ?thesis using I(2) [OF that] o by simp
  qed
  moreover have "?h' ! nat k = h ! nat k" if "0 \<le> k" "k \<notin> set (i # ids)" for k using I(3) [of k] o [of k] that by simp
  ultimately show ?case using I(1) by simp
qed simp

text \<open>The lists returned for a group: the recorded ones, cut to the hit length.\<close>

lemma truncate_group:
  assumes ok: "hybrid_ok co" and g: "g \<in> set (co_attention_groups co)" and l: "length (hit_blocks_by_group s) = length (kv_cache_groups (co_config co))"
    and r: "recorded s g cols" and k: "k < length (sg_group_ids g)"
  shows "truncate_first co n (hit_blocks_by_group s) ! nat (sg_group_ids g ! k) =
    Some (if is_FullAttentionSpec (sg_spec g) then py_upto (cols ! k) (n div group_bs g) else cols ! k)"
proof -
  let ?h = "hit_blocks_by_group s" and ?i = "sg_group_ids g ! k"
  obtain g0 gt where g0: "co_attention_groups co = g0 # gt" using g by (cases "co_attention_groups co") auto
  have go: "group_ok co g0" "group_ok co g" using ok g g0 by (auto simp: hybrid_ok_def)
  have "?h ! nat ?i = map (\<lambda>i. ?h ! nat i) (sg_group_ids g) ! k" using k by simp
  also have "\<dots> = Some (cols ! k)" using r k unfolding recorded_def by (metis length_map nth_map)
  finally have c: "?h ! nat ?i = Some (cols ! k)" .
  have i: "?i \<in> set (sg_group_ids g)" "0 \<le> ?i" using k go(2) nth_mem [OF k] by (auto simp: group_ok_def gids_ok_def list_all_iff)
  show ?thesis
  proof (cases "is_FullAttentionSpec (sg_spec g0)")
    case False
    then have "\<not> is_FullAttentionSpec (sg_spec g)" using ok g g0 by (auto simp: hybrid_ok_def)
    then show ?thesis using False c by (simp add: truncate_first_def g0)
  next
    case True
    have T: "\<And>i. i \<in> set (sg_group_ids g0) \<Longrightarrow> truncate_first co n ?h ! nat i = map_option (\<lambda>bl. py_upto bl (n div group_bs g0)) (?h ! nat i)"
      "\<And>i. 0 \<le> i \<Longrightarrow> i \<notin> set (sg_group_ids g0) \<Longrightarrow> truncate_first co n ?h ! nat i = ?h ! nat i"
      using truncate_cols [of "sg_group_ids g0" ?h "\<lambda>bl. py_upto bl (n div group_bs g0)"] go(1) l True
      by (auto simp: truncate_first_def g0 group_ok_def gids_ok_def list_all_iff)
    show ?thesis
    proof (cases "g = g0")
      case g': True
      then show ?thesis using T(1) [of ?i] True i c by simp
    next
      case False
      then have gt: "g \<in> set gt" using g g0 by simp
      then have "\<not> is_FullAttentionSpec (sg_spec g)" using ok g0 by (simp add: hybrid_ok_def)
      moreover have "?i \<notin> set (sg_group_ids g0)" using ok g0 gt i(1) by (auto simp: hybrid_ok_def)
      ultimately show ?thesis using T(2) i c by simp
    qed
  qed
qed

lemma hybrid_start:
  assumes c: "cache_inv (co_pool co)" and ok: "hybrid_ok co" and n: "0 \<le> limit" "limit div co_hash_block_size co \<le> int (length hashes)"
  obtains m s where "hybrid_find_longest_cache_hit hashes limit co =
      Some (Inr (map (\<lambda>b. case b of None \<Rightarrow> [] | Some bl \<Rightarrow> bl) (truncate_first co m (hit_blocks_by_group s)), m,
        co\<lparr>num_uncached_common_prefix_tokens := longest_hit_length s - m\<rparr>))"
    "loop_result co hashes limit m s"
proof -
  obtain g0 gt where g0: "co_attention_groups co = g0 # gt" using ok by (cases "co_attention_groups co") (auto simp: hybrid_ok_def)
  let ?s = "\<lparr>curr_hit_length = limit, longest_hit_length = 0, hit_blocks_by_group = replicate (length (kv_cache_groups (co_config co))) None,
    eagle_verified = []\<rparr>"
  have "group_ok co g0" using ok g0 by (simp add: hybrid_ok_def)
  then have "hd (sg_group_ids g0) < int (length (kv_cache_groups (co_config co)))" "0 \<le> hd (sg_group_ids g0)"
    by (cases "sg_group_ids g0"; simp add: group_ok_def gids_ok_def)+
  then have "full_inv co hashes g0 limit ?s" by (simp add: full_inv_def nat_less_iff)
  then obtain m s where m: "hit_loop co hashes limit limit ?s = Some (Inr (m, s))" "loop_result co hashes limit m s"
    using hit_loop_ok [OF c ok g0 n(2,1), of ?s] by auto
  then show ?thesis using that [of m s] by (simp add: hybrid_find_longest_cache_hit_def)
qed

text \<open>What the result holds for a group.\<close>

definition group_result :: "coordinator \<Rightarrow> bytes list \<Rightarrow> kv_ref list list \<Rightarrow> int \<Rightarrow> spec_group \<Rightarrow> bool" where
  "group_result co hashes blocks n g \<longleftrightarrow> (\<exists>cols.
    (\<forall>k < length (sg_group_ids g). blocks ! nat (sg_group_ids g ! k) = cols ! k) \<and>
    hit_blocks (get_num_skipped_tokens (sg_spec g)) (group_bs g) (co_pool co) (sg_group_ids g) (group_hashes co hashes g)
      (nat (n div group_bs g)) cols)"

lemma group_resultI:
  assumes ok: "hybrid_ok co" and g: "g \<in> set (co_attention_groups co)" and r: "loop_result co hashes limit m s"
  shows "group_result co hashes (map (\<lambda>b. case b of None \<Rightarrow> [] | Some bl \<Rightarrow> bl) (truncate_first co m (hit_blocks_by_group s))) m g"
proof -
  let ?n = "nat (m div group_bs g)" and ?h = "truncate_first co m (hit_blocks_by_group s)"
  have go: "group_ok co g" using ok g by (simp add: hybrid_ok_def)
  have m: "0 \<le> m" "m mod co_scheduler_block_size co = 0" and len: "length (hit_blocks_by_group s) = length (kv_cache_groups (co_config co))"
    using r by (simp_all add: loop_result_def)
  obtain L where L: "group_hit co hashes s g L" "m \<le> int L * group_bs g" "\<not> is_FullAttentionSpec (sg_spec g) \<longrightarrow> int L * group_bs g = m"
    using r g unfolding loop_result_def by blast
  then obtain cols where cols: "recorded s g cols"
    "hit_blocks (get_num_skipped_tokens (sg_spec g)) (group_bs g) (co_pool co) (sg_group_ids g) (group_hashes co hashes g) L cols"
    by (auto simp: group_hit_def)
  have bs: "0 < group_bs g" using group_bs_pos [OF go] by simp
  have n: "int ?n * group_bs g = m" using aligned_blocks [OF go m(2,1)] .
  then have nL: "?n \<le> L" using L(2) bs by (metis mult_le_cancel_right of_nat_le_iff not_less)
  define cols' where "cols' = (if is_FullAttentionSpec (sg_spec g) then map (take ?n) cols else cols)"
  have lc: "length cols = length (sg_group_ids g)" using cols(2) by (simp add: hit_blocks_def cols_len_def)
  have up: "py_upto bl (m div group_bs g) = take ?n bl" for bl :: "kv_ref list"
  proof -
    have "\<not> m div group_bs g < 0" using bs m(1) by (simp add: pos_imp_zdiv_neg_iff)
    then show ?thesis by (simp add: py_upto_def slice_bound_def min_def)
  qed
  have "length ?h = length (hit_blocks_by_group s)"
    using truncate_cols [of "sg_group_ids (hd (co_attention_groups co))" "hit_blocks_by_group s"] ok len
    by (cases "co_attention_groups co") (auto simp: truncate_first_def hybrid_ok_def group_ok_def gids_ok_def list_all_iff)
  moreover have "sg_group_ids g ! k < int (length (kv_cache_groups (co_config co)))" "0 \<le> sg_group_ids g ! k" if "k < length (sg_group_ids g)" for k
    using go nth_mem [OF that] by (auto simp: group_ok_def gids_ok_def list_all_iff)
  ultimately have "\<forall>k < length (sg_group_ids g). map (\<lambda>b. case b of None \<Rightarrow> [] | Some bl \<Rightarrow> bl) ?h ! nat (sg_group_ids g ! k) = cols' ! k"
    using truncate_group [OF ok g len cols(1), of _ m] len lc unfolding up by (simp add: cols'_def nat_less_iff)
  moreover have "hit_blocks (get_num_skipped_tokens (sg_spec g)) (group_bs g) (co_pool co) (sg_group_ids g) (group_hashes co hashes g) ?n cols'"
  proof (cases "is_FullAttentionSpec (sg_spec g)")
    case True
    then have "\<forall>j < L. hit (co_pool co) (sg_group_ids g) (group_hashes co hashes g ! j) (col_at j cols)" "cols_len L (sg_group_ids g) cols"
      using cols(2) skipped_full [OF True] by (auto simp: hit_blocks_def)
    then show ?thesis using hit_blocks_prefix nL True by (simp add: cols'_def)
  next
    case False
    then have "?n = L" using L(3) n bs by (metis mult_right_cancel of_nat_eq_iff less_irrefl)
    then show ?thesis using cols(2) False by (simp add: cols'_def)
  qed
  ultimately show ?thesis unfolding group_result_def by blast
qed

section \<open>A coordinator to evaluate\<close>

text \<open>The blocks of a request are cached for two groups.\<close>

definition ex_pool4 :: block_pool where
  "ex_pool4 = snd (projr (get_new_blocks 2 ex_pool3))"

definition ex_pool5 :: block_pool where
  "ex_pool5 = projr (cache_full_blocks id (ex_hashed [5, 6, 7, 8]) [Blk 3, Blk 4] 0 2 2 1 None ex_pool4)"

definition ex_reg5 :: registry where
  "ex_reg5 = (\<lambda>b. (if b \<in> {Blk 3, Blk 4} then {} else ex_reg3 b) \<union>
    {(ex_hashed [5, 6, 7, 8], (int i + 1) * 2, 1) | i. 0 \<le> int i \<and> int i < 2 \<and> [Blk 3, Blk 4] ! i = b})"

lemma ex_pool3_inv:
  "pool_inv ex_pool3 [Blk 3, Blk 4, Blk 5]" "pool_config ex_pool3 = (6, True, 2, Blk 0, False, False)"
  "i < 2 \<Longrightarrow> \<exists>key. make_block_hash_with_group_id (rq_block_hashes (ex_hashed [5, 6, 7, 8]) ! i) 0 = Inr key \<and> keys_of ex_pool3 (Blk (Suc i)) = [key]"
proof -
  have k: "list_all (known ex_pool2) [Blk 1, Blk 2]" using ex_in_pool by (simp add: known_def)
  have d: "distinct (filter (in_pool ex_pool2) [Blk 1, Blk 2])" by simp
  note C = cache_full_blocks_ok [OF ex_pool2_inv(2,3) k d _ _ ex_pool3_ok(1), simplified]
  show "pool_inv ex_pool3 [Blk 3, Blk 4, Blk 5]" using C(1,2) ex_pool2_inv(2) alloc_inv_same [of ex_pool2 ex_pool3] by (simp add: pool_inv_def)
  show "pool_config ex_pool3 = (6, True, 2, Blk 0, False, False)"
    using same_allocD [OF C(1)] get_new_blocks_inr(4) [OF ex_pool_ok(2) _ ex_pool2_ok(1)] ex_pool_ok(3) by simp
  assume i: "i < 2"
  have "registers ex_pool2 None 0 (Blk 1)" "registers ex_pool2 None 1 (Blk 2)" using ex_in_pool by (simp_all add: registers_def masked_out_def)
  then show "\<exists>key. make_block_hash_with_group_id (rq_block_hashes (ex_hashed [5, 6, 7, 8]) ! i) 0 = Inr key \<and> keys_of ex_pool3 (Blk (Suc i)) = [key]"
    using C(3) [of i] ex_pool3_ok(2) less_2_cases [OF i] by (auto simp: numeral_2_eq_2)
qed

lemma ex_pool4_ok:
  "get_new_blocks 2 ex_pool3 = Inr ([Blk 3, Blk 4], ex_pool4)" "pool_inv ex_pool4 [Blk 5]"
  "pool_config ex_pool4 = (6, True, 2, Blk 0, False, False)"
  "keys_of ex_pool4 b = (if b \<in> {Blk 3, Blk 4} then [] else keys_of ex_pool3 b)"
proof -
  show e: "get_new_blocks 2 ex_pool3 = Inr ([Blk 3, Blk 4], ex_pool4)"
    using get_new_blocks_ok [OF ex_pool3_inv(1), of 2] by (auto simp: ex_pool4_def)
  note G = get_new_blocks_inr [OF ex_pool3_inv(1) _ e]
  show "pool_inv ex_pool4 [Blk 5]" "pool_config ex_pool4 = (6, True, 2, Blk 0, False, False)"
    "keys_of ex_pool4 b = (if b \<in> {Blk 3, Blk 4} then [] else keys_of ex_pool3 b)"
    using G(3,4) G(6) [of b] ex_pool3_inv(2) ex_pool3_ok(5) by simp_all
qed

lemma ex_pool5_ok:
  "pool_reach id (hashes_ok 2 ex_hash [0] id) (ex_pool5, {#Blk 1, Blk 2, Blk 3, Blk 4#}, ex_reg5)"
  "hash_block_size ex_pool5 = 2" "enable_caching ex_pool5" "null_block ex_pool5 = Blk 0"
  "i < 2 \<Longrightarrow> g \<in> {0, 1} \<Longrightarrow> cached ex_pool5 [g] (rq_block_hashes (ex_hashed [5, 6, 7, 8]) ! i)"
proof -
  let ?r = "ex_hashed [5, 6, 7, 8]"
  have c4: "alloc_inv ex_pool4 [Blk 5]" "cache_inv ex_pool4" using ex_pool4_ok(2) by (simp_all add: pool_inv_def)
  have cf: "num_gpu_blocks ex_pool4 = 6" "enable_kv_cache_events ex_pool4 = False" "hash_block_size ex_pool4 = 2"
    using ex_pool4_ok(3) by (simp_all add: pool_config_def)
  have ip: "in_pool ex_pool4 (Blk 1)" "in_pool ex_pool4 (Blk 2)" "in_pool ex_pool4 (Blk 3)" "in_pool ex_pool4 (Blk 4)"
    using cf(1) by (simp_all add: in_pool_def)
  have k: "list_all (known ex_pool4) [Blk 3, Blk 4]" using ip by (simp add: known_def)
  have h: "hashes_at ex_pool4 ?r 2 = Inr (rq_block_hashes ?r)" using cf by (simp add: hashes_at_def)
  have l: "length (rq_block_hashes ?r) = 2" by (simp add: ex_hashed_def)
  have z: "keys_of ex_pool4 ([Blk 3, Blk 4] ! i) = []" if "int i < 2" for i
  proof -
    have "i = 0 \<or> i = 1" using that by linarith
    then show ?thesis using ex_pool4_ok(4) by auto
  qed
  obtain p' where "cache_full_blocks id ?r [Blk 3, Blk 4] 0 2 2 1 None ex_pool4 = Inr p'"
    using cache_full_blocks_succeeds [OF c4 _ k _ _ _ _ _ h, of 0 2 1 None id] cf l z ip by auto
  then have c: "cache_full_blocks id ?r [Blk 3, Blk 4] 0 2 2 1 None ex_pool4 = Inr ex_pool5" by (simp add: ex_pool5_def)
  have d: "distinct (filter (in_pool ex_pool4) [Blk 3, Blk 4])" by simp
  note C = cache_full_blocks_ok [OF c4 k d _ _ c, simplified]
  have pc: "pool_config ex_pool5 = pool_config ex_pool4" using same_allocD [OF C(1)] .
  then show "hash_block_size ex_pool5 = 2" "enable_caching ex_pool5" "null_block ex_pool5 = Blk 0"
    using ex_pool4_ok(3) by (simp_all add: pool_config_def)
  have r4: "pool_reach id (hashes_ok 2 ex_hash [0] id) (ex_pool4, {#Blk 1, Blk 2#} + mset [Blk 3, Blk 4],
      \<lambda>b. if b \<in> set [Blk 3, Blk 4] then {} else ex_reg3 b)"
    using pool_reach.step [OF ex_pool3_ok(3) pool_step.allocate [OF _ ex_pool4_ok(1)]] by simp
  show "pool_reach id (hashes_ok 2 ex_hash [0] id) (ex_pool5, {#Blk 1, Blk 2, Blk 3, Blk 4#}, ex_reg5)"
    using pool_reach.step [OF r4 pool_step.cache_full [OF k _ _ _ c, where okr = "hashes_ok 2 ex_hash [0] id"]] ex_hashed_ok
    by (simp add: ex_reg5_def add_mset_commute)
  assume i: "i < 2" and g: "g \<in> {0, 1}"
  have hit: "cached ex_pool5 [g] hh" if "make_block_hash_with_group_id hh g = Inr key" "keys_of ex_pool5 b = [key]" "in_pool ex_pool4 b" for hh key b
    using that pool_config_fun [OF pc] unfolding cached_def hit_def by (intro exI [of _ "[b]"]) simp
  have reg: "registers ex_pool4 None 0 (Blk 3)" "registers ex_pool4 None 1 (Blk 4)" using ip by (simp_all add: registers_def masked_out_def)
  have one: "\<exists>key. make_block_hash_with_group_id (rq_block_hashes ?r ! i) 1 = Inr key \<and> keys_of ex_pool5 (Blk (3 + i)) = [key]"
    using C(3) [of i] h reg less_2_cases [OF i] by (auto simp: eval_nat_numeral)
  have "keys_of ex_pool5 (Blk (Suc i)) = keys_of ex_pool4 (Blk (Suc i))"
  proof (rule C(4))
    fix j :: nat assume "j < 2" "[Blk 3, Blk 4] ! j = Blk (Suc i)"
    then show "\<not> registers ex_pool4 None (int j) (Blk (Suc i))" using i by (auto simp: less_2_cases_iff)
  qed
  then have zero: "\<exists>key. make_block_hash_with_group_id (rq_block_hashes ?r ! i) 0 = Inr key \<and> keys_of ex_pool5 (Blk (Suc i)) = [key]"
    using ex_pool3_inv(3) [OF i] ex_pool4_ok(4) less_2_cases [OF i] by auto
  have "in_pool ex_pool4 (Blk (3 + i))" "in_pool ex_pool4 (Blk (Suc i))" using ip less_2_cases [OF i] by (auto simp: eval_nat_numeral)
  then show "cached ex_pool5 [g] (rq_block_hashes ?r ! i)" using one zero hit g by auto
qed

definition ex_config :: "kv_spec \<Rightarrow> kv_cache_config" where
  "ex_config spec = \<lparr>num_blocks = 6, kv_cache_groups =
    [\<lparr>group_spec = FullAttentionSpec (ex_full 2 128), is_eagle_group = False\<rparr>, \<lparr>group_spec = spec, is_eagle_group = False\<rparr>]\<rparr>"

definition ex_hybrid :: "bool \<Rightarrow> kv_spec \<Rightarrow> coordinator" where
  "ex_hybrid use_eagle spec = projr (get_kv_cache_coordinator (ex_config spec) 100 64 use_eagle True False False 1 1 2 2 None)"

definition ex_mamba :: kv_spec where
  "ex_mamba = MambaSpec \<lparr>ms_block_size = 2, ms_shapes = [[4]], ms_dtypes = [ex_dtype], ms_page_size_padded = None,
    ms_mamba_type = ''mamba2'', mamba_cache_mode = ''align'', num_speculative_blocks = 0\<rparr>"

lemma ex_pool_init: "pool_init 6 True 2 False False = Inr ex_pool"
proof -
  obtain p where "pool_init 6 True 2 False False = Inr p"
    using pool_init_ok [of 6 True 2 False False, OF zero_less_numeral] by (elim exE conjE)
  then show ?thesis by (simp add: ex_pool_def)
qed

lemma ex_hybrid_groups:
  assumes "get_manager_class spec = Some cls" "cls \<noteq> SinkFullAttentionManager" "spec_block_size spec = 2" "\<not> is_FullAttentionSpec spec"
  shows "get_kv_cache_coordinator (ex_config spec) 100 64 ue True False False 1 1 2 2 None = Inr (ex_hybrid ue spec)"
    "co_attention_groups (ex_hybrid ue spec) =
      [\<lparr>sg_spec = FullAttentionSpec (ex_full 2 128), sg_group_ids = [0], sg_manager_cls = FullAttentionManager, sg_use_eagle = ue\<rparr>,
       \<lparr>sg_spec = spec, sg_group_ids = [1], sg_manager_cls = cls, sg_use_eagle = ue\<rparr>]"
    "co_config (ex_hybrid ue spec) = ex_config spec" "co_scheduler_block_size (ex_hybrid ue spec) = 2" "co_hash_block_size (ex_hybrid ue spec) = 2"
proof -
  have e: "eagle_group_ids (ex_config spec) ue = (if ue then [0, 1] else [])"
    by (simp add: eagle_group_ids_def ex_config_def upto_rec1)
  have ns: "FullAttentionSpec (ex_full 2 128) \<noteq> spec" using assms(4) by auto
  obtain m0 where m0: "get_manager_for_kv_cache_spec (FullAttentionSpec (ex_full 2 128)) 64 100 (null_block ex_pool) True 0 2 1 1
      (needs_kv_cache_zeroing (ex_config spec)) = Inr m0" by (simp add: get_manager_for_kv_cache_spec_def)
  obtain m1 where m1: "get_manager_for_kv_cache_spec spec 64 100 (null_block ex_pool) True 1 2 1 1
      (needs_kv_cache_zeroing (ex_config spec)) = Inr m1" using assms(1,2) by (simp add: get_manager_for_kv_cache_spec_def Let_def)
  have c: "mg_class m0 = FullAttentionManager" "mg_class m1 = cls" using get_manager_fresh(1) [OF m0] get_manager_fresh(1) [OF m1] assms(1) by simp_all
  define co0 where "co0 = \<lparr>co_kind = Hybrid, co_config = ex_config spec, co_managers = [m0, m1], co_pool = ex_pool, co_enable_caching = True,
      co_scheduler_block_size = 2, co_hash_block_size = 2, co_eagle_group_ids = eagle_group_ids (ex_config spec) ue,
      co_retention_interval = None, co_block_size = 2, co_dcp_world_size = 1, co_pcp_world_size = 1,
      co_attention_groups = [], num_uncached_common_prefix_tokens = 0\<rparr>"
  have b: "base_init Hybrid (ex_config spec) 100 64 ue True False False 1 1 2 2 None = Inr co0"
    using m0 m1 assms(3) ex_pool_init unfolding base_init_def co0_def
    by (simp add: ex_config_def ex_full_def validate_prefix_cache_retention_interval_def)
  have s: "split_groups co0 = Inr
      [\<lparr>sg_spec = FullAttentionSpec (ex_full 2 128), sg_group_ids = [0], sg_manager_cls = FullAttentionManager, sg_use_eagle = ue\<rparr>,
       \<lparr>sg_spec = spec, sg_group_ids = [1], sg_manager_cls = cls, sg_use_eagle = ue\<rparr>]"
    using c ns unfolding split_groups_def co0_def e by (simp add: ex_config_def)
  have h: "\<exists>ms. hybrid_init co0 = Inr (co0\<lparr>co_attention_groups :=
      [\<lparr>sg_spec = FullAttentionSpec (ex_full 2 128), sg_group_ids = [0], sg_manager_cls = FullAttentionManager, sg_use_eagle = ue\<rparr>,
       \<lparr>sg_spec = spec, sg_group_ids = [1], sg_manager_cls = cls, sg_use_eagle = ue\<rparr>], co_managers := ms\<rparr>)"
    using assms(3,4) unfolding hybrid_init_def s rbind.simps by (simp add: co0_def ex_config_def ex_full_def Let_def)
  then obtain ms where co: "get_kv_cache_coordinator (ex_config spec) 100 64 ue True False False 1 1 2 2 None = Inr (co0\<lparr>co_attention_groups :=
      [\<lparr>sg_spec = FullAttentionSpec (ex_full 2 128), sg_group_ids = [0], sg_manager_cls = FullAttentionManager, sg_use_eagle = ue\<rparr>,
       \<lparr>sg_spec = spec, sg_group_ids = [1], sg_manager_cls = cls, sg_use_eagle = ue\<rparr>], co_managers := ms\<rparr>)"
    using b by (auto simp: get_kv_cache_coordinator_def) (simp_all add: ex_config_def)
  show "get_kv_cache_coordinator (ex_config spec) 100 64 ue True False False 1 1 2 2 None = Inr (ex_hybrid ue spec)"
    "co_attention_groups (ex_hybrid ue spec) =
      [\<lparr>sg_spec = FullAttentionSpec (ex_full 2 128), sg_group_ids = [0], sg_manager_cls = FullAttentionManager, sg_use_eagle = ue\<rparr>,
       \<lparr>sg_spec = spec, sg_group_ids = [1], sg_manager_cls = cls, sg_use_eagle = ue\<rparr>]"
    "co_config (ex_hybrid ue spec) = ex_config spec" "co_scheduler_block_size (ex_hybrid ue spec) = 2" "co_hash_block_size (ex_hybrid ue spec) = 2"
    by (simp_all add: ex_hybrid_def co co0_def)
qed

lemma ex_hybrid_ok:
  assumes "get_manager_class spec = Some cls" "cls \<noteq> SinkFullAttentionManager" "spec_block_size spec = 2" "\<not> is_FullAttentionSpec spec"
    and "droppable cls spec ue 2 1 1"
  shows "hybrid_ok ((ex_hybrid ue spec)\<lparr>co_pool := p\<rparr>)"
proof -
  have "droppable FullAttentionManager (FullAttentionSpec (ex_full 2 128)) ue 2 1 1"
    by (simp add: droppable_def finder_supported_def supported_defs group_block_size_def ex_full_def)
  then show ?thesis using assms ex_hybrid_groups [OF assms(1-4), of ue]
    by (simp add: hybrid_ok_def group_ok_def gids_ok_def) (simp add: ex_config_def ex_full_def)
qed

lemma ex_window_droppable:
  "get_manager_class (ex_window 2 3) = Some SlidingWindowManager" "spec_block_size (ex_window 2 3) = 2" "\<not> is_FullAttentionSpec (ex_window 2 3)"
  "droppable SlidingWindowManager (ex_window 2 3) d 2 1 1"
  by (simp_all add: ex_window_def ex_attn_def droppable_def finder_supported_def supported_defs)

section \<open>Properties\<close>

text \<open>C31. The hybrid coordinator is built consistently: from any configuration with several
  groups, whose specs are supported by their managers (with the EAGLE drop where the group is
  flagged) and contain at most one full-attention spec, the constructor either raises or
  returns a coordinator whose attention groups partition the KV cache groups by their specs, full attention first.  Each KV cache group is a member of exactly one
  attention group, which has its spec and the manager class registered for the spec, the class of the manager of the KV cache
  group; the attention group uses EAGLE exactly when one of its members is flagged, and then the managers of all its
  members use EAGLE, and otherwise none of them.\<close>

theorem hybrid_construction:
  assumes "get_kv_cache_coordinator c mml mbt use_eagle True ev ui dcp pcp sbs hbs ret = Inr co"
    and "1 < length (kv_cache_groups c)" "length (kv_cache_groups c) \<le> 2 ^ 32" "0 < hbs"
    and "\<forall>i < length (kv_cache_groups c). droppable (the (get_manager_class (group_spec (kv_cache_groups c ! i))))
      (group_spec (kv_cache_groups c ! i)) (int i \<in> set (eagle_group_ids c use_eagle)) sbs 1 1"
    and "\<forall>g \<in> set (kv_cache_groups c). \<forall>g' \<in> set (kv_cache_groups c).
      is_FullAttentionSpec (group_spec g) \<and> is_FullAttentionSpec (group_spec g') \<longrightarrow> group_spec g = group_spec g'"
  shows "hybrid_ok co \<and>
    (\<forall>i < length (kv_cache_groups c). \<exists>g \<in> set (co_attention_groups co). int i \<in> set (sg_group_ids g) \<and>
      (\<forall>g' \<in> set (co_attention_groups co). int i \<in> set (sg_group_ids g') \<longrightarrow> g' = g) \<and>
      sg_spec g = group_spec (kv_cache_groups c ! i) \<and> get_manager_class (sg_spec g) = Some (sg_manager_cls g) \<and>
      (sg_use_eagle g \<longleftrightarrow> (\<exists>j \<in> set (sg_group_ids g). j \<in> set (eagle_group_ids c use_eagle))) \<and>
      mg_class (co_managers co ! i) = sg_manager_cls g \<and> mg_use_eagle (co_managers co ! i) = sg_use_eagle g) \<and>
    mset (concat (map sg_group_ids (co_attention_groups co))) = mset (map int [0..<length (kv_cache_groups c)]) \<and>
    distinct (map sg_spec (co_attention_groups co)) \<and>
    (\<exists>k. (\<forall>g \<in> set (take k (co_attention_groups co)). is_FullAttentionSpec (sg_spec g)) \<and>
      (\<forall>g \<in> set (drop k (co_attention_groups co)). \<not> is_FullAttentionSpec (sg_spec g))) \<and>
    pool_init (num_blocks c) True hbs ev ui = Inr (co_pool co)"
proof -
  let ?n = "length (kv_cache_groups c)" and ?gs = "co_attention_groups co"
  have "?n \<noteq> 1" using assms(2) by simp
  note H = hybrid_coordinator_ok [OF assms(1) this]
  have set: "set (concat (map sg_group_ids ?gs)) = int ` {..<?n}"
    using mset_eq_setD [OF H(4)] by (auto simp: lessThan_atLeast0)
  have dist: "distinct (concat (map sg_group_ids ?gs))"
    using mset_eq_imp_distinct_iff [OF H(4)] by (simp add: distinct_map)
  have idx: "\<exists>k < ?n. i = int k" if "g \<in> set ?gs" "i \<in> set (sg_group_ids g)" for g i
    using set that by (auto simp: set_eq_iff)
  have spec: "\<exists>k < ?n. int k \<in> set (sg_group_ids g) \<and> sg_spec g = group_spec (kv_cache_groups c ! k) \<and>
      sg_manager_cls g = the (get_manager_class (sg_spec g)) \<and> (sg_use_eagle g \<longleftrightarrow> int k \<in> set (eagle_group_ids c use_eagle))"
    if g: "g \<in> set ?gs" for g
  proof -
    have ok: "spec_group_ok (\<lambda>i. group_spec (kv_cache_groups c ! nat i))
      (\<lambda>i. the (get_manager_class (group_spec (kv_cache_groups c ! nat i)))) (set (eagle_group_ids c use_eagle)) g" using H(1) g by blast
    then obtain i where i: "i \<in> set (sg_group_ids g)" "sg_use_eagle g \<longleftrightarrow> i \<in> set (eagle_group_ids c use_eagle)"
      unfolding spec_group_ok_def by (metis last_in_set)
    obtain k where k: "k < ?n" "i = int k" using idx [OF g i(1)] by blast
    then show ?thesis using ok i by (intro exI [of _ k]) (auto simp: spec_group_ok_def)
  qed
  obtain g0 gt where gs: "?gs = g0 # gt" using H(3) by (cases ?gs) auto
  have full: "\<not> is_FullAttentionSpec (sg_spec g)" if g: "g \<in> set gt" for g
  proof
    assume f: "is_FullAttentionSpec (sg_spec g)"
    obtain k where k: "\<forall>x \<in> set (take k ?gs). is_FullAttentionSpec (sg_spec x)" "\<forall>x \<in> set (drop k ?gs). \<not> is_FullAttentionSpec (sg_spec x)"
      using H(5) by blast
    then have "is_FullAttentionSpec (sg_spec g0)" using f g gs by (cases k) auto
    moreover obtain a b where "a \<in> set (kv_cache_groups c)" "b \<in> set (kv_cache_groups c)" "sg_spec g0 = group_spec a" "sg_spec g = group_spec b"
      using spec [of g0] spec [of g] g gs by (metis list.set_intros nth_mem)
    ultimately have "sg_spec g0 = sg_spec g" using assms(6) f by metis
    then show False using H(2) g gs by auto
  qed
  have ok: "group_ok co g" if g: "g \<in> set ?gs" for g
  proof -
    obtain k where k: "k < ?n" "sg_spec g = group_spec (kv_cache_groups c ! k)" "sg_manager_cls g = the (get_manager_class (sg_spec g))"
      "sg_use_eagle g \<longleftrightarrow> int k \<in> set (eagle_group_ids c use_eagle)" "int k \<in> set (sg_group_ids g)" using spec [OF g] by blast
    have "gids_ok (sg_group_ids g)"
      using k(5) idx [OF g] assms(3) by (fastforce simp: gids_ok_def list_all_iff)
    moreover have "distinct (sg_group_ids g)" using dist g by (auto simp: distinct_concat_iff)
    moreover have "i < int ?n" if "i \<in> set (sg_group_ids g)" for i using idx [OF g that] by auto
    moreover have "droppable (sg_manager_cls g) (sg_spec g) (sg_use_eagle g) sbs 1 1"
      using assms(5) k(1) unfolding k(2,3,4) by simp
    moreover have "group_bs g mod hbs = 0" "sbs mod group_bs g = 0" using H(6) k(1,2) by simp_all
    ultimately show ?thesis using H(8-10) by (simp add: group_ok_def)
  qed
  have "hybrid_ok co" using ok full dist gs assms(4) H(10) by (simp add: hybrid_ok_def)
  moreover have "\<exists>g \<in> set ?gs. int i \<in> set (sg_group_ids g) \<and> (\<forall>g' \<in> set ?gs. int i \<in> set (sg_group_ids g') \<longrightarrow> g' = g) \<and>
      sg_spec g = group_spec (kv_cache_groups c ! i) \<and> get_manager_class (sg_spec g) = Some (sg_manager_cls g) \<and>
      (sg_use_eagle g \<longleftrightarrow> (\<exists>j \<in> set (sg_group_ids g). j \<in> set (eagle_group_ids c use_eagle))) \<and>
      mg_class (co_managers co ! i) = sg_manager_cls g \<and> mg_use_eagle (co_managers co ! i) = sg_use_eagle g" if i: "i < ?n" for i
  proof -
    obtain g where g: "g \<in> set ?gs" "int i \<in> set (sg_group_ids g)" using set i by (auto simp: set_eq_iff)
    note M = hybrid_coordinator_managers [OF assms(1) \<open>?n \<noteq> 1\<close> i]
    have ok: "spec_group_ok (\<lambda>i. group_spec (kv_cache_groups c ! nat i))
      (\<lambda>i. the (get_manager_class (group_spec (kv_cache_groups c ! nat i)))) (set (eagle_group_ids c use_eagle)) g'" if "g' \<in> set ?gs" for g'
      using H(1) that by blast
    have s: "sg_spec g' = group_spec (kv_cache_groups c ! i)" if "g' \<in> set ?gs" "int i \<in> set (sg_group_ids g')" for g'
      using ok [OF that(1)] that(2) unfolding spec_group_ok_def by (metis nat_int)
    have u: "g' = g" if "g' \<in> set ?gs" "int i \<in> set (sg_group_ids g')" for g'
      using H(2) s [OF that] s [OF g] that(1) g(1) by (auto simp: distinct_map inj_on_def)
    have "sg_manager_cls g = mg_class (co_managers co ! i)"
      using ok [OF g(1)] g(2) M(1) unfolding spec_group_ok_def by (metis nat_int option.sel)
    moreover have "sg_use_eagle g \<longleftrightarrow> (\<exists>j \<in> set (sg_group_ids g). j \<in> set (eagle_group_ids c use_eagle))"
      using ok [OF g(1)] by (simp add: spec_group_ok_def)
    moreover have "mg_use_eagle (co_managers co ! i) = sg_use_eagle g" using M(2) u g by blast
    moreover have "get_manager_class (sg_spec g) = Some (mg_class (co_managers co ! i))" using s [OF g] M(1) by simp
    ultimately show ?thesis using g(2) u s [OF g] by (intro bexI [OF _ g(1)] conjI) (blast | simp only:)+
  qed
  ultimately show ?thesis using H(2,4,5,11) by (intro conjI allI impI) assumption+
qed

theorem hybrid_construction_witness:
  "hybrid_ok (ex_hybrid False (ex_window 2 3)) \<and> hybrid_ok (ex_hybrid True (ex_window 2 3))"
proof -
  have w: "get_manager_class (ex_window 2 3) = Some SlidingWindowManager" "spec_block_size (ex_window 2 3) = 2" "\<not> is_FullAttentionSpec (ex_window 2 3)"
    by (simp_all add: ex_window_def ex_attn_def)
  have "hybrid_ok (ex_hybrid e (ex_window 2 3))" for e
  proof (rule conjunct1 [OF hybrid_construction [OF ex_hybrid_groups(1) [OF w(1) _ w(2,3), of e]]])
    have "droppable SlidingWindowManager (ex_window 2 3) d 2 1 1" "droppable FullAttentionManager (FullAttentionSpec (ex_full 2 128)) d 2 1 1" for d
      by (simp_all add: droppable_def finder_supported_def supported_defs group_block_size_def ex_full_def)
    then show "\<forall>i < length (kv_cache_groups (ex_config (ex_window 2 3))).
        droppable (the (get_manager_class (group_spec (kv_cache_groups (ex_config (ex_window 2 3)) ! i))))
         (group_spec (kv_cache_groups (ex_config (ex_window 2 3)) ! i)) (int i \<in> set (eagle_group_ids (ex_config (ex_window 2 3)) e)) 2 1 1"
      using w(1) by (auto simp: ex_config_def less_Suc_eq)
  qed (use w in \<open>auto simp: ex_config_def\<close>)
  then show ?thesis by blast
qed

lemma lookup_nonneg:
  assumes "group_lookup co hashes limit x s = Inr s'" "0 < group_bs (snd x)" "0 \<le> curr_hit_length s"
  shows "0 \<le> curr_hit_length s'"
  using assms by (cases x) (auto simp: group_lookup_def Let_def pos_imp_zdiv_nonneg_iff split: if_splits)

text \<open>C30. The fixed-point search of the hybrid coordinator ends: for any hashes, any cache
  content, any groups with positive block sizes, whatever the EAGLE flags, the call
  returns or raises.\<close>

theorem hybrid_lookup_terminates:
  assumes "\<forall>g \<in> set (co_attention_groups co). 0 < spec_block_size (sg_spec g)" "0 \<le> max_hit"
  shows "\<exists>r. hybrid_find_longest_cache_hit hashes max_hit co = Some r"
proof -
  have "\<exists>r. hit_loop co hashes max_hit n s = Some r" if "0 \<le> n" for n s
    using that
  proof (induction "nat n" arbitrary: n s rule: less_induct)
    case less
    show ?case
    proof (cases "groups_pass co hashes max_hit (s\<lparr>curr_hit_length := n\<rparr>)")
      case (Inl e)
      then show ?thesis by (subst hit_loop.simps) simp
    next
      case (Inr s')
      have "0 \<le> curr_hit_length s'"
      proof (rule rfold_invariant [where I = "\<lambda>s. 0 \<le> curr_hit_length s", OF Inr [unfolded groups_pass_def]])
        fix x s s'
        assume x: "x \<in> set (zip (map int [0..<length (co_attention_groups co)]) (co_attention_groups co))"
          "0 \<le> curr_hit_length s" "group_lookup co hashes max_hit x s = Inr s'"
        have "snd x \<in> set (co_attention_groups co)" using x(1) by (metis prod.collapse set_zip_rightD)
        then show "0 \<le> curr_hit_length s'" using lookup_nonneg [OF x(3) _ x(2)] assms(1) by blast
      qed (use less.prems in simp)
      then show ?thesis using less.hyps [of "curr_hit_length s'" s'] Inr by (subst hit_loop.simps) auto
    qed
  qed
  then show ?thesis using assms(2) by (auto simp: hybrid_find_longest_cache_hit_def)
qed

theorem hybrid_lookup_terminates_witness:
  "\<exists>r. hybrid_find_longest_cache_hit (rq_block_hashes (ex_hashed [5, 6, 7, 8])) 3 (ex_hybrid True (ex_window 2 3)) = Some r"
  by (rule hybrid_lookup_terminates)
    (simp_all add: ex_hybrid_groups(2) [OF ex_window_droppable(1) _ ex_window_droppable(2,3)] ex_full_def)

text \<open>C28. What the hybrid coordinator reports as cached is cached, end to end.  The groups of the coordinator
  satisfy \<open>hybrid_ok\<close>: at most one full-attention spec, no Mamba group flagged for EAGLE, no cross attention, sliding windows of at
  least two tokens, chunks of whole blocks, not flagged for EAGLE and with blocks of the scheduler block size; the hash block size divides
  every block size, and every block size divides the scheduler block size.
  Then, when the hash function has no collisions, for a request
  with hashes computed from its tokens, the call returns a length \<open>n\<close> within the limit that
  is a multiple of the scheduler block size, and for each KV cache group exactly
  \<open>n / block_size\<close> blocks; each of them that the attention of the group still reads is a
  block of the pool which was registered for the group, since it was last allocated, as
  the end of the same tokens with the same extra keys.\<close>

theorem hybrid_hit_sound:
  assumes "collision_free hf nh" "hash_block_size (co_pool co) = hbs" "co_hash_block_size co = hbs" "enable_caching (co_pool co)"
    and "pool_reach sha256 (hashes_ok hbs hf nh sha256) (co_pool co, held, reg)" "hashes_ok hbs hf nh sha256 r"
    and "hybrid_ok co" "0 \<le> max_hit" "max_hit \<le> num_tokens r"
  shows "\<exists>blocks n co'. hybrid_find_longest_cache_hit (rq_block_hashes r) max_hit co = Some (Inr (blocks, n, co')) \<and>
    0 \<le> n \<and> n \<le> max_hit \<and> n mod co_scheduler_block_size co = 0 \<and>
    (\<forall>g \<in> set (co_attention_groups co). \<forall>gid \<in> set (sg_group_ids g).
      int (length (blocks ! nat gid)) = n div spec_block_size (sg_spec g) \<and>
      (\<forall>j < length (blocks ! nat gid). get_num_skipped_tokens (sg_spec g) n div spec_block_size (sg_spec g) \<le> int j \<longrightarrow>
        in_pool (co_pool co) (blocks ! nat gid ! j) \<and>
        holds_prefix sha256 hbs reg r ((int j + 1) * spec_block_size (sg_spec g)) gid (blocks ! nat gid ! j)))"
proof -
  let ?hs = "rq_block_hashes r"
  have c: "cache_inv (co_pool co)" using reachD [OF assms(5)] by metis
  have hbs: "0 < hbs" using assms(3,7) by (simp add: hybrid_ok_def)
  have "max_hit div hbs \<le> num_tokens r div hbs" using assms(9) hbs by (rule zdiv_mono1)
  moreover have "int (length ?hs) = num_tokens r div hbs"
    using assms(6) hbs by (simp add: hashes_ok_def num_tokens_def pos_imp_zdiv_nonneg_iff)
  ultimately have l: "max_hit div co_hash_block_size co \<le> int (length ?hs)" using assms(3) by simp
  obtain n s where f: "hybrid_find_longest_cache_hit ?hs max_hit co =
      Some (Inr (map (\<lambda>b. case b of None \<Rightarrow> [] | Some bl \<Rightarrow> bl) (truncate_first co n (hit_blocks_by_group s)), n,
        co\<lparr>num_uncached_common_prefix_tokens := longest_hit_length s - n\<rparr>))" "loop_result co ?hs max_hit n s"
    using hybrid_start [OF c assms(7,8) l] by blast
  define blocks where "blocks = map (\<lambda>b. case b of None \<Rightarrow> [] | Some bl \<Rightarrow> bl) (truncate_first co n (hit_blocks_by_group s))"
  have n: "0 \<le> n" "n \<le> max_hit" "n mod co_scheduler_block_size co = 0" using f(2) by (simp_all add: loop_result_def)
  have "int (length (blocks ! nat gid)) = n div group_bs g \<and>
      (\<forall>j < length (blocks ! nat gid). get_num_skipped_tokens (sg_spec g) n div group_bs g \<le> int j \<longrightarrow>
        in_pool (co_pool co) (blocks ! nat gid ! j) \<and> holds_prefix sha256 hbs reg r ((int j + 1) * group_bs g) gid (blocks ! nat gid ! j))"
    if g: "g \<in> set (co_attention_groups co)" and gid: "gid \<in> set (sg_group_ids g)" for g gid
  proof -
    have go: "group_ok co g" using assms(7) g by (simp add: hybrid_ok_def)
    have bs: "0 < group_bs g" using group_bs_pos [OF go] by simp
    obtain k where k: "k < length (sg_group_ids g)" "gid = sg_group_ids g ! k" using gid by (auto simp: in_set_conv_nth)
    obtain cols where cols: "\<forall>k < length (sg_group_ids g). blocks ! nat (sg_group_ids g ! k) = cols ! k"
      "hit_blocks (get_num_skipped_tokens (sg_spec g)) (group_bs g) (co_pool co) (sg_group_ids g) (group_hashes co ?hs g) (nat (n div group_bs g)) cols"
      using group_resultI [OF assms(7) g f(2)] by (auto simp: group_result_def blocks_def)
    let ?L = "nat (n div group_bs g)"
    have L: "int ?L = n div group_bs g" "int ?L * group_bs g = n" using n(1) bs aligned_blocks [OF go n(3,1)] by (simp_all add: pos_imp_zdiv_nonneg_iff)
    have hs: "hashes_at (co_pool co) r (group_bs g) = Inr (group_hashes co ?hs g)" and lh: "max_hit div group_bs g \<le> int (length (group_hashes co ?hs g))"
      using group_hashes_ok [OF go _ l] hbs assms(2,3) go by (auto simp: hashes_at_def get_block_hashes_def group_ok_def py_assert_def split: if_splits)
    have col: "blocks ! nat gid = cols ! k" "length (cols ! k) = ?L" "k < length cols" using cols k by (auto simp: hit_blocks_def cols_len_def)
    have "int ?L \<le> int (length (group_hashes co ?hs g))" using L(1) zdiv_mono1 [OF n(2) bs] lh by simp
    then have Ls: "?L \<le> length (group_hashes co ?hs g)" by (simp only: of_nat_le_iff)
    have "in_pool (co_pool co) (cols ! k ! j) \<and> holds_prefix sha256 hbs reg r ((int j + 1) * group_bs g) gid (cols ! k ! j)"
      if j: "j < ?L" "get_num_skipped_tokens (sg_spec g) n div group_bs g \<le> int j" for j
    proof -
      have h: "hit (co_pool co) (sg_group_ids g) (group_hashes co ?hs g ! j) (col_at j cols)"
        using cols(2) j unfolding hit_blocks_def L(2) by force
      have "col_at j cols ! k = cols ! k ! j" using col(3) by (simp add: col_at_def)
      then show ?thesis
        using hit_holds_prefix [OF assms(1,2,4,5,6) hs less_le_trans [OF j(1) Ls] bs h k(1)] h k by (auto simp: hit_def)
    qed
    then show ?thesis using col L(1) by simp
  qed
  then show ?thesis using f(1) [folded blocks_def] n
    by (intro exI [of _ blocks] exI [of _ n] exI [of _ "co\<lparr>num_uncached_common_prefix_tokens := longest_hit_length s - n\<rparr>"] conjI ballI) (assumption | simp)+
qed

theorem hybrid_hit_sound_witness:
  "\<exists>blocks n co'. hybrid_find_longest_cache_hit (rq_block_hashes (ex_hashed [5, 6, 7, 8])) 3 ((ex_hybrid True (ex_window 2 3))\<lparr>co_pool := ex_pool5\<rparr>) =
    Some (Inr (blocks, n, co')) \<and> n \<le> 3 \<and> length (blocks ! 0) = length (blocks ! 1)"
proof -
  let ?co = "(ex_hybrid True (ex_window 2 3))\<lparr>co_pool := ex_pool5\<rparr>"
  note G = ex_hybrid_groups [OF ex_window_droppable(1) _ ex_window_droppable(2,3), of True]
  have "hybrid_ok ?co" using ex_hybrid_ok [OF ex_window_droppable(1) _ ex_window_droppable(2,3,4)] by simp
  moreover have "num_tokens (ex_hashed [5, 6, 7, 8]) = 4" by (simp add: num_tokens_def ex_hashed_def ex_request_def)
  ultimately obtain blocks n co' where *: "hybrid_find_longest_cache_hit (rq_block_hashes (ex_hashed [5, 6, 7, 8])) 3 ?co = Some (Inr (blocks, n, co'))"
    "n \<le> 3" "\<forall>g \<in> set (co_attention_groups ?co). \<forall>gid \<in> set (sg_group_ids g). int (length (blocks ! nat gid)) = n div spec_block_size (sg_spec g)"
    using hybrid_hit_sound [OF ex_hash_collision_free, of ?co 2 id _ ex_reg5 "ex_hashed [5, 6, 7, 8]" 3, OF _ _ _ _ ex_hashed_ok]
      ex_pool5_ok(1-3) G(5) by simp blast
  then have "int (length (blocks ! 0)) = n div 2" "int (length (blocks ! 1)) = n div 2" using G(2) by (simp_all add: ex_full_def)
  then show ?thesis using *(1,2) by (intro exI [of _ blocks] exI [of _ n] exI [of _ co']) linarith
qed

text \<open>C29. The hybrid coordinator finds the longest common hit, for the same groups (\<open>hybrid_ok\<close>: at most one
  full-attention spec, no cross attention, sliding windows of at least two tokens, chunks of whole blocks of the scheduler block size, all
  block sizes multiples of the hash block size and divisors of the scheduler block size) and when no group drops a block for EAGLE: no length within the limit, aligned to the scheduler block size, for which
  every group has cached all the blocks it still reads, is longer than the length returned.\<close>

theorem hybrid_hit_maximal:
  assumes "pool_reach sha256 okr (co_pool co, held, reg)" "hybrid_ok co" "0 \<le> max_hit"
    and "max_hit div co_hash_block_size co \<le> int (length hashes)"
    and "hybrid_find_longest_cache_hit hashes max_hit co = Some (Inr (blocks, n, co'))"
    and "0 \<le> k" "k \<le> max_hit" "k mod co_scheduler_block_size co = 0"
    and "\<forall>g \<in> set (co_attention_groups co). \<not> sg_use_eagle g \<and>
      (\<forall>j < nat (k div spec_block_size (sg_spec g)).
        get_num_skipped_tokens (sg_spec g) k div spec_block_size (sg_spec g) \<le> int j \<longrightarrow>
        cached (co_pool co) (sg_group_ids g) (group_hashes co hashes g ! j))"
  shows "k \<le> n"
proof -
  have c: "cache_inv (co_pool co)" using reachD [OF assms(1)] by metis
  have "loop_result co hashes max_hit n s \<Longrightarrow> k \<le> n" for s
  proof -
    have "group_usable co hashes k g" if g: "g \<in> set (co_attention_groups co)" for g
    proof -
      have "group_ok co g" using assms(2) g by (simp add: hybrid_ok_def)
      then show ?thesis using assms(9) g aligned_blocks [OF _ assms(8,6), of g] by (simp add: group_usable_def usable_def)
    qed
    then show "loop_result co hashes max_hit n s \<Longrightarrow> k \<le> n" using assms(6-8) by (simp add: loop_result_def)
  qed
  then show ?thesis using hybrid_start [OF c assms(2-4)] assms(5) by auto
qed

theorem hybrid_hit_maximal_witness:
  "\<exists>blocks n co'. hybrid_find_longest_cache_hit (rq_block_hashes (ex_hashed [5, 6, 7, 8])) 4 ((ex_hybrid False (ex_window 2 3))\<lparr>co_pool := ex_pool5\<rparr>) =
    Some (Inr (blocks, n, co')) \<and> 4 \<le> n"
proof -
  let ?co = "(ex_hybrid False (ex_window 2 3))\<lparr>co_pool := ex_pool5\<rparr>" and ?hs = "rq_block_hashes (ex_hashed [5, 6, 7, 8])"
  note G = ex_hybrid_groups [OF ex_window_droppable(1) _ ex_window_droppable(2,3), of False]
  have ok: "hybrid_ok ?co" using ex_hybrid_ok [OF ex_window_droppable(1) _ ex_window_droppable(2,3,4)] by simp
  have c: "cache_inv ex_pool5" using reachD [OF ex_pool5_ok(1)] by metis
  have l: "length ?hs = 2" by (simp add: ex_hashed_def)
  obtain blocks n co' where f: "hybrid_find_longest_cache_hit ?hs 4 ?co = Some (Inr (blocks, n, co'))"
    using hybrid_start [OF _ ok, of 4 ?hs] c G(5) l by (simp) metis
  have "cached ex_pool5 [g] (?hs ! j)" if "j < 2" "g \<in> {0, 1}" for g j using ex_pool5_ok(5) that .
  then have "4 \<le> n" using hybrid_hit_maximal [OF _ ok _ _ f, of id "hashes_ok 2 ex_hash [0] id" _ ex_reg5 4] ex_pool5_ok(1) G(2,4,5) l
    by (simp add: group_hashes_def get_block_hashes_def ex_full_def)
  then show ?thesis using f by blast
qed

lemma lookup_one:
  assumes "cache_inv p" "cached p [g] h" "0 \<le> g" "g < 2 ^ 32"
  shows "\<exists>b. cached_lookup p [g] h = Inr (Some [b])"
proof -
  have "gids_ok [g]" using assms(3,4) by (simp add: gids_ok_def)
  then show ?thesis using assms(2) by (cases rule: cached_lookup_ok [OF assms(1), of "[g]" h]) (auto simp: hit_def length_Suc_conv)
qed

text \<open>C32. With EAGLE and no annotated group, all groups are flagged, and the search of the
  Mamba group one block past the candidate is not followed by a drop: if both groups have
  two blocks cached, the hybrid coordinator reports four cached tokens and two blocks for the
  Mamba group, but only one block (two tokens) for the full-attention group.\<close>

theorem mamba_eagle_overrun:
  assumes "pool_reach sha256 okr (p, held, reg)" "cached p [0] h0" "cached p [0] h1" "cached p [1] h1"
  shows "\<exists>b b' co'. hybrid_find_longest_cache_hit [h0, h1] 5 ((ex_hybrid True ex_mamba)\<lparr>co_pool := p\<rparr>) =
    Some (Inr ([[b], [null_block p, b']], 4, co'))"
proof -
  have c: "cache_inv p" using reachD [OF assms(1)] by metis
  let ?co = "(ex_hybrid True ex_mamba)\<lparr>co_pool := p\<rparr>"
  have m: "get_manager_class ex_mamba = Some MambaManager" "spec_block_size ex_mamba = 2" "\<not> is_FullAttentionSpec ex_mamba" "is_MambaSpec ex_mamba"
    by (simp_all add: ex_mamba_def)
  note G = ex_hybrid_groups [OF m(1) _ m(2,3), of True, simplified]
  obtain b0 b1 b2 where b: "cached_lookup p [0] h0 = Inr (Some [b0])" "cached_lookup p [0] h1 = Inr (Some [b1])" "cached_lookup p [1] h1 = Inr (Some [b2])"
    using lookup_one [OF c assms(2)] lookup_one [OF c assms(3)] lookup_one [OF c assms(4)] by auto
  have n: "nat 2 = Suc (Suc 0)" by simp
  have al: "align_pop 2 2 [[b0]] = Inr [[b0]]" by (subst align_pop.simps) simp
  have f: "find_longest_cache_hit FullAttentionManager [h0, h1] 5 [0] p (FullAttentionSpec (ex_full 2 128)) True 2 1 1 = Inr [[b0]]"
    using b al by (simp add: find_longest_cache_hit_def full_find_longest_cache_hit_def ex_full_def Let_def drop_last_def py_index_def pop_all_def n)
  have g: "find_longest_cache_hit MambaManager [h0, h1] 4 [1] p ex_mamba True 2 1 1 = Inr [[null_block p, b2]]"
    using b m by (simp add: find_longest_cache_hit_def mamba_find_longest_cache_hit_def numeral_2_eq_2 py_index_def)
  define s0 where "s0 = \<lparr>curr_hit_length = 5, longest_hit_length = 0, hit_blocks_by_group = [None, None], eagle_verified = []\<rparr>"
  define s1 where "s1 = \<lparr>curr_hit_length = 4, longest_hit_length = 4, hit_blocks_by_group = [Some [b0], Some [null_block p, b2]], eagle_verified = [1, 0]\<rparr>"
  have "groups_pass ?co [h0, h1] 5 s0 = Inr s1"
    using f g m(2,3) by (simp add: groups_pass_def G group_lookup_def s0_def s1_def Let_def py_index_def get_block_hashes_def ex_full_def)
  moreover have "is_simple_hybrid ?co" by (simp add: is_simple_hybrid_def G)
  ultimately have "hit_loop ?co [h0, h1] 5 5 s0 = Some (Inr (4, s1))" by (subst hit_loop.simps) (simp add: s0_def s1_def)
  moreover have "s0 = \<lparr>curr_hit_length = 5, longest_hit_length = 0,
      hit_blocks_by_group = replicate (length (kv_cache_groups (co_config ?co))) None, eagle_verified = []\<rparr>"
    by (simp add: s0_def G ex_config_def)
  ultimately show ?thesis
    by (simp add: hybrid_find_longest_cache_hit_def truncate_first_def G s1_def ex_full_def py_upto_def slice_bound_def)
qed

theorem mamba_eagle_overrun_witness:
  "\<exists>b b' co'. hybrid_find_longest_cache_hit (rq_block_hashes (ex_hashed [5, 6, 7, 8])) 5 ((ex_hybrid True ex_mamba)\<lparr>co_pool := ex_pool5\<rparr>) =
    Some (Inr ([[b], [Blk 0, b']], 4, co'))"
proof -
  let ?hs = "rq_block_hashes (ex_hashed [5, 6, 7, 8])"
  have "length ?hs = Suc (Suc 0)" by (simp add: ex_hashed_def)
  then have hs: "?hs = [?hs ! 0, ?hs ! 1]" by (auto simp: length_Suc_conv)
  show ?thesis using mamba_eagle_overrun [OF ex_pool5_ok(1), of "?hs ! 0" "?hs ! 1"] ex_pool5_ok(4,5) hs by simp
qed

end
