(* ===== verification/KV_Cache_Manager.thy ===== *)
theory KV_Cache_Manager
  imports Hybrid_Hits
begin

text \<open>
  \<^verbatim>\<open>vllm/v1/core/kv_cache_manager.py\<close>: the interface of the scheduler to the KV cache.
  \<^verbatim>\<open>allocate_slots\<close> compares the computed blocks with the precomputed empty instance by
  identity, so that instance is a constructor of its own.  The watermark, a float, is a
  rational number.
\<close>

section \<open>Allocation results\<close>

datatype kv_cache_blocks =
    EmptyBlocks nat
  | KVCacheBlocks "kv_ref list list"

fun kb_blocks :: "kv_cache_blocks \<Rightarrow> kv_ref list list" where
  "kb_blocks (EmptyBlocks n) = replicate n []"
| "kb_blocks (KVCacheBlocks bs) = bs"

definition kb_add :: "kv_cache_blocks \<Rightarrow> kv_cache_blocks \<Rightarrow> kv_cache_blocks" where
  "kb_add a b = KVCacheBlocks (map2 (@) (kb_blocks a) (kb_blocks b))"

definition kb_get_block_ids :: "bool \<Rightarrow> kv_cache_blocks \<Rightarrow> int list list option" where
  "kb_get_block_ids allow_none a =
    (if allow_none \<and> list_all (\<lambda>g. length g = 0) (kb_blocks a) then None else Some (map (map block_id) (kb_blocks a)))"

definition kb_get_unhashed_block_ids :: "block_pool \<Rightarrow> kv_cache_blocks \<Rightarrow> int list result" where
  "kb_get_unhashed_block_ids p a =
    py_assert (length (kb_blocks a) = 1) (Inr (map block_id (filter (\<lambda>b. block_hash (blk p b) = None) (hd (kb_blocks a)))))"

definition kb_get_unhashed_block_ids_all_groups :: "block_pool \<Rightarrow> kv_cache_blocks \<Rightarrow> int list list" where
  "kb_get_unhashed_block_ids_all_groups p a =
    map (\<lambda>g. map block_id (filter (\<lambda>b. block_hash (blk p b) = None \<and> \<not> is_null (blk p b)) g)) (kb_blocks a)"

definition kb_new_empty :: "kv_cache_blocks \<Rightarrow> kv_cache_blocks" where
  "kb_new_empty a = KVCacheBlocks (replicate (length (kb_blocks a)) [])"

section \<open>Statistics\<close>

record prefix_cache_stats =
  st_reset :: bool
  st_requests :: int
  st_queries :: int
  st_hits :: int
  st_preempted_requests :: int
  st_preempted_queries :: int
  st_preempted_hits :: int

definition new_stats :: prefix_cache_stats where
  "new_stats = \<lparr>st_reset = False, st_requests = 0, st_queries = 0, st_hits = 0, st_preempted_requests = 0,
    st_preempted_queries = 0, st_preempted_hits = 0\<rparr>"

definition stats_record :: "int \<Rightarrow> int \<Rightarrow> bool \<Rightarrow> prefix_cache_stats \<Rightarrow> prefix_cache_stats" where
  "stats_record ntokens num_hits preempted s =
    (if preempted
     then s\<lparr>st_preempted_requests := st_preempted_requests s + 1, st_preempted_queries := st_preempted_queries s + ntokens,
            st_preempted_hits := st_preempted_hits s + num_hits\<rparr>
     else s\<lparr>st_requests := st_requests s + 1, st_queries := st_queries s + ntokens, st_hits := st_hits s + num_hits\<rparr>)"

section \<open>The manager\<close>

record kv_cache_manager =
  km_max_model_len :: int
  km_enable_caching :: bool
  km_log_stats :: bool
  km_prefix_cache_stats :: "prefix_cache_stats option"
  km_coordinator :: coordinator
  num_kv_cache_groups :: nat
  km_watermark_blocks :: int
  kv_cache_event_metadata :: "(kv_cache_spec_kind \<times> int option) list"

abbreviation km_pool :: "kv_cache_manager \<Rightarrow> block_pool" where
  "km_pool km \<equiv> co_pool (km_coordinator km)"

definition km_init ::
  "kv_cache_config \<Rightarrow> int \<Rightarrow> int \<Rightarrow> int \<Rightarrow> int option \<Rightarrow> bool \<Rightarrow> bool \<Rightarrow> bool \<Rightarrow> bool \<Rightarrow> bool \<Rightarrow> int \<Rightarrow> int \<Rightarrow> rat \<Rightarrow> int option \<Rightarrow>
   kv_cache_manager result" where
  "km_init c max_model_len sbs hbs max_num_batched_tokens caching use_eagle log_stats events use_int dcp pcp watermark retention =
    (let mbt = (case max_num_batched_tokens of None \<Rightarrow> max_model_len | Some n \<Rightarrow> n) in
     rbind (get_kv_cache_coordinator c max_model_len mbt use_eagle caching events use_int dcp pcp sbs hbs retention) (\<lambda>co.
       py_assert (watermark \<ge> 0)
         (Inr \<lparr>km_max_model_len = max_model_len, km_enable_caching = caching, km_log_stats = log_stats,
            km_prefix_cache_stats = (if log_stats then Some new_stats else None), km_coordinator = co,
            num_kv_cache_groups = length (kv_cache_groups c), km_watermark_blocks = \<lfloor>watermark * of_int (num_blocks c)\<rfloor>,
            kv_cache_event_metadata = map (\<lambda>g. (get_kv_cache_spec_kind (group_spec g), get_kv_cache_spec_sliding_window (group_spec g)))
              (kv_cache_groups c)\<rparr>)))"

definition km_usage :: "kv_cache_manager \<Rightarrow> rat" where
  "km_usage km = get_usage (km_pool km)"

definition make_prefix_cache_stats :: "kv_cache_manager \<Rightarrow> prefix_cache_stats option \<times> kv_cache_manager" where
  "make_prefix_cache_stats km =
    (if \<not> km_log_stats km then (None, km)
     else (km_prefix_cache_stats km, km\<lparr>km_prefix_cache_stats := Some new_stats\<rparr>))"

definition create_kv_cache_blocks :: "kv_cache_manager \<Rightarrow> kv_ref list list \<Rightarrow> kv_cache_blocks" where
  "create_kv_cache_blocks km bs = (if list_ex (\<lambda>g. g \<noteq> []) bs then KVCacheBlocks bs else EmptyBlocks (num_kv_cache_groups km))"

definition get_computed_blocks :: "request \<Rightarrow> kv_cache_manager \<Rightarrow> (kv_cache_blocks \<times> int \<times> kv_cache_manager) result option" where
  "get_computed_blocks r km =
    (if \<not> km_enable_caching km \<or> skip_reading_prefix_cache r then Some (Inr (EmptyBlocks (num_kv_cache_groups km), 0, km))
     else map_option (\<lambda>res. rbind res (\<lambda>(computed, n, co).
         let km = km\<lparr>km_coordinator := co\<rparr> in
         rbind (if km_log_stats km
                then case km_prefix_cache_stats km of
                    None \<Rightarrow> Inl AssertionError
                  | Some s \<Rightarrow> Inr (km\<lparr>km_prefix_cache_stats := Some (stats_record (num_tokens r) n (num_preemptions r > 0) s)\<rparr>)
                else Inr km) (\<lambda>km.
           Inr (create_kv_cache_blocks km computed, n, km))))
       (co_find_longest_cache_hit (rq_block_hashes r) (num_tokens r - 1) (km_coordinator km)))"

definition on_coordinator :: "('a \<times> coordinator) result \<Rightarrow> kv_cache_manager \<Rightarrow> ('a \<times> kv_cache_manager) result" where
  "on_coordinator res km = rbind res (\<lambda>(a, co). Inr (a, km\<lparr>km_coordinator := co\<rparr>))"

definition km_free :: "request \<Rightarrow> kv_cache_manager \<Rightarrow> kv_cache_manager result" where
  "km_free r km = rbind (co_free (request_id r) (km_coordinator km)) (\<lambda>co. Inr (km\<lparr>km_coordinator := co\<rparr>))"

definition km_remove_skipped_blocks :: "string \<Rightarrow> int \<Rightarrow> int option \<Rightarrow> kv_cache_manager \<Rightarrow> kv_cache_manager result" where
  "km_remove_skipped_blocks rid total_computed num_prompt km =
    rbind (co_remove_skipped_blocks rid total_computed num_prompt (km_coordinator km)) (\<lambda>co. Inr (km\<lparr>km_coordinator := co\<rparr>))"

definition km_cache_blocks :: "(bytes \<Rightarrow> bytes) \<Rightarrow> request \<Rightarrow> int \<Rightarrow> kv_cache_manager \<Rightarrow> kv_cache_manager result" where
  "km_cache_blocks sha256 r num_computed km =
    (if km_enable_caching km
     then rbind (co_cache_blocks sha256 r num_computed (km_coordinator km)) (\<lambda>co. Inr (km\<lparr>km_coordinator := co\<rparr>))
     else Inr km)"

text \<open>The arguments of \<^verbatim>\<open>allocate_slots\<close> after the request and the number of new tokens.\<close>

record slot_args =
  num_new_computed_tokens :: int
  new_computed_blocks :: "kv_cache_blocks option"
  num_lookahead_tokens :: int
  num_external_computed_tokens :: int
  delay_cache_blocks :: bool
  num_encoder_tokens :: int
  full_sequence_must_fit :: bool
  reserved_blocks :: int
  has_scheduled_reqs :: bool

definition allocate_slots ::
  "(bytes \<Rightarrow> bytes) \<Rightarrow> request \<Rightarrow> int \<Rightarrow> slot_args \<Rightarrow> kv_cache_manager \<Rightarrow> (kv_cache_blocks option \<times> kv_cache_manager) result" where
  "allocate_slots sha256 r num_new_tokens a km =
    (if num_new_tokens = 0 \<and> num_external_computed_tokens a = 0 then Inl ValueError
     else
       let rid = request_id r;
           computed = (case new_computed_blocks a of None \<Rightarrow> EmptyBlocks (num_kv_cache_groups km) | Some b \<Rightarrow> b);
           num_local = num_computed_tokens r + num_new_computed_tokens a;
           total_computed = min (num_local + num_external_computed_tokens a) (km_max_model_len km);
           watermark = (if has_scheduled_reqs a \<and> status r \<in> {WAITING, PREEMPTED} then km_watermark_blocks km else 0) in
       rbind (if full_sequence_must_fit a
              then let full = min (num_tokens r) (km_max_model_len km) in
                rbind (on_coordinator (co_get_num_blocks_to_allocate rid full (kb_blocks computed) (num_encoder_tokens a)
                         total_computed full True (km_coordinator km)) km) (\<lambda>(n, km).
                  Inr (n + watermark \<le> get_num_free_blocks (km_pool km), km))
              else Inr (True, km)) (\<lambda>(fits, km).
       if \<not> fits then Inr (None, km)
       else
         let main_model = total_computed + num_new_tokens;
             need_slot = min (main_model + num_lookahead_tokens a) (km_max_model_len km) in
         rbind (km_remove_skipped_blocks rid total_computed (Some (num_prompt_tokens r)) km) (\<lambda>km.
         rbind (on_coordinator (co_get_num_blocks_to_allocate rid need_slot (kb_blocks computed) (num_encoder_tokens a)
                  (num_local + num_external_computed_tokens a) main_model False (km_coordinator km)) km) (\<lambda>(n, km).
         if n + watermark > get_num_free_blocks (km_pool km) - reserved_blocks a then Inr (None, km)
         else
           rbind (if (case computed of EmptyBlocks _ \<Rightarrow> False | KVCacheBlocks _ \<Rightarrow> True) \<or> num_external_computed_tokens a > 0
                  then rbind (co_allocate_new_computed_blocks rid (kb_blocks computed) num_local (num_external_computed_tokens a) (km_coordinator km))
                    (\<lambda>co. Inr (km\<lparr>km_coordinator := co\<rparr>))
                  else Inr km) (\<lambda>km.
           rbind (on_coordinator (co_allocate_new_blocks rid need_slot main_model (num_encoder_tokens a) (km_coordinator km)) km) (\<lambda>(new, km).
           if \<not> km_enable_caching km \<or> delay_cache_blocks a then Inr (Some (create_kv_cache_blocks km new), km)
           else
             rbind (co_cache_blocks sha256 r (min (total_computed + num_new_tokens) (num_tokens r)) (km_coordinator km)) (\<lambda>co.
               let km = km\<lparr>km_coordinator := co\<rparr>
               in Inr (Some (create_kv_cache_blocks km new), km))))))))"

definition km_pop_blocks_for_free :: "request \<Rightarrow> kv_cache_manager \<Rightarrow> kv_ref list \<times> kv_cache_manager" where
  "km_pop_blocks_for_free r km =
    (let (bs, co) = co_pop_blocks_for_free (request_id r) (km_coordinator km) in (bs, km\<lparr>km_coordinator := co\<rparr>))"

definition set_pool :: "block_pool \<Rightarrow> kv_cache_manager \<Rightarrow> kv_cache_manager" where
  "set_pool p km = km\<lparr>km_coordinator := (km_coordinator km)\<lparr>co_pool := p\<rparr>\<rparr>"

definition km_evict_blocks :: "int list \<Rightarrow> kv_cache_manager \<Rightarrow> kv_cache_manager result" where
  "km_evict_blocks ids km = rbind (evict_blocks ids (km_pool km)) (\<lambda>p. Inr (set_pool p km))"

definition km_reset_prefix_cache :: "kv_cache_manager \<Rightarrow> (bool \<times> kv_cache_manager) result" where
  "km_reset_prefix_cache km =
    (let (ok, p) = pool_reset_prefix_cache (km_pool km); km = set_pool p km in
     if \<not> ok then Inr (False, km)
     else if km_log_stats km
     then case km_prefix_cache_stats km of
         None \<Rightarrow> Inl AssertionError
       | Some s \<Rightarrow> Inr (True, km\<lparr>km_prefix_cache_stats := Some (s\<lparr>st_reset := True\<rparr>)\<rparr>)
     else Inr (True, km))"

definition km_get_num_common_prefix_blocks :: "string \<Rightarrow> kv_cache_manager \<Rightarrow> int list \<times> kv_cache_manager" where
  "km_get_num_common_prefix_blocks rid km =
    (let (ns, co) = co_get_num_common_prefix_blocks rid (km_coordinator km) in (ns, km\<lparr>km_coordinator := co\<rparr>))"

text \<open>Events with the annotation \<^verbatim>\<open>kv_cache_spec_kind\<close>, \<^verbatim>\<open>kv_cache_spec_sliding_window\<close>.\<close>

definition annotate_event :: "(kv_cache_spec_kind \<times> int option) list \<Rightarrow> kv_event \<Rightarrow> kv_event \<times> (kv_cache_spec_kind \<times> int option) option" where
  "annotate_event md e = (case e of
       BlockStored b \<Rightarrow>
         (e, if ev_group_idx b < 0 \<or> ev_group_idx b \<ge> int (length md) then None else Some (md ! nat (ev_group_idx b)))
     | _ \<Rightarrow> (e, None))"

definition km_take_events :: "kv_cache_manager \<Rightarrow> (kv_event \<times> (kv_cache_spec_kind \<times> int option) option) list \<times> kv_cache_manager" where
  "km_take_events km =
    (let (events, p) = pool_take_events (km_pool km) in (map (annotate_event (kv_cache_event_metadata km)) events, set_pool p km))"

definition km_get_blocks :: "string \<Rightarrow> kv_cache_manager \<Rightarrow> kv_cache_blocks" where
  "km_get_blocks rid km = create_kv_cache_blocks km (co_get_blocks rid (km_coordinator km))"

definition km_get_block_ids :: "string \<Rightarrow> kv_cache_manager \<Rightarrow> int list list option" where
  "km_get_block_ids rid km = kb_get_block_ids False (km_get_blocks rid km)"

definition km_take_new_block_ids :: "kv_cache_manager \<Rightarrow> int list \<times> kv_cache_manager" where
  "km_take_new_block_ids km =
    (let res = map take_new_block_ids (co_managers (km_coordinator km))
     in (concat (map fst res), km\<lparr>km_coordinator := (km_coordinator km)\<lparr>co_managers := map snd res\<rparr>\<rparr>))"

definition km_new_step_starts :: "kv_cache_manager \<Rightarrow> kv_cache_manager" where
  "km_new_step_starts km = km\<lparr>km_coordinator := co_new_step_starts (km_coordinator km)\<rparr>"

end
