(* ===== verification/KV_Accounting.thy ===== *)
theory KV_Accounting
  imports KV_Cache_Manager
begin

text \<open>
  The references to the blocks of the pool are the entries of the block tables of all
  managers: an invariant of all operations of \<^verbatim>\<open>KVCacheManager\<close>.  The locale
  \<open>manager_step\<close> is the contract that an operation of a manager keeps for the loops of the
  coordinator; every operation called in such a loop is an interpretation.
\<close>

section \<open>All managers over one pool\<close>

definition all_held :: "block_pool \<Rightarrow> st_manager list \<Rightarrow> kv_ref multiset" where
  "all_held p ms = (\<Sum>m \<leftarrow> ms. mg_held p m)"

definition managers_inv :: "(bytes \<Rightarrow> bytes) \<Rightarrow> (request \<Rightarrow> bool) \<Rightarrow> kv_ref multiset \<Rightarrow> st_manager list \<Rightarrow> block_pool \<Rightarrow> bool" where
  "managers_inv sha256 okr rest ms p \<longleftrightarrow> (\<forall>m \<in> set ms. mg_ok p m) \<and> (\<exists>reg. pool_reach sha256 okr (p, all_held p ms + rest, reg))"

lemma all_held_config: "pool_config p' = pool_config p \<Longrightarrow> all_held p' ms = all_held p ms"
  using mg_held_config [of p' p] by (simp add: all_held_def)

lemma managers_inv_Cons:
  "managers_inv sha256 okr rest (m # ms) p \<longleftrightarrow> mreach sha256 okr (all_held p ms + rest) (m, p) \<and> (\<forall>m \<in> set ms. mg_ok p m)"
  by (auto simp: managers_inv_def mreach_def all_held_def ac_simps)

lemma managers_inv_first:
  "managers_inv sha256 okr rest (m # ms) p \<longleftrightarrow> mg_ok p m \<and> managers_inv sha256 okr (mg_held p m + rest) ms p"
  by (auto simp: managers_inv_def all_held_def ac_simps)

text \<open>What a configuration has to satisfy: positive sizes of blocks, windows and chunks.\<close>

fun sane_spec :: "kv_spec \<Rightarrow> bool" where
  "sane_spec (SlidingWindowSpec a w n) \<longleftrightarrow> 0 < spec_block_size (SlidingWindowSpec a w n) \<and> 0 < w"
| "sane_spec (SlidingWindowMLASpec a w f) \<longleftrightarrow> 0 < spec_block_size (SlidingWindowMLASpec a w f) \<and> 0 < w"
| "sane_spec (ChunkedLocalAttentionSpec a c) \<longleftrightarrow> 0 < spec_block_size (ChunkedLocalAttentionSpec a c) \<and> 0 < c"
| "sane_spec (MambaSpec ms) \<longleftrightarrow> 0 < spec_block_size (MambaSpec ms) \<and> 0 \<le> num_speculative_blocks ms"
| "sane_spec s \<longleftrightarrow> 0 < spec_block_size s"

lemma div_le_cdiv: "0 < b \<Longrightarrow> a \<le> c \<Longrightarrow> a div b \<le> cdiv c b"
  using cdiv_bounds(1) [of b c] zdiv_mono1 [of a "cdiv c b * b" b] by simp

lemma skipped_le: "sane_spec s \<Longrightarrow> 0 \<le> n \<Longrightarrow> get_num_skipped_tokens s n \<le> n"
  by (cases s) (auto simp: minus_mod_eq_div_mult [symmetric])

definition static_ok :: "st_manager \<Rightarrow> bool" where
  "static_ok m \<longleftrightarrow> get_manager_class (mg_spec m) = Some (mg_class m) \<and> sane_spec (mg_spec m)"

definition co_inv :: "(bytes \<Rightarrow> bytes) \<Rightarrow> (request \<Rightarrow> bool) \<Rightarrow> kv_ref multiset \<Rightarrow> coordinator \<Rightarrow> bool" where
  "co_inv sha256 okr rest co \<longleftrightarrow> managers_inv sha256 okr rest (co_managers co) (co_pool co) \<and>
    list_all static_ok (co_managers co) \<and> 0 < co_scheduler_block_size co"

lemma static_ok_list: "map mg_static ms' = map mg_static ms \<Longrightarrow> list_all static_ok ms' \<longleftrightarrow> list_all static_ok ms"
proof (induction ms arbitrary: ms')
  case (Cons m ms)
  then obtain m' ms1 where m: "ms' = m' # ms1" "mg_static m' = mg_static m" "map mg_static ms1 = map mg_static ms" by auto
  have "static_ok m' = static_ok m" using m(2) by (simp add: static_ok_def mg_static_def)
  then show ?case using Cons.IH [OF m(3)] m(1) by simp
qed simp

lemma same_static:
  assumes "map mg_static ms' = map mg_static ms"
  shows "length ms' = length ms" "k < length ms \<Longrightarrow> mg_static (ms' ! k) = mg_static (ms ! k)"
  using assms by (metis length_map, metis length_map nth_map)

text \<open>What the loops leave alone.\<close>

definition co_keeps :: "coordinator \<Rightarrow> coordinator \<Rightarrow> bool" where
  "co_keeps co co' \<longleftrightarrow> pool_config (co_pool co') = pool_config (co_pool co) \<and> map mg_static (co_managers co') = map mg_static (co_managers co) \<and>
    co' = co\<lparr>co_managers := co_managers co', co_pool := co_pool co'\<rparr>"

lemma co_keeps_refl [simp]: "co_keeps co co"
  by (simp add: co_keeps_def)

lemma co_keeps_trans [trans]: "co_keeps a b \<Longrightarrow> co_keeps b c \<Longrightarrow> co_keeps a c"
  by (cases a; cases b; cases c) (simp add: co_keeps_def)

section \<open>The loops of the coordinator\<close>

locale manager_step =
  fixes sha256 :: "bytes \<Rightarrow> bytes" and okr :: "request \<Rightarrow> bool"
    and f :: "int \<Rightarrow> mstate \<Rightarrow> ('a \<times> mstate) result"
    and pre :: "int \<Rightarrow> st_manager \<Rightarrow> block_pool \<Rightarrow> bool" and post :: "int \<Rightarrow> st_manager \<Rightarrow> st_manager \<Rightarrow> bool"
  assumes pre_config: "pool_config p' = pool_config p \<Longrightarrow> pre i m p \<Longrightarrow> pre i m p'"
    and step_safe: "\<lbrakk>mreach sha256 okr rest (m, p); pre i m p; f i (m, p) = Inr (a, m', p')\<rbrakk> \<Longrightarrow>
      mreach sha256 okr rest (m', p') \<and> keeps (m, p) (m', p') \<and> post i m m'"
begin

lemma each_safe:
  assumes "managers_inv sha256 okr rest ms p" "\<forall>k < length ms. pre (i + int k) (ms ! k) p" "each_manager f i ms p = Inr (as, ms', p')"
  shows "managers_inv sha256 okr rest ms' p' \<and> pool_config p' = pool_config p \<and> map mg_static ms' = map mg_static ms \<and>
    (\<forall>k < length ms. post (i + int k) (ms ! k) (ms' ! k))"
  using assms
proof (induction ms arbitrary: i p as ms' p' rest)
  case Nil
  then show ?case by simp
next
  case (Cons m ms)
  obtain a m1 p1 as1 ms1 where e: "f i (m, p) = Inr (a, m1, p1)" "each_manager f (i + 1) ms p1 = Inr (as1, ms1, p')"
    "ms' = m1 # ms1" using Cons.prems(3) by auto
  have r: "mreach sha256 okr (all_held p ms + rest) (m, p)" "\<forall>m \<in> set ms. mg_ok p m" using Cons.prems(1) by (simp_all add: managers_inv_Cons)
  have pre: "pre i m p" using Cons.prems(2) by force
  have s: "mreach sha256 okr (all_held p ms + rest) (m1, p1)" "mg_static m1 = mg_static m" "pool_config p1 = pool_config p" "post i m m1"
    using step_safe [OF r(1) pre e(1)] by (simp_all add: keeps_def)
  then have "managers_inv sha256 okr rest (m1 # ms) p1"
    using r(2) by (simp add: managers_inv_Cons all_held_config [OF s(3)] mg_ok_config [OF s(3)])
  then have i1: "mg_ok p1 m1" "managers_inv sha256 okr (mg_held p1 m1 + rest) ms p1" by (simp_all add: managers_inv_first)
  have "pre (i + 1 + int k) (ms ! k) p1" if "k < length ms" for k
    using Cons.prems(2) [THEN spec, of "Suc k"] that pre_config [OF s(3)] by (simp add: ac_simps)
  then have I: "managers_inv sha256 okr (mg_held p1 m1 + rest) ms1 p'" "pool_config p' = pool_config p1"
    "map mg_static ms1 = map mg_static ms" "\<forall>k < length ms. post (i + 1 + int k) (ms ! k) (ms1 ! k)"
    using Cons.IH [OF i1(2) _ e(2)] by blast+
  have "managers_inv sha256 okr rest ms' p'"
    using I(1) i1(1) by (simp add: e(3) managers_inv_first mg_held_config [OF I(2)] mg_ok_config [OF I(2)])
  moreover have "post (i + int k) ((m # ms) ! k) (ms' ! k)" if "k < length (m # ms)" for k
    using that s(4) I(4) e(3) by (cases k) (auto simp: ac_simps)
  ultimately show ?case using I(2,3) s(2,3) e(3) by simp
qed

lemma for_managers_safe:
  assumes "managers_inv sha256 okr rest (co_managers co) (co_pool co)" "\<forall>k < length (co_managers co). pre (int k) (co_managers co ! k) (co_pool co)"
    and "for_managers f co = Inr (as, co')"
  shows "managers_inv sha256 okr rest (co_managers co') (co_pool co') \<and> pool_config (co_pool co') = pool_config (co_pool co) \<and>
    map mg_static (co_managers co') = map mg_static (co_managers co) \<and>
    (\<forall>k < length (co_managers co). post (int k) (co_managers co ! k) (co_managers co' ! k)) \<and>
    co' = co\<lparr>co_managers := co_managers co', co_pool := co_pool co'\<rparr>"
  using assms each_safe [of rest "co_managers co" "co_pool co" 0] by (auto simp: for_managers_def)

lemma for_managers_inv:
  assumes "co_inv sha256 okr rest co" "\<And>k. k < length (co_managers co) \<Longrightarrow> pre (int k) (co_managers co ! k) (co_pool co)"
    and "for_managers f co = Inr (as, co')"
  shows "co_inv sha256 okr rest co' \<and> co_keeps co co' \<and> (\<forall>k < length (co_managers co). post (int k) (co_managers co ! k) (co_managers co' ! k))"
proof -
  have i: "managers_inv sha256 okr rest (co_managers co) (co_pool co)" using assms(1) by (simp add: co_inv_def)
  have pre: "\<forall>k < length (co_managers co). pre (int k) (co_managers co ! k) (co_pool co)" using assms(2) by blast
  note F = for_managers_safe [OF i pre assms(3)]
  have u: "co' = co\<lparr>co_managers := co_managers co', co_pool := co_pool co'\<rparr>" using F by blast
  have "co_scheduler_block_size co' = co_scheduler_block_size co" by (subst u) simp
  moreover have "list_all static_ok (co_managers co')" using F assms(1) static_ok_list by (metis co_inv_def)
  ultimately show ?thesis using F assms(1) by (simp add: co_inv_def co_keeps_def)
qed

end

text \<open>An operation that never raises; then the loop over the managers never raises.\<close>

locale total_step = manager_step +
  assumes step_total: "\<lbrakk>mreach sha256 okr rest (m, p); pre i m p\<rbrakk> \<Longrightarrow> \<exists>a st. f i (m, p) = Inr (a, st)"
begin

lemma each_total:
  assumes "managers_inv sha256 okr rest ms p" "\<forall>k < length ms. pre (i + int k) (ms ! k) p"
  shows "\<exists>x. each_manager f i ms p = Inr x"
  using assms
proof (induction ms arbitrary: i p rest)
  case Nil
  then show ?case by simp
next
  case (Cons m ms)
  have r: "mreach sha256 okr (all_held p ms + rest) (m, p)" "\<forall>m \<in> set ms. mg_ok p m" using Cons.prems(1) by (simp_all add: managers_inv_Cons)
  have pre: "pre i m p" using Cons.prems(2) by force
  then obtain a m1 p1 where e: "f i (m, p) = Inr (a, m1, p1)" using step_total [OF r(1)] by force
  have s: "mreach sha256 okr (all_held p ms + rest) (m1, p1)" "pool_config p1 = pool_config p"
    using step_safe [OF r(1) pre e] by (simp_all add: keeps_def)
  then have "managers_inv sha256 okr rest (m1 # ms) p1"
    using r(2) by (simp add: managers_inv_Cons all_held_config [OF s(2)] mg_ok_config [OF s(2)])
  then have i1: "managers_inv sha256 okr (mg_held p1 m1 + rest) ms p1" by (simp add: managers_inv_first)
  have "pre (i + 1 + int k) (ms ! k) p1" if "k < length ms" for k
    using Cons.prems(2) [THEN spec, of "Suc k"] that pre_config [OF s(2)] by (simp add: ac_simps)
  then obtain x where "each_manager f (i + 1) ms p1 = Inr x" using Cons.IH [OF i1] by blast
  then show ?case using e by (cases x) simp
qed

lemma for_managers_total:
  assumes "co_inv sha256 okr rest co" "\<And>k. k < length (co_managers co) \<Longrightarrow> pre (int k) (co_managers co ! k) (co_pool co)"
  shows "\<exists>as co'. for_managers f co = Inr (as, co')"
  using each_total [of rest "co_managers co" "co_pool co" 0] assms by (force simp: for_managers_def co_inv_def)

end

section \<open>The operations of a manager\<close>

lemma Inr_pairD: "Inr (a, b) = Inr (a', b') \<Longrightarrow> b' = b"
  by simp

lemma mamba_probe_state:
  "mamba_get_num_blocks_to_allocate ms rid n nc t nm cap p m = Inr (k, m') \<Longrightarrow> m' = m \<or> m' = set_req_blocks rid (req_blocks rid m) m"
  apply (unfold mamba_get_num_blocks_to_allocate_def Let_def)
  apply (split if_split_asm)
   apply (rule disjI1, erule Inr_pairD)
  apply (split if_split_asm)
   apply (unfold rbind_eq_Inr, elim exE conjE, rule disjI1, erule Inr_pairD)
  apply (rule disjI2, erule Inr_pairD)
  done

lemma get_num_safe:
  assumes r: "mreach sha256 okr rest (m, p)" and e: "get_num_blocks_to_allocate rid n nc t nm cap p m = Inr (k, m')"
  shows "mreach sha256 okr rest (m', p) \<and> keeps (m, p) (m', p) \<and>
    (\<forall>rid'. req_blocks rid' m' = req_blocks rid' m) \<and> num_cached_block m' = num_cached_block m"
proof -
  have "m' = m \<or> m' = set_req_blocks rid (req_blocks rid m) m"
  proof (cases "mg_class m = MambaManager")
    case False
    then show ?thesis using e by (simp add: get_num_blocks_to_allocate_def rbind_eq_Inr)
  next
    case True
    then obtain ms where e': "mamba_get_num_blocks_to_allocate ms rid n nc t nm cap p m = Inr (k, m')"
      using e by (cases "mamba_of (mg_spec m)") (simp_all add: get_num_blocks_to_allocate_def)
    then show ?thesis by (rule mamba_probe_state)
  qed
  then show ?thesis using r mreach_same_table [OF r] by (auto simp: keeps_def req_blocks_set_if)
qed

lemma with_pool_Inr: "rbind x (\<lambda>(n, m). Inr (n, m, p)) = Inr (a, m', p') \<longleftrightarrow> x = Inr (a, m') \<and> p' = p"
  by (cases x) auto

definition probe ::
  "string \<Rightarrow> int \<Rightarrow> kv_ref list list \<Rightarrow> int \<Rightarrow> int \<Rightarrow> int \<Rightarrow> bool \<Rightarrow> int \<Rightarrow> mstate \<Rightarrow> (int \<times> mstate) result" where
  "probe rid n new enc t nm cap = (\<lambda>i (m, p).
        if mg_class m = CrossAttentionManager
        then rbind (get_num_blocks_to_allocate rid enc [] 0 enc cap p m) (\<lambda>(n, m). Inr (n, m, p))
        else rbind (py_index new i) (\<lambda>nc.
          rbind (get_num_blocks_to_allocate rid n nc t nm cap p m) (\<lambda>(n, m). Inr (n, m, p))))"

interpretation probes: manager_step sha256 okr "probe rid n new enc t nm cap" "\<lambda>_ _ _. True"
    "\<lambda>_ m m'. (\<forall>rid'. req_blocks rid' m' = req_blocks rid' m) \<and> num_cached_block m' = num_cached_block m"
  for sha256 okr rid n new enc t nm cap
proof unfold_locales
  fix rest m p i a m' p'
  assume r: "mreach sha256 okr rest (m, p)" and e: "probe rid n new enc t nm cap i (m, p) = Inr (a, m', p')"
  have "\<exists>n nc t nm. get_num_blocks_to_allocate rid n nc t nm cap p m = Inr (a, m') \<and> p' = p"
  proof (cases "mg_class m = CrossAttentionManager")
    case True
    show ?thesis using e unfolding probe_def prod.case if_P [OF True] with_pool_Inr by blast
  next
    case False
    show ?thesis using e unfolding probe_def prod.case if_not_P [OF False] rbind_eq_Inr [of "py_index _ _"] with_pool_Inr by blast
  qed
  then show "mreach sha256 okr rest (m', p') \<and> keeps (m, p) (m', p') \<and>
      (\<forall>rid'. req_blocks rid' m' = req_blocks rid' m) \<and> num_cached_block m' = num_cached_block m"
    using get_num_safe [OF r] by blast
qed simp

lemma mg_unit_Inr [simp]: "mg_unit r = Inr (a, st) \<longleftrightarrow> r = Inr st"
  by (cases r) (auto simp: mg_unit_def)

definition add_local :: "string \<Rightarrow> kv_ref list list \<Rightarrow> int \<Rightarrow> int \<Rightarrow> int \<Rightarrow> mstate \<Rightarrow> (unit \<times> mstate) result" where
  "add_local rid new nl ne = (\<lambda>i st. rbind (py_index new i) (\<lambda>nc. mg_unit (add_local_computed_blocks rid nc nl ne st)))"

interpretation locals: manager_step sha256 okr "add_local rid new nl ne"
    "\<lambda>i m p. \<forall>nc. py_index new i = Inr nc \<longrightarrow> table_ok p nc"
    "\<lambda>i m m'. \<exists>nc. py_index new i = Inr nc \<and> (mg_class m \<noteq> CrossAttentionManager \<longrightarrow>
      int (length (req_blocks rid m')) = max (get_num_skipped_tokens (mg_spec m) (nl + ne) div mg_block_size m) (int (length nc)))"
  for sha256 okr rid new nl ne
proof unfold_locales
  fix p p' i m
  assume "pool_config p' = pool_config p" "\<forall>nc. py_index new i = Inr nc \<longrightarrow> table_ok p nc"
  then show "\<forall>nc. py_index new i = Inr nc \<longrightarrow> table_ok p' nc" using table_ok_config [of p' p] by blast
next
  fix rest m p i a m' p'
  assume r: "mreach sha256 okr rest (m, p)" and t: "\<forall>nc. py_index new i = Inr nc \<longrightarrow> table_ok p nc"
    and "add_local rid new nl ne i (m, p) = Inr (a, m', p')"
  then obtain nc where nc: "py_index new i = Inr nc" "add_local_computed_blocks rid nc nl ne (m, p) = Inr (m', p')"
    unfolding add_local_def rbind_eq_Inr mg_unit_Inr by blast
  have "table_ok p nc" using t nc(1) by blast
  from add_local_safe [OF r this nc(2)] show "mreach sha256 okr rest (m', p') \<and> keeps (m, p) (m', p') \<and>
      (\<exists>nc. py_index new i = Inr nc \<and> (mg_class m \<noteq> CrossAttentionManager \<longrightarrow>
        int (length (req_blocks rid m')) = max (get_num_skipped_tokens (mg_spec m) (nl + ne) div mg_block_size m) (int (length nc))))"
    using nc(1) by simp
qed

definition add_external :: "string \<Rightarrow> int \<Rightarrow> int \<Rightarrow> int \<Rightarrow> mstate \<Rightarrow> (unit \<times> mstate) result" where
  "add_external rid nl ne = (\<lambda>i st. mg_unit (allocate_external_computed_blocks rid nl ne st))"

interpretation externals: manager_step sha256 okr "add_external rid nl ne"
    "\<lambda>i m p. mg_class m \<noteq> CrossAttentionManager \<longrightarrow> int (length (req_blocks rid m)) \<le> cdiv (nl + ne) (mg_block_size m)"
    "\<lambda>_ _ _. True"
  for sha256 okr rid nl ne
  by unfold_locales (use allocate_external_safe [where rid = rid and nl = nl and ne = ne] in \<open>auto simp: add_external_def\<close>)

definition mamba_ok :: "st_manager \<Rightarrow> bool" where
  "mamba_ok m \<longleftrightarrow> (mg_class m = MambaManager \<longrightarrow> (\<exists>ms. mg_spec m = MambaSpec ms \<and> 0 \<le> num_speculative_blocks ms))"

lemma static_mamba: "static_ok m \<Longrightarrow> mamba_ok m"
  by (cases "mg_spec m") (simp_all add: static_ok_def mamba_ok_def)

definition add_new :: "string \<Rightarrow> int \<Rightarrow> int \<Rightarrow> int \<Rightarrow> int \<Rightarrow> mstate \<Rightarrow> (kv_ref list \<times> mstate) result" where
  "add_new rid n nm enc = (\<lambda>i st. allocate_new_blocks rid (if mg_class (fst st) = CrossAttentionManager then enc else n) nm st)"

interpretation news: manager_step sha256 okr "add_new rid n nm enc" "\<lambda>_ m _. 0 \<le> nm \<and> mamba_ok m"
    "\<lambda>_ m m'. mg_class m \<noteq> CrossAttentionManager \<longrightarrow>
      min (cdiv n (mg_block_size m)) (cdiv nm (mg_block_size m)) \<le> int (length (req_blocks rid m'))"
  for sha256 okr rid n nm enc
proof unfold_locales
  fix rest m p i a m' p'
  assume r: "mreach sha256 okr rest (m, p)" and o: "0 \<le> nm \<and> mamba_ok m" and e: "add_new rid n nm enc i (m, p) = Inr (a, m', p')"
  have ms: "mg_class m = MambaManager \<Longrightarrow> \<exists>ms. mg_spec m = MambaSpec ms \<and> 0 \<le> num_speculative_blocks ms" using o by (simp add: mamba_ok_def)
  note A = allocate_new_blocks_safe [OF r _ ms, of nm rid _ a m' p']
  show "mreach sha256 okr rest (m', p') \<and> keeps (m, p) (m', p') \<and> (mg_class m \<noteq> CrossAttentionManager \<longrightarrow>
      min (cdiv n (mg_block_size m)) (cdiv nm (mg_block_size m)) \<le> int (length (req_blocks rid m')))"
    using A [of enc] A [of n] o e by (cases "mg_class m = CrossAttentionManager") (simp_all add: add_new_def)
qed simp

definition register_blocks :: "(bytes \<Rightarrow> bytes) \<Rightarrow> request \<Rightarrow> (st_manager \<Rightarrow> int) \<Rightarrow> int option \<Rightarrow> int \<Rightarrow> mstate \<Rightarrow> (unit \<times> mstate) result" where
  "register_blocks sha256 r n retention = (\<lambda>i st. mg_unit (cache_blocks sha256 r (n (fst st)) retention st))"

interpretation registers: manager_step sha256 okr "register_blocks sha256 r n retention"
    "\<lambda>_ m _. okr r \<and> (mg_class m \<noteq> CrossAttentionManager \<longrightarrow> n m div mg_block_size m \<le> int (length (req_blocks (request_id r) m)))"
    "\<lambda>_ m m'. \<forall>rid. req_blocks rid m' = req_blocks rid m"
  for sha256 okr r n retention
proof unfold_locales
  fix rest m p i a m' p'
  assume x: "mreach sha256 okr rest (m, p)"
    "okr r \<and> (mg_class m \<noteq> CrossAttentionManager \<longrightarrow> n m div mg_block_size m \<le> int (length (req_blocks (request_id r) m)))"
    "register_blocks sha256 r n retention i (m, p) = Inr (a, m', p')"
  then have e: "cache_blocks sha256 r (n m) retention (m, p) = Inr (m', p')" by (simp add: register_blocks_def)
  then have "mg_class m \<noteq> CrossAttentionManager" by (auto simp: cache_blocks_def)
  then show "mreach sha256 okr rest (m', p') \<and> keeps (m, p) (m', p') \<and> (\<forall>rid. req_blocks rid m' = req_blocks rid m)"
    using cache_blocks_safe [OF x(1) _ _ e] x(2) by blast
qed simp

interpretation frees: total_step sha256 okr "\<lambda>i st. mg_unit (mg_free rid st)" "\<lambda>_ _ _. True"
    "\<lambda>_ m m'. req_to_blocks m' = AList.delete rid (req_to_blocks m)"
  for sha256 okr rid
proof unfold_locales
  fix rest m p i and a :: unit and m' p'
  assume r: "mreach sha256 okr rest (m, p)"
  then show "\<exists>a st. mg_unit (mg_free rid (m, p)) = Inr (a, st)" using mg_free_safe [OF r, of rid] by auto
  assume e: "mg_unit (mg_free rid (m, p)) = Inr (a, m', p')"
  show "mreach sha256 okr rest (m', p') \<and> keeps (m, p) (m', p') \<and> req_to_blocks m' = AList.delete rid (req_to_blocks m)"
    using mg_free_safe [OF r, of rid] e by auto
qed simp

interpretation removes: manager_step sha256 okr "\<lambda>i st. mg_unit (remove_skipped_blocks rid n np st)" "\<lambda>_ _ _. \<forall>k. np = Some k \<longrightarrow> 0 \<le> k"
    "\<lambda>_ m m'. length (req_blocks rid m') = length (req_blocks rid m) \<and> (\<forall>rid'. rid' \<noteq> rid \<longrightarrow> req_blocks rid' m' = req_blocks rid' m) \<and>
      num_cached_block m' = num_cached_block m"
  for sha256 okr rid n np
proof unfold_locales
  fix rest m p i and a :: unit and m' p'
  assume "mreach sha256 okr rest (m, p)" "\<forall>k. np = Some k \<longrightarrow> 0 \<le> k" "mg_unit (remove_skipped_blocks rid n np (m, p)) = Inr (a, m', p')"
  then show "mreach sha256 okr rest (m', p') \<and> keeps (m, p) (m', p') \<and> length (req_blocks rid m') = length (req_blocks rid m) \<and>
      (\<forall>rid'. rid' \<noteq> rid \<longrightarrow> req_blocks rid' m' = req_blocks rid' m) \<and> num_cached_block m' = num_cached_block m"
    by (intro remove_skipped_safe) simp_all
qed simp

section \<open>The operations of the coordinator\<close>

lemma co_probe_inv:
  assumes "co_inv sha256 okr rest co" "co_get_num_blocks_to_allocate rid n new enc t nm cap co = Inr (k, co')"
  shows "co_inv sha256 okr rest co' \<and> co_keeps co co' \<and>
    (\<forall>i < length (co_managers co). (\<forall>rid'. req_blocks rid' (co_managers co' ! i) = req_blocks rid' (co_managers co ! i)) \<and>
      num_cached_block (co_managers co' ! i) = num_cached_block (co_managers co ! i))"
proof -
  obtain ns where "for_managers (probe rid n new enc t nm cap) co = Inr (ns, co')"
    using assms(2) unfolding co_get_num_blocks_to_allocate_def probe_def [symmetric] rbind_eq_Inr by auto
  from probes.for_managers_inv [OF assms(1) _ this] show ?thesis by simp
qed

lemma co_free_inv:
  assumes "co_inv sha256 okr rest co" "co_free rid co = Inr co'"
  shows "co_inv sha256 okr rest co' \<and> co_keeps co co' \<and> (\<forall>i < length (co_managers co).
    req_to_blocks (co_managers co' ! i) = AList.delete rid (req_to_blocks (co_managers co ! i)))"
proof -
  obtain us where "for_managers (\<lambda>i st. mg_unit (mg_free rid st)) co = Inr (us, co')"
    using assms(2) unfolding co_free_def rbind_eq_Inr by auto
  from frees.for_managers_inv [OF assms(1) _ this] show ?thesis by simp
qed

lemma co_free_total: "co_inv sha256 okr rest co \<Longrightarrow> \<exists>co'. co_free rid co = Inr co'"
  using frees.for_managers_total [of sha256 okr rest co rid] by (auto simp: co_free_def)

lemma co_remove_inv:
  assumes "co_inv sha256 okr rest co" "co_remove_skipped_blocks rid n np co = Inr co'" "\<forall>k. np = Some k \<longrightarrow> 0 \<le> k"
  shows "co_inv sha256 okr rest co' \<and> co_keeps co co' \<and> (\<forall>i < length (co_managers co).
    length (req_blocks rid (co_managers co' ! i)) = length (req_blocks rid (co_managers co ! i)) \<and>
    (\<forall>rid'. rid' \<noteq> rid \<longrightarrow> req_blocks rid' (co_managers co' ! i) = req_blocks rid' (co_managers co ! i)) \<and>
    num_cached_block (co_managers co' ! i) = num_cached_block (co_managers co ! i))"
proof -
  obtain us where "for_managers (\<lambda>i st. mg_unit (remove_skipped_blocks rid n np st)) co = Inr (us, co')"
    using assms(2) unfolding co_remove_skipped_blocks_def rbind_eq_Inr by auto
  from removes.for_managers_inv [OF assms(1) _ this] show ?thesis using assms(3) by blast
qed

lemma co_new_inv:
  assumes i: "co_inv sha256 okr rest co" and e: "co_allocate_new_blocks rid n nm enc co = Inr (new, co')" and n: "0 \<le> nm"
  shows "co_inv sha256 okr rest co' \<and> co_keeps co co' \<and> (\<forall>k < length (co_managers co). let m = co_managers co ! k in
    mg_class m \<noteq> CrossAttentionManager \<longrightarrow>
      min (cdiv n (mg_block_size m)) (cdiv nm (mg_block_size m)) \<le> int (length (req_blocks rid (co_managers co' ! k))))"
proof -
  have f: "for_managers (add_new rid n nm enc) co = Inr (new, co')" using e unfolding co_allocate_new_blocks_def add_new_def .
  have "static_ok (co_managers co ! k)" if "k < length (co_managers co)" for k
    using i that by (simp add: co_inv_def list_all_length)
  then have "mamba_ok (co_managers co ! k)" if "k < length (co_managers co)" for k using that static_mamba by blast
  then show ?thesis using news.for_managers_inv [OF i _ f] n by (simp add: Let_def)
qed

lemma co_computed_inv:
  assumes i: "co_inv sha256 okr rest co" and e: "co_allocate_new_computed_blocks rid new nl ne co = Inr co'"
    and t: "\<And>k. k < length (co_managers co) \<Longrightarrow> k < length new \<Longrightarrow> table_ok (co_pool co) (new ! k) \<and>
      int (length (new ! k)) \<le> cdiv (nl + ne) (mg_block_size (co_managers co ! k))" and n: "0 \<le> nl" "0 \<le> ne"
  shows "co_inv sha256 okr rest co' \<and> co_keeps co co'"
proof (cases "list_ex (\<lambda>m. num_cached_block m rid \<noteq> None) (co_managers co)")
  case True
  then have "co' = co" using e by (simp add: co_allocate_new_computed_blocks_def py_assert_def split: if_splits)
  then show ?thesis using i by simp
next
  case False
  obtain us co1 where f: "for_managers (add_local rid new nl ne) co = Inr (us, co1)"
    and g: "(if ne > 0 then rbind (for_managers (add_external rid nl ne) co1) (\<lambda>(_, co). Inr co) else Inr co1) = Inr co'"
    using e unfolding co_allocate_new_computed_blocks_def if_not_P [OF False] add_local_def [symmetric] add_external_def [symmetric] rbind_eq_Inr by auto
  have ix: "k < length new \<and> nc = new ! k" if "py_index new (int k) = Inr nc" for k nc
    using that by (simp add: py_index_def split: if_splits)
  have F: "co_inv sha256 okr rest co1" "co_keeps co co1" "\<forall>k < length (co_managers co). \<exists>nc. py_index new (int k) = Inr nc \<and>
      (mg_class (co_managers co ! k) \<noteq> CrossAttentionManager \<longrightarrow> int (length (req_blocks rid (co_managers co1 ! k))) =
        max (get_num_skipped_tokens (mg_spec (co_managers co ! k)) (nl + ne) div mg_block_size (co_managers co ! k)) (int (length nc)))"
    using locals.for_managers_inv [OF i _ f] t ix by blast+
  have st: "length (co_managers co1) = length (co_managers co)"
    "\<And>k. k < length (co_managers co) \<Longrightarrow> mg_static (co_managers co1 ! k) = mg_static (co_managers co ! k)"
    using F(2) same_static [of "co_managers co1" "co_managers co"] by (simp_all add: co_keeps_def)
  show ?thesis
  proof (cases "ne > 0")
    case False
    then show ?thesis using F(1,2) g by simp
  next
    case True
    then obtain us' where h: "for_managers (add_external rid nl ne) co1 = Inr (us', co')" using g by auto
    have "mg_class (co_managers co1 ! k) \<noteq> CrossAttentionManager \<longrightarrow>
        int (length (req_blocks rid (co_managers co1 ! k))) \<le> cdiv (nl + ne) (mg_block_size (co_managers co1 ! k))"
      if k: "k < length (co_managers co1)" for k
    proof -
      have k': "k < length (co_managers co)" using k st(1) by simp
      then have ok: "static_ok (co_managers co ! k)" "0 < mg_block_size (co_managers co ! k)"
        using i by (auto simp: co_inv_def managers_inv_def mg_ok_def list_all_length)
      have eq: "mg_class (co_managers co1 ! k) = mg_class (co_managers co ! k)" "mg_block_size (co_managers co1 ! k) = mg_block_size (co_managers co ! k)"
        using st(2) [OF k'] by (simp_all add: mg_static_def)
      have "get_num_skipped_tokens (mg_spec (co_managers co ! k)) (nl + ne) div mg_block_size (co_managers co ! k) \<le>
          cdiv (nl + ne) (mg_block_size (co_managers co ! k))"
        using skipped_le [of "mg_spec (co_managers co ! k)" "nl + ne"] ok n by (intro div_le_cdiv) (simp_all add: static_ok_def)
      moreover obtain nc where nc: "py_index new (int k) = Inr nc" "mg_class (co_managers co ! k) \<noteq> CrossAttentionManager \<longrightarrow>
          int (length (req_blocks rid (co_managers co1 ! k))) =
            max (get_num_skipped_tokens (mg_spec (co_managers co ! k)) (nl + ne) div mg_block_size (co_managers co ! k)) (int (length nc))"
        using F(3) k' by blast
      moreover have "int (length nc) \<le> cdiv (nl + ne) (mg_block_size (co_managers co ! k))" using ix [OF nc(1)] t [OF k'] by blast
      ultimately show ?thesis unfolding eq by simp
    qed
    then have "co_inv sha256 okr rest co' \<and> co_keeps co1 co'" using externals.for_managers_inv [OF F(1) _ h] by blast
    then show ?thesis using F(2) co_keeps_trans by blast
  qed
qed

text \<open>Registration: every manager has blocks for the tokens it is asked to register.\<close>

lemma co_cache_inv:
  assumes i: "co_inv sha256 okr rest co" and e: "co_cache_blocks sha256 r n co = Inr co'" and r: "okr r" and n: "0 \<le> n"
    and t: "\<And>k. k < length (co_managers co) \<Longrightarrow> mg_class (co_managers co ! k) \<noteq> CrossAttentionManager \<Longrightarrow>
      n div mg_block_size (co_managers co ! k) \<le> int (length (req_blocks (request_id r) (co_managers co ! k)))"
  shows "co_inv sha256 okr rest co' \<and> co_keeps co co' \<and>
    (\<forall>k < length (co_managers co). \<forall>rid. req_blocks rid (co_managers co' ! k) = req_blocks rid (co_managers co ! k))"
proof -
  define tokens where "tokens = (\<lambda>m :: st_manager. if co_kind co \<noteq> Hybrid then n
    else let aligned = n div co_scheduler_block_size co * co_scheduler_block_size co in
      if mg_use_eagle m \<and> aligned > 0 then min n (aligned + mg_block_size m) else aligned)"
  obtain us where f: "for_managers (register_blocks sha256 r tokens (co_retention_interval co)) co = Inr (us, co')"
    using e unfolding co_cache_blocks_def Let_def register_blocks_def tokens_def rbind_eq_Inr by auto
  have "n div co_scheduler_block_size co * co_scheduler_block_size co \<le> n"
    using i by (simp add: co_inv_def minus_mod_eq_div_mult [symmetric])
  then have "tokens m \<le> n" for m by (simp add: tokens_def Let_def)
  then have le: "tokens (co_managers co ! k) div mg_block_size (co_managers co ! k) \<le> n div mg_block_size (co_managers co ! k)"
    if "k < length (co_managers co)" for k
    using i that by (intro zdiv_mono1) (auto simp: co_inv_def managers_inv_def mg_ok_def)
  show ?thesis
  proof (rule registers.for_managers_inv [OF i _ f])
    fix k assume k: "k < length (co_managers co)"
    show "okr r \<and> (mg_class (co_managers co ! k) \<noteq> CrossAttentionManager \<longrightarrow>
        tokens (co_managers co ! k) div mg_block_size (co_managers co ! k) \<le> int (length (req_blocks (request_id r) (co_managers co ! k))))"
      using r le [OF k] t [OF k] by force
  qed
qed

text \<open>Operations on the managers alone: what leaves the tables is added to what the caller holds.\<close>

lemma managers_inv_map:
  assumes "managers_inv sha256 okr rest ms p" "\<And>m. m \<in> set ms \<Longrightarrow> mg_ok p m \<Longrightarrow> mg_ok p (f m) \<and> mg_held p m = mg_held p (f m) + g m"
  shows "managers_inv sha256 okr (rest + (\<Sum>m \<leftarrow> ms. g m)) (map f ms) p"
proof -
  have ok: "\<forall>m \<in> set ms. mg_ok p m" using assms(1) by (simp add: managers_inv_def)
  have "all_held p ms = all_held p (map f ms) + (\<Sum>m \<leftarrow> ms. g m)"
    using assms(2) ok by (induction ms) (auto simp: all_held_def ac_simps)
  then show ?thesis using assms ok by (auto simp: managers_inv_def ac_simps)
qed

lemma co_map_inv:
  assumes "co_inv sha256 okr rest co"
    and "\<And>m. m \<in> set (co_managers co) \<Longrightarrow> mg_ok (co_pool co) m \<Longrightarrow>
      mg_ok (co_pool co) (f m) \<and> mg_held (co_pool co) m = mg_held (co_pool co) (f m) + g m \<and> mg_static (f m) = mg_static m"
  shows "co_inv sha256 okr (rest + (\<Sum>m \<leftarrow> co_managers co. g m)) (co\<lparr>co_managers := map f (co_managers co)\<rparr>)"
proof -
  have m: "managers_inv sha256 okr rest (co_managers co) (co_pool co)" using assms(1) by (simp add: co_inv_def)
  then have "map mg_static (map f (co_managers co)) = map mg_static (co_managers co)" using assms(2) by (simp add: managers_inv_def)
  note S = static_ok_list [OF this]
  have "managers_inv sha256 okr (rest + (\<Sum>m \<leftarrow> co_managers co. g m)) (map f (co_managers co)) (co_pool co)"
    using assms(2) by (intro managers_inv_map [OF m]) blast
  then show ?thesis using S assms(1) by (simp add: co_inv_def)
qed

lemma co_pop_inv:
  assumes i: "co_inv sha256 okr rest co" and e: "co_pop_blocks_for_free rid co = (bs, co')"
  shows "co_inv sha256 okr (rest + real_blocks (co_pool co) bs) co' \<and> co_pool co' = co_pool co \<and> bs = concat (map (req_blocks rid) (co_managers co)) \<and>
    list_all (known (co_pool co)) bs"
proof -
  have ok: "mg_ok (co_pool co) m" if "m \<in> set (co_managers co)" for m using i that by (simp add: co_inv_def managers_inv_def)
  have P: "mg_ok (co_pool co) (snd (pop_blocks_for_free rid m)) \<and>
      mg_held (co_pool co) m = mg_held (co_pool co) (snd (pop_blocks_for_free rid m)) + real_blocks (co_pool co) (req_blocks rid m) \<and>
      mg_static (snd (pop_blocks_for_free rid m)) = mg_static m \<and> fst (pop_blocks_for_free rid m) = req_blocks rid m" if "m \<in> set (co_managers co)" for m
    using pop_blocks_ok [OF ok [OF that] surjective_pairing] held_split [OF ok [OF that], of rid] by (simp add: ac_simps)
  then have bs: "bs = concat (map (req_blocks rid) (co_managers co))" "co' = co\<lparr>co_managers := map (\<lambda>m. snd (pop_blocks_for_free rid m)) (co_managers co)\<rparr>"
    using e by (auto simp: co_pop_blocks_for_free_def Let_def comp_def intro!: arg_cong [of _ _ concat])
  have "real_blocks p (concat (map (req_blocks rid) ms)) = (\<Sum>m \<leftarrow> ms. real_blocks p (req_blocks rid m))" for p and ms :: "st_manager list"
    by (induction ms) auto
  then have "real_blocks (co_pool co) bs = (\<Sum>m \<leftarrow> co_managers co. real_blocks (co_pool co) (req_blocks rid m))" by (simp add: bs(1))
  then have "co_inv sha256 okr (rest + real_blocks (co_pool co) bs) co'"
    using co_map_inv [OF i, of "\<lambda>m. snd (pop_blocks_for_free rid m)" "\<lambda>m. real_blocks (co_pool co) (req_blocks rid m)"] P by (simp add: bs(2))
  moreover have "list_all (known (co_pool co)) bs" using table_ok_req [OF ok] by (auto simp: bs(1) table_ok_def list_all_iff)
  ultimately show ?thesis using bs by simp
qed

text \<open>Operations on the pool alone.\<close>

lemma co_pool_inv:
  assumes "co_inv sha256 okr rest co" "pool_config p = pool_config (co_pool co)"
    and "\<And>reg. \<exists>reg'. pool_step sha256 okr (co_pool co, all_held (co_pool co) (co_managers co) + rest, reg)
      (p, all_held (co_pool co) (co_managers co) + rest', reg')"
  shows "co_inv sha256 okr rest' (co\<lparr>co_pool := p\<rparr>)"
proof -
  obtain reg reg' where "pool_reach sha256 okr (co_pool co, all_held (co_pool co) (co_managers co) + rest, reg)"
    "pool_step sha256 okr (co_pool co, all_held (co_pool co) (co_managers co) + rest, reg) (p, all_held (co_pool co) (co_managers co) + rest', reg')"
    using assms by (auto simp: co_inv_def managers_inv_def) metis
  then have "pool_reach sha256 okr (p, all_held p (co_managers co) + rest', reg')"
    using all_held_config [OF assms(2)] by (auto intro: pool_reach.step)
  then show ?thesis using assms(1) mg_ok_config [OF assms(2)] by (auto simp: co_inv_def managers_inv_def)
qed

end
