(* ===== verification/KV_Reach.thy ===== *)
theory KV_Reach
  imports KV_Accounting
begin

text \<open>
  The states that \<^verbatim>\<open>KVCacheManager\<close> can reach when its callers respect the contract of its
  methods, and what holds in all of them: the references of the pool are the entries
  of the block tables, a request can always be freed, and nothing is left behind.
\<close>

lemma ok_on_coordinator:
  assumes "ok_res (\<lambda>(a, co). Q (a, km\<lparr>km_coordinator := co\<rparr>)) res"
  shows "ok_res Q (on_coordinator res km)"
  using assms unfolding on_coordinator_def by (rule ok_bind) auto

section \<open>allocate_slots\<close>

text \<open>What the scheduler owes \<^verbatim>\<open>allocate_slots\<close>: counts that are not negative, a request
  that fits the model's length, and computed blocks that are blocks of the pool
  without repetition, not more than the computed tokens need.\<close>

definition slots_ok :: "request \<Rightarrow> int \<Rightarrow> slot_args \<Rightarrow> kv_cache_manager \<Rightarrow> bool" where
  "slots_ok r n a km \<longleftrightarrow> 0 \<le> n \<and> 0 \<le> num_computed_tokens r \<and> 0 \<le> num_prompt_tokens r \<and> 0 \<le> num_new_computed_tokens a \<and>
    0 \<le> num_lookahead_tokens a \<and> 0 \<le> num_external_computed_tokens a \<and> num_tokens r \<le> km_max_model_len km \<and>
    (let bs = (case new_computed_blocks a of None \<Rightarrow> [] | Some b \<Rightarrow> kb_blocks b); ms = co_managers (km_coordinator km) in
     \<forall>k < length ms. k < length bs \<longrightarrow> table_ok (km_pool km) (bs ! k) \<and>
       int (length (bs ! k)) \<le> cdiv (num_computed_tokens r + num_new_computed_tokens a + num_external_computed_tokens a) (mg_block_size (ms ! k)))"

definition slots_state :: "(bytes \<Rightarrow> bytes) \<Rightarrow> (request \<Rightarrow> bool) \<Rightarrow> kv_ref multiset \<Rightarrow> kv_cache_manager \<Rightarrow> kv_cache_manager \<Rightarrow> bool" where
  "slots_state sha256 okr rest km km' \<longleftrightarrow> co_inv sha256 okr rest (km_coordinator km') \<and> co_keeps (km_coordinator km) (km_coordinator km') \<and>
    km' = km\<lparr>km_coordinator := km_coordinator km'\<rparr>"

lemma slots_stateI:
  "slots_state sha256 okr rest km km1 \<Longrightarrow> co_inv sha256 okr rest co \<Longrightarrow> co_keeps (km_coordinator km1) co \<Longrightarrow>
    slots_state sha256 okr rest km (km1\<lparr>km_coordinator := co\<rparr>)"
  by (cases km; cases km1) (auto simp: slots_state_def intro: co_keeps_trans)

lemma slots_state_refl: "co_inv sha256 okr rest (km_coordinator km) \<Longrightarrow> slots_state sha256 okr rest km km"
  by (simp add: slots_state_def)

lemma slots_probe:
  assumes "slots_state sha256 okr rest km km1"
  shows "ok_res (\<lambda>(n, km2). slots_state sha256 okr rest km km2)
    (on_coordinator (co_get_num_blocks_to_allocate rid n new enc t nm cap (km_coordinator km1)) km1)"
proof (rule ok_on_coordinator, unfold ok_res_def, intro allI impI)
  fix y assume e: "co_get_num_blocks_to_allocate rid n new enc t nm cap (km_coordinator km1) = Inr y"
  obtain k co where y: "y = (k, co)" by fastforce
  have "co_inv sha256 okr rest (km_coordinator km1)" using assms by (simp add: slots_state_def)
  from co_probe_inv [OF this e [unfolded y]] slots_stateI [OF assms, of co] show "case y of (a, co) \<Rightarrow>
      case (a, km1\<lparr>km_coordinator := co\<rparr>) of (n, km2) \<Rightarrow> slots_state sha256 okr rest km km2" by (simp add: y)
qed

lemma slots_computed_ok:
  assumes s: "slots_ok r n a km" and st: "slots_state sha256 okr rest km km1"
    and bs: "bs = kb_blocks (case new_computed_blocks a of None \<Rightarrow> EmptyBlocks m | Some b \<Rightarrow> b)"
    and k: "k < length (co_managers (km_coordinator km1))" "k < length bs"
  shows "table_ok (km_pool km1) (bs ! k) \<and> int (length (bs ! k)) \<le>
    cdiv (num_computed_tokens r + num_new_computed_tokens a + num_external_computed_tokens a) (mg_block_size (co_managers (km_coordinator km1) ! k))"
proof -
  have c: "pool_config (km_pool km1) = pool_config (km_pool km)"
    "map mg_static (co_managers (km_coordinator km1)) = map mg_static (co_managers (km_coordinator km))"
    using st by (simp_all add: slots_state_def co_keeps_def)
  have k': "k < length (co_managers (km_coordinator km))" using k(1) same_static(1) [OF c(2)] by simp
  have sz: "mg_block_size (co_managers (km_coordinator km1) ! k) = mg_block_size (co_managers (km_coordinator km) ! k)"
    using same_static(2) [OF c(2) k'] by (simp add: mg_static_def)
  have pos: "0 < mg_block_size (co_managers (km_coordinator km1) ! k)"
    using st k(1) by (auto simp: slots_state_def co_inv_def managers_inv_def mg_ok_def)
  show ?thesis
  proof (cases "new_computed_blocks a")
    case None
    then have "bs ! k = []" using bs k(2) by simp
    then show ?thesis using s pos by (simp add: table_ok_def cdiv_nonneg slots_ok_def)
  next
    case (Some b)
    then show ?thesis using s k' k(2) bs by (simp add: slots_ok_def Let_def table_ok_config [OF c(1)] sz)
  qed
qed

lemma slots_remove:
  assumes "slots_state sha256 okr rest km km1" "0 \<le> np"
  shows "ok_res (slots_state sha256 okr rest km) (km_remove_skipped_blocks rid n (Some np) km1)"
  unfolding km_remove_skipped_blocks_def
proof (rule ok_bind)
  have "co_inv sha256 okr rest (km_coordinator km1)" using assms by (simp add: slots_state_def)
  from co_remove_inv [OF this] show "ok_res (\<lambda>co. co_inv sha256 okr rest co \<and> co_keeps (km_coordinator km1) co)
      (co_remove_skipped_blocks rid n (Some np) (km_coordinator km1))"
    using assms(2) by (auto simp: ok_res_def)
qed (use slots_stateI [OF assms(1)] in simp)

lemma slots_computed:
  assumes s: "slots_ok r n a km" and st: "slots_state sha256 okr rest km km1"
    and bs: "bs = kb_blocks (case new_computed_blocks a of None \<Rightarrow> EmptyBlocks m | Some b \<Rightarrow> b)"
  shows "ok_res (slots_state sha256 okr rest km) (if c
    then rbind (co_allocate_new_computed_blocks rid bs (num_computed_tokens r + num_new_computed_tokens a) (num_external_computed_tokens a) (km_coordinator km1))
      (\<lambda>co. Inr (km1\<lparr>km_coordinator := co\<rparr>)) else Inr km1)"
proof (rule ok_if)
  have i: "co_inv sha256 okr rest (km_coordinator km1)" using st by (simp add: slots_state_def)
  have n: "0 \<le> num_computed_tokens r + num_new_computed_tokens a" "0 \<le> num_external_computed_tokens a" using s by (simp_all add: slots_ok_def)
  show "ok_res (slots_state sha256 okr rest km)
     (rbind (co_allocate_new_computed_blocks rid bs (num_computed_tokens r + num_new_computed_tokens a) (num_external_computed_tokens a) (km_coordinator km1))
      (\<lambda>co. Inr (km1\<lparr>km_coordinator := co\<rparr>)))"
  proof (rule ok_bind)
    show "ok_res (\<lambda>co. co_inv sha256 okr rest co \<and> co_keeps (km_coordinator km1) co)
        (co_allocate_new_computed_blocks rid bs (num_computed_tokens r + num_new_computed_tokens a) (num_external_computed_tokens a) (km_coordinator km1))"
      unfolding ok_res_def using co_computed_inv [OF i _ _ n] slots_computed_ok [OF s st bs] by blast
  qed (use slots_stateI [OF st] in simp)
qed (use st in simp)

text \<open>New blocks for \<open>need\<close> tokens, at least for all tokens to be registered.\<close>

lemma slots_new:
  assumes st: "slots_state sha256 okr rest km km1" and n: "0 \<le> nm" "t \<le> nm" "t \<le> need"
  shows "ok_res (\<lambda>(new, km2). slots_state sha256 okr rest km km2 \<and> (\<forall>k < length (co_managers (km_coordinator km2)).
      let m = co_managers (km_coordinator km2) ! k in mg_class m \<noteq> CrossAttentionManager \<longrightarrow> t div mg_block_size m \<le> int (length (req_blocks rid m))))
    (on_coordinator (co_allocate_new_blocks rid need nm enc (km_coordinator km1)) km1)"
proof (rule ok_on_coordinator, unfold ok_res_def, intro allI impI)
  fix y assume e: "co_allocate_new_blocks rid need nm enc (km_coordinator km1) = Inr y"
  obtain new co where y: "y = (new, co)" by fastforce
  have i: "co_inv sha256 okr rest (km_coordinator km1)" using st by (simp add: slots_state_def)
  note N = co_new_inv [OF i e [unfolded y] n(1)]
  have S: "slots_state sha256 okr rest km (km1\<lparr>km_coordinator := co\<rparr>)" using N slots_stateI [OF st] by blast
  have ks: "map mg_static (co_managers co) = map mg_static (co_managers (km_coordinator km1))" using N by (simp add: co_keeps_def)
  have "t div mg_block_size (co_managers co ! k) \<le> int (length (req_blocks rid (co_managers co ! k)))"
    if k: "k < length (co_managers co)" and c: "mg_class (co_managers co ! k) \<noteq> CrossAttentionManager" for k
  proof -
    have k': "k < length (co_managers (km_coordinator km1))" using k same_static(1) [OF ks] by simp
    note eq = same_static(2) [OF ks k']
    have "0 < mg_block_size (co_managers co ! k)" using N k by (auto simp: co_inv_def managers_inv_def mg_ok_def)
    then have "t div mg_block_size (co_managers co ! k) \<le> min (cdiv need (mg_block_size (co_managers co ! k))) (cdiv nm (mg_block_size (co_managers co ! k)))"
      using n by (simp add: div_le_cdiv)
    also have "\<dots> \<le> int (length (req_blocks rid (co_managers co ! k)))"
      using N k' c eq by (simp add: mg_static_def Let_def)
    finally show ?thesis .
  qed
  then show "case y of (a, co) \<Rightarrow> case (a, km1\<lparr>km_coordinator := co\<rparr>) of (new, km2) \<Rightarrow> slots_state sha256 okr rest km km2 \<and>
      (\<forall>k < length (co_managers (km_coordinator km2)). let m = co_managers (km_coordinator km2) ! k in
        mg_class m \<noteq> CrossAttentionManager \<longrightarrow> t div mg_block_size m \<le> int (length (req_blocks rid m)))"
    using S by (simp add: y Let_def)
qed

lemma slots_cache:
  assumes st: "slots_state sha256 okr rest km km1" and r: "okr r" "0 \<le> t"
    and t: "\<forall>k < length (co_managers (km_coordinator km1)). let m = co_managers (km_coordinator km1) ! k in
      mg_class m \<noteq> CrossAttentionManager \<longrightarrow> t div mg_block_size m \<le> int (length (req_blocks (request_id r) m))"
  shows "ok_res (\<lambda>co. slots_state sha256 okr rest km (km1\<lparr>km_coordinator := co\<rparr>)) (co_cache_blocks sha256 r t (km_coordinator km1))"
  unfolding ok_res_def
proof (intro allI impI)
  fix co assume e: "co_cache_blocks sha256 r t (km_coordinator km1) = Inr co"
  have i: "co_inv sha256 okr rest (km_coordinator km1)" using st by (simp add: slots_state_def)
  have "co_inv sha256 okr rest co \<and> co_keeps (km_coordinator km1) co"
    using co_cache_inv [OF i e r] t by (simp add: Let_def)
  then show "slots_state sha256 okr rest km (km1\<lparr>km_coordinator := co\<rparr>)" using slots_stateI [OF st] by blast
qed

lemma allocate_slots_inv:
  assumes i: "co_inv sha256 okr rest (km_coordinator km)" and r: "okr r" and s: "slots_ok r n a km"
  shows "ok_res (\<lambda>(b, km'). slots_state sha256 okr rest km km') (allocate_slots sha256 r n a km)"
proof -
  let ?S = "slots_state sha256 okr rest km"
  define t where "t = min (num_computed_tokens r + num_new_computed_tokens a + num_external_computed_tokens a) (km_max_model_len km)"
  have refl: "?S km" using i by (rule slots_state_refl)
  have mml: "?S km1 \<Longrightarrow> km_max_model_len km1 = km_max_model_len km" for km1
    by (cases km; cases km1) (simp add: slots_state_def)
  have np: "0 \<le> num_prompt_tokens r" "0 \<le> t + n" "0 \<le> min (t + n) (num_tokens r)" using s by (auto simp: slots_ok_def num_tokens_def t_def)
  have need: "?S km1 \<Longrightarrow> min (t + n) (num_tokens r) \<le> min (t + n + num_lookahead_tokens a) (km_max_model_len km1)" for km1
    using s by (auto simp: slots_ok_def mml)
  have fits: "ok_res (\<lambda>(f, km1). ?S km1) (if c then rbind (on_coordinator (co_get_num_blocks_to_allocate (request_id r) full new enc t full True
      (km_coordinator km)) km) (\<lambda>(n, km). Inr (g n km, km)) else Inr (True, km))" for c full new enc g
    by (intro ok_if ok_bind2 [OF slots_probe [OF refl]]) (simp_all add: refl)
  show ?thesis
    unfolding allocate_slots_def Let_def t_def [symmetric]
    apply (rule ok_if, simp)
    apply (rule ok_bind2 [OF fits], rename_tac f km1)
    apply (rule ok_if, simp)
    apply (rule ok_bind [OF slots_remove [OF _ np(1)]], assumption, rename_tac km2)
    apply (rule ok_bind2 [OF slots_probe], assumption, rename_tac k km3)
    apply (rule ok_if, simp)
    apply (rule ok_bind [OF slots_computed [OF s _ HOL.refl]], assumption, rename_tac km4)
    apply (rule ok_bind2 [OF slots_new [OF _ np(2) min.cobounded1 need]], assumption, assumption, rename_tac new km5)
    apply (rule ok_if, simp)
    apply (rule ok_bind [OF slots_cache [where okr = okr and r = r, OF _ r np(3)]], blast, blast)
    apply simp
    done
qed

section \<open>The constructed manager\<close>

definition eagle_variant :: "st_manager \<Rightarrow> st_manager \<Rightarrow> bool" where
  "eagle_variant m m' \<longleftrightarrow> m' = m\<lparr>mg_use_eagle := mg_use_eagle m'\<rparr>"

lemma eagle_variant_refl [simp]: "eagle_variant m m" "eagle_variant m (m\<lparr>mg_use_eagle := e\<rparr>)"
  by (simp_all add: eagle_variant_def)

lemma unitary_init_fresh:
  "unitary_init co = Inr co' \<Longrightarrow> co_pool co' = co_pool co \<and> co_scheduler_block_size co' = co_scheduler_block_size co \<and>
    list_all2 eagle_variant (co_managers co) (co_managers co')"
  by (cases "co_managers co") (auto simp: unitary_init_def Let_def py_assert_def list_all2_refl split: if_splits)

lemma hybrid_init_fresh:
  assumes "hybrid_init co = Inr co'"
  shows "co_pool co' = co_pool co \<and> co_scheduler_block_size co' = co_scheduler_block_size co \<and>
    list_all2 eagle_variant (co_managers co) (co_managers co')"
proof -
  obtain gs where gs: "split_groups co = Inr gs"
    using assms by (cases "split_groups co") (auto simp: hybrid_init_def py_assert_def split: if_splits)
  then show ?thesis
    using assms unfolding hybrid_init_def py_assert_def Let_def gs rbind.simps by (auto simp: list_all2_conv_all_nth split: if_split_asm)
qed

lemma coordinator_fresh:
  assumes "get_kv_cache_coordinator c mml mbt ue caching ev ui dcp pcp sbs hbs ret = Inr co"
  shows "pool_init (num_blocks c) caching hbs ev ui = Inr (co_pool co) \<and> co_scheduler_block_size co = sbs \<and>
    (\<exists>co0. list_all2 eagle_variant (co_managers co0) (co_managers co) \<and> co_pool co0 = co_pool co \<and> co_config co0 = c \<and>
      length (co_managers co0) = length (kv_cache_groups c) \<and>
      (\<forall>i < length (kv_cache_groups c). fresh_manager co0 (int i) (co_managers co0 ! i)))"
proof -
  obtain kind co0 where b: "base_init kind c mml mbt ue caching ev ui dcp pcp sbs hbs ret = Inr co0"
    and v: "co_pool co = co_pool co0 \<and> co_scheduler_block_size co = co_scheduler_block_size co0 \<and> list_all2 eagle_variant (co_managers co0) (co_managers co)"
  proof (cases "\<not> caching")
    case True
    then show ?thesis using assms that [of NoPrefixCache co] by (simp add: get_kv_cache_coordinator_def list_all2_refl)
  next
    case c: False
    show ?thesis
    proof (cases "length (kv_cache_groups c) = 1")
      case True
      then show ?thesis using assms c that [of Unitary] unitary_init_fresh by (auto simp: get_kv_cache_coordinator_def)
    next
      case False
      then show ?thesis using assms c that [of Hybrid] hybrid_init_fresh by (auto simp: get_kv_cache_coordinator_def)
    qed
  qed
  note B = base_init_ok(1,2,3,6,11) [OF b]
  have "list_all2 eagle_variant (co_managers co0) (co_managers co) \<and> co_pool co0 = co_pool co \<and> co_config co0 = c \<and>
      length (co_managers co0) = length (kv_cache_groups c) \<and>
      (\<forall>i < length (kv_cache_groups c). fresh_manager co0 (int i) (co_managers co0 ! i))"
    using B v by simp
  then show ?thesis using B(1,4) v by (simp only: ex_comm) blast
qed

lemma fresh_manager_ok:
  assumes f: "fresh_manager co0 (int i) m0" and v: "eagle_variant m0 m" and n: "null_block (co_pool co0) = Blk 0"
    and s: "sane_spec (group_spec (kv_cache_groups (co_config co0) ! i))"
  shows "mg_ok p m" "static_ok m" "mg_held p m = {#}" "req_to_blocks m = []"
proof -
  have m: "req_to_blocks m = req_to_blocks m0" "mg_class m = mg_class m0" "mg_spec m = mg_spec m0" "mg_null_block m = mg_null_block m0"
    "mg_block_size m = mg_block_size m0" "num_cached_block m = num_cached_block m0" "allocated_block_reqs m = allocated_block_reqs m0"
    by (subst v [unfolded eagle_variant_def], simp)+
  have pos: "0 < spec_block_size (group_spec (kv_cache_groups (co_config co0) ! i))"
    using s by (cases "group_spec (kv_cache_groups (co_config co0) ! i)") auto
  then have "0 < mg_block_size m" using f m(5) by (simp add: fresh_manager_def Let_def)
  then show "mg_ok p m" using f m n by (simp add: fresh_manager_def Let_def mg_ok_def align_ok_def)
  show "static_ok m" "mg_held p m = {#}" "req_to_blocks m = []"
    using f m s by (simp_all add: fresh_manager_def Let_def static_ok_def mg_held_def tables_def)
qed

lemma km_init_inv:
  assumes k: "km_init c mml sbs hbs mbt caching ue logs ev ui dcp pcp wm ret = Inr km" and pos: "0 < hbs" "0 < sbs"
    and s: "list_all (\<lambda>g. sane_spec (group_spec g)) (kv_cache_groups c)"
  shows "co_inv sha256 okr {#} (km_coordinator km)"
proof -
  obtain mbt' where g: "get_kv_cache_coordinator c mml mbt' ue caching ev ui dcp pcp sbs hbs ret = Inr (km_coordinator km)"
    using k by (auto simp: km_init_def Let_def py_assert_def split: if_splits)
  obtain co0 where C: "pool_init (num_blocks c) caching hbs ev ui = Inr (km_pool km)" "co_scheduler_block_size (km_coordinator km) = sbs"
    "list_all2 eagle_variant (co_managers co0) (co_managers (km_coordinator km))" "co_pool co0 = km_pool km" "co_config co0 = c"
    "length (co_managers co0) = length (kv_cache_groups c)" "\<forall>i < length (kv_cache_groups c). fresh_manager co0 (int i) (co_managers co0 ! i)"
    using coordinator_fresh [OF g] by metis
  have "num_blocks c > 0" using C(1) by (auto simp: pool_init_def py_assert_def split: if_splits)
  then have null: "null_block (co_pool co0) = Blk 0" using pool_init_ok [of "num_blocks c" caching hbs ev ui] C(1,4) by (auto simp: pool_config_def)
  have F: "mg_ok (km_pool km) m \<and> static_ok m \<and> mg_held (km_pool km) m = {#}" if m: "m \<in> set (co_managers (km_coordinator km))" for m
  proof -
    obtain i where i: "i < length (co_managers (km_coordinator km))" "m = co_managers (km_coordinator km) ! i" using m by (auto simp: in_set_conv_nth)
    then have i': "i < length (kv_cache_groups c)" "eagle_variant (co_managers co0 ! i) m" using C(3,6) by (simp_all add: list_all2_conv_all_nth)
    have "sane_spec (group_spec (kv_cache_groups (co_config co0) ! i))" using s i'(1) by (simp add: C(5) list_all_length)
    then show ?thesis using fresh_manager_ok [OF _ i'(2) null] C(7) i'(1) by blast
  qed
  have "all_held (km_pool km) (co_managers (km_coordinator km)) = {#}" using F by (simp add: all_held_def sum_list_0 cong: map_cong)
  moreover have "pool_reach sha256 okr (km_pool km, {#}, \<lambda>_. {})" using C(1) pos(1) by (rule pool_reach.start)
  ultimately show ?thesis using F C(2) pos(2) by (auto simp: co_inv_def managers_inv_def list_all_iff)
qed

section \<open>Reachable states\<close>

text \<open>A state is the manager together with the references its callers hold: blocks that
  \<^verbatim>\<open>pop_blocks_for_free\<close> handed out and that are not yet freed.\<close>

type_synonym kv_state = "kv_cache_manager \<times> kv_ref multiset"

definition has_blocks_for :: "request \<Rightarrow> int \<Rightarrow> kv_cache_manager \<Rightarrow> bool" where
  "has_blocks_for r n km \<longleftrightarrow> list_all (\<lambda>m. mg_class m \<noteq> CrossAttentionManager \<longrightarrow>
    n div mg_block_size m \<le> int (length (req_blocks (request_id r) m))) (co_managers (km_coordinator km))"

inductive kv_step :: "(bytes \<Rightarrow> bytes) \<Rightarrow> (request \<Rightarrow> bool) \<Rightarrow> kv_state \<Rightarrow> kv_state \<Rightarrow> bool" for sha256 okr where
  lookup: "get_computed_blocks r km = Some (Inr (b, n, km')) \<Longrightarrow> kv_step sha256 okr (km, rest) (km', rest)"
| slots: "\<lbrakk>okr r; slots_ok r n a km; allocate_slots sha256 r n a km = Inr (b, km')\<rbrakk> \<Longrightarrow> kv_step sha256 okr (km, rest) (km', rest)"
| cache: "\<lbrakk>okr r; 0 \<le> n; has_blocks_for r n km; km_cache_blocks sha256 r n km = Inr km'\<rbrakk> \<Longrightarrow> kv_step sha256 okr (km, rest) (km', rest)"
| free: "km_free r km = Inr km' \<Longrightarrow> kv_step sha256 okr (km, rest) (km', rest)"
| remove: "\<lbrakk>\<forall>k. np = Some k \<longrightarrow> 0 \<le> k; km_remove_skipped_blocks rid n np km = Inr km'\<rbrakk> \<Longrightarrow> kv_step sha256 okr (km, rest) (km', rest)"
| pop: "km_pop_blocks_for_free r km = (bs, km') \<Longrightarrow> kv_step sha256 okr (km, rest) (km', rest + real_blocks (km_pool km) bs)"
| release: "\<lbrakk>list_all (known (km_pool km)) bs; real_blocks (km_pool km) bs \<subseteq># rest; free_blocks bs (km_pool km) = Inr p\<rbrakk> \<Longrightarrow>
    kv_step sha256 okr (km, rest) (set_pool p km, rest - real_blocks (km_pool km) bs)"
| evict: "\<lbrakk>list_all (\<lambda>i. 0 \<le> i) ids; km_evict_blocks ids km = Inr km'\<rbrakk> \<Longrightarrow> kv_step sha256 okr (km, rest) (km', rest)"
| reset: "km_reset_prefix_cache km = Inr (b, km') \<Longrightarrow> kv_step sha256 okr (km, rest) (km', rest)"
| common_prefix: "km_get_num_common_prefix_blocks rid km = (ns, km') \<Longrightarrow> kv_step sha256 okr (km, rest) (km', rest)"
| take_events: "km_take_events km = (es, km') \<Longrightarrow> kv_step sha256 okr (km, rest) (km', rest)"
| take_new_ids: "km_take_new_block_ids km = (ids, km') \<Longrightarrow> kv_step sha256 okr (km, rest) (km', rest)"
| new_step: "kv_step sha256 okr (km, rest) (km_new_step_starts km, rest)"
| stats: "make_prefix_cache_stats km = (st, km') \<Longrightarrow> kv_step sha256 okr (km, rest) (km', rest)"

inductive kv_reach :: "(bytes \<Rightarrow> bytes) \<Rightarrow> (request \<Rightarrow> bool) \<Rightarrow> kv_state \<Rightarrow> bool" for sha256 okr where
  start: "\<lbrakk>km_init c mml sbs hbs mbt caching ue logs ev ui dcp pcp wm ret = Inr km; 0 < hbs; 0 < sbs;
     list_all (\<lambda>g. sane_spec (group_spec g)) (kv_cache_groups c)\<rbrakk> \<Longrightarrow> kv_reach sha256 okr (km, {#})"
| step: "\<lbrakk>kv_reach sha256 okr s; kv_step sha256 okr s s'\<rbrakk> \<Longrightarrow> kv_reach sha256 okr s'"

lemma co_inv_cong:
  "co_managers co' = co_managers co \<Longrightarrow> co_pool co' = co_pool co \<Longrightarrow> co_scheduler_block_size co' = co_scheduler_block_size co \<Longrightarrow>
    co_inv sha256 okr rest co' \<longleftrightarrow> co_inv sha256 okr rest co"
  by (simp add: co_inv_def)

lemma find_hit_state:
  "co_find_longest_cache_hit hs n co = Some (Inr (bl, k, co')) \<Longrightarrow>
    co_managers co' = co_managers co \<and> co_pool co' = co_pool co \<and> co_scheduler_block_size co' = co_scheduler_block_size co"
  by (cases "co_kind co")
    (auto simp: co_find_longest_cache_hit_def hybrid_find_longest_cache_hit_def rbind_eq_Inr)

lemma lookup_inv:
  assumes "get_computed_blocks r km = Some (Inr (b, n, km'))"
  shows "co_inv sha256 okr rest (km_coordinator km') \<longleftrightarrow> co_inv sha256 okr rest (km_coordinator km)"
proof (cases "\<not> km_enable_caching km \<or> skip_reading_prefix_cache r")
  case True
  then show ?thesis using assms by (auto simp: get_computed_blocks_def)
next
  case False
  obtain bl k co where h: "co_find_longest_cache_hit (rq_block_hashes r) (num_tokens r - 1) (km_coordinator km) = Some (Inr (bl, k, co))"
    and "km_coordinator km' = co"
    using assms unfolding get_computed_blocks_def if_not_P [OF False]
    by (auto simp: rbind_eq_Inr Let_def split: if_splits option.splits)
  then show ?thesis using find_hit_state [OF h] co_inv_cong by blast
qed

lemma same_table_ok:
  assumes "mg_ok p m"
  shows "mg_ok p (set_req_blocks rid (req_blocks rid m) m)" "mg_held p (set_req_blocks rid (req_blocks rid m) m) = mg_held p m"
  using mg_ok_set [OF assms table_ok_req [OF assms] order_refl] held_set [OF assms table_ok_req [OF assms] order_refl] held_split [OF assms]
  by simp_all

text \<open>Operations that only touch bookkeeping of the managers.\<close>

lemma co_bookkeeping_inv:
  assumes "co_inv sha256 okr rest co"
    and "\<And>m. m \<in> set (co_managers co) \<Longrightarrow> mg_ok (co_pool co) m \<Longrightarrow>
      mg_ok (co_pool co) (f m) \<and> mg_held (co_pool co) (f m) = mg_held (co_pool co) m \<and> mg_static (f m) = mg_static m"
  shows "co_inv sha256 okr rest (co\<lparr>co_managers := map f (co_managers co)\<rparr>)"
  using co_map_inv [OF assms(1), of f "\<lambda>_. {#}"] assms(2) by simp

lemma co_invE:
  assumes "co_inv sha256 okr rest co"
  obtains reg xs where "pool_reach sha256 okr (co_pool co, all_held (co_pool co) (co_managers co) + rest, reg)" "pool_inv (co_pool co) xs"
    "alloc_inv (co_pool co) xs" "cache_inv (co_pool co)" "counted (co_pool co) (all_held (co_pool co) (co_managers co) + rest)"
  using assms reachD unfolding co_inv_def managers_inv_def by metis

lemma release_inv:
  assumes i: "co_inv sha256 okr rest co" and k: "list_all (known (co_pool co)) bs" and h: "real_blocks (co_pool co) bs \<subseteq># rest"
    and f: "free_blocks bs (co_pool co) = Inr p"
  shows "co_inv sha256 okr (rest - real_blocks (co_pool co) bs) (co\<lparr>co_pool := p\<rparr>)"
proof -
  obtain reg xs where R: "alloc_inv (co_pool co) xs" "counted (co_pool co) (all_held (co_pool co) (co_managers co) + rest)" using i by (rule co_invE)
  have h': "real_blocks (co_pool co) bs \<subseteq># all_held (co_pool co) (co_managers co) + rest" using h by (rule subset_mset.order_trans) simp
  have "same_cache (co_pool co) p" using free_blocks_succeeds [OF R(1) k R(2) h'] f by auto
  note c = same_cacheD [OF this]
  have d: "all_held (co_pool co) (co_managers co) + rest - real_blocks (co_pool co) bs =
      all_held (co_pool co) (co_managers co) + (rest - real_blocks (co_pool co) bs)"
    using h by (simp add: subset_mset.add_diff_assoc)
  show ?thesis
    by (rule co_pool_inv [OF i c]) (metis pool_step.free [OF k h' f] d)
qed

lemma evict_inv:
  assumes i: "co_inv sha256 okr rest co" and n: "list_all (\<lambda>i. 0 \<le> i) ids" and e: "evict_blocks ids (co_pool co) = Inr p"
  shows "co_inv sha256 okr rest (co\<lparr>co_pool := p\<rparr>)"
proof -
  obtain reg xs where R: "alloc_inv (co_pool co) xs" "cache_inv (co_pool co)" using i by (rule co_invE)
  have "same_alloc (co_pool co) p" using evict_blocks_ok [OF R, of ids] evict_ids [OF R e n] e by (auto simp: list_all_iff)
  note c = same_allocD [OF this]
  show ?thesis by (rule co_pool_inv [OF i c]) (metis pool_step.evict [OF n e])
qed

lemma reset_inv:
  assumes i: "co_inv sha256 okr rest co"
  shows "co_inv sha256 okr rest (co\<lparr>co_pool := snd (pool_reset_prefix_cache (co_pool co))\<rparr>)"
proof -
  obtain reg xs where R: "alloc_inv (co_pool co) xs" "cache_inv (co_pool co)" using i by (rule co_invE)
  note c = same_allocD [OF reset_ok(2) [OF R]]
  show ?thesis by (rule co_pool_inv [OF i c]) (metis pool_step.reset)
qed

lemma events_inv:
  assumes i: "co_inv sha256 okr rest co"
  shows "co_inv sha256 okr rest (co\<lparr>co_pool := snd (pool_take_events (co_pool co))\<rparr>)"
proof -
  have c: "pool_config (snd (pool_take_events (co_pool co))) = pool_config (co_pool co)" by (simp add: pool_take_events_def)
  show ?thesis by (rule co_pool_inv [OF i c]) (metis pool_step.take_events)
qed

lemma kv_step_inv:
  "kv_step sha256 okr s s' \<Longrightarrow> co_inv sha256 okr (snd s) (km_coordinator (fst s)) \<Longrightarrow> co_inv sha256 okr (snd s') (km_coordinator (fst s'))"
proof (induction rule: kv_step.induct)
  case (lookup r km b n km' rest)
  then show ?case using lookup_inv [OF lookup(1)] by simp
next
  case (slots r n a km b km' rest)
  then have i: "co_inv sha256 okr rest (km_coordinator km)" by simp
  show ?case using ok_resD [OF allocate_slots_inv [OF i slots(1,2)] slots(3)] by (simp add: slots_state_def)
next
  case (cache r n km km' rest)
  show ?case
  proof (cases "km_enable_caching km")
    case True
    then obtain co where e: "co_cache_blocks sha256 r n (km_coordinator km) = Inr co" "km' = km\<lparr>km_coordinator := co\<rparr>"
      using cache(4) by (auto simp: km_cache_blocks_def)
    have i: "co_inv sha256 okr rest (km_coordinator km)" using cache(5) by simp
    show ?thesis using co_cache_inv [OF i e(1) cache(1,2)] cache(3) e(2) by (simp add: has_blocks_for_def list_all_length)
  qed (use cache in \<open>simp add: km_cache_blocks_def\<close>)
next
  case (free r km km' rest)
  then show ?case using co_free_inv [of sha256 okr rest "km_coordinator km" "request_id r"] by (auto simp: km_free_def)
next
  case (remove np rid n km km' rest)
  then show ?case using co_remove_inv [of sha256 okr rest "km_coordinator km" rid n np] by (auto simp: km_remove_skipped_blocks_def)
next
  case (pop r km bs km' rest)
  then show ?case using co_pop_inv [of sha256 okr rest "km_coordinator km" "request_id r"]
    by (auto simp: km_pop_blocks_for_free_def split: prod.splits)
next
  case (release km bs rest p)
  then show ?case using release_inv [of sha256 okr rest "km_coordinator km" bs p] by (simp add: set_pool_def)
next
  case (evict ids km km' rest)
  then show ?case using evict_inv [of sha256 okr rest "km_coordinator km" ids] by (auto simp: km_evict_blocks_def set_pool_def)
next
  case (reset km b km' rest)
  then show ?case using reset_inv [of sha256 okr rest "km_coordinator km"]
    by (auto simp: km_reset_prefix_cache_def set_pool_def Let_def split: prod.splits if_splits option.splits)
next
  case (common_prefix rid km ns km' rest)
  define f where "f m = snd (get_num_common_prefix_blocks rid (km_pool km) m)" for m
  have f: "mg_ok (km_pool km) (f m) \<and> mg_held (km_pool km) (f m) = mg_held (km_pool km) m \<and> mg_static (f m) = mg_static m"
    if "mg_ok (km_pool km) m" for m
    using same_table_ok [OF that] that by (simp add: f_def get_num_common_prefix_blocks_def Let_def)
  have "km_coordinator km' = km_coordinator km \<or> km_coordinator km' = (km_coordinator km)\<lparr>co_managers := map f (co_managers (km_coordinator km))\<rparr>"
    using common_prefix(1) by (auto simp: km_get_num_common_prefix_blocks_def co_get_num_common_prefix_blocks_def Let_def f_def comp_def split: if_splits)
  then show ?case using co_bookkeeping_inv [of sha256 okr rest "km_coordinator km" f] common_prefix(2) f by auto
next
  case (take_events km es km' rest)
  then show ?case using events_inv [of sha256 okr rest "km_coordinator km"] by (auto simp: km_take_events_def set_pool_def split: prod.splits)
next
  case (take_new_ids km ids km' rest)
  define f where "f m = snd (take_new_block_ids m)" for m
  have "mg_ok p (f m) \<and> mg_held p (f m) = mg_held p m \<and> mg_static (f m) = mg_static m" if "mg_ok p m" for m p
    using that by (simp add: f_def take_new_block_ids_def mg_ok_def mg_held_def tables_def mg_static_def)
  moreover have "km_coordinator km' = (km_coordinator km)\<lparr>co_managers := map f (co_managers (km_coordinator km))\<rparr>"
    using take_new_ids(1) by (auto simp: km_take_new_block_ids_def Let_def f_def comp_def)
  ultimately show ?case using co_bookkeeping_inv [of sha256 okr rest "km_coordinator km" f] take_new_ids(2) by simp
next
  case (new_step km rest)
  have "mg_ok p (new_step_starts m) \<and> mg_held p (new_step_starts m) = mg_held p m \<and> mg_static (new_step_starts m) = mg_static m" if "mg_ok p m" for m p
    using that by (simp add: new_step_starts_def mg_ok_def mg_held_def tables_def mg_static_def)
  then show ?case using co_bookkeeping_inv [of sha256 okr rest "km_coordinator km" new_step_starts] new_step
    by (simp add: km_new_step_starts_def co_new_step_starts_def)
next
  case (stats km st km' rest)
  then show ?case by (auto simp: make_prefix_cache_stats_def split: if_splits)
qed

lemma kv_reach_inv: "kv_reach sha256 okr s \<Longrightarrow> co_inv sha256 okr (snd s) (km_coordinator (fst s))"
proof (induction rule: kv_reach.induct)
  case (start c mml sbs hbs mbt caching ue logs ev ui dcp pcp wm ret km)
  then show ?case using km_init_inv [OF start(1-4)] by simp
next
  case (step s s')
  then show ?case using kv_step_inv by blast
qed

section \<open>References and tables\<close>

lemma co_keepsD:
  assumes "co_keeps co co'"
  shows "pool_config (co_pool co') = pool_config (co_pool co)" "length (co_managers co') = length (co_managers co)"
  using assms same_static(1) [of "co_managers co'" "co_managers co"] by (simp_all add: co_keeps_def)

lemma count_all_held: "in_pool p b \<Longrightarrow> count (all_held p ms) b = (\<Sum>m \<leftarrow> ms. count_list (tables m) b)"
  by (induction ms) (simp_all add: all_held_def mg_held_def)

lemma in_all_held: "b \<in># all_held p ms \<longleftrightarrow> (\<exists>m \<in> set ms. b \<in># mg_held p m)"
  by (induction ms) (auto simp: all_held_def)

lemma refs_are_table_entries:
  assumes "co_inv sha256 okr rest co" "in_pool (co_pool co) b"
  shows "ref_cnt (blk (co_pool co) b) = int (\<Sum>m \<leftarrow> co_managers co. count_list (tables m) b) + int (count rest b)"
  using assms count_all_held [OF assms(2)] by (elim co_invE) (simp add: counted_def)

lemma free_is_unused:
  assumes "co_inv sha256 okr rest co"
  obtains xs where "get_all_free_blocks (free_block_queue (co_pool co)) = Inr (Some xs)" "distinct xs"
    "get_num_free_blocks (co_pool co) = int (length xs)"
    "\<And>b. b \<in> set xs \<longleftrightarrow> in_pool (co_pool co) b \<and> (\<forall>m \<in> set (co_managers co). b \<notin> set (tables m)) \<and> b \<notin># rest"
proof -
  obtain xs where R: "alloc_inv (co_pool co) xs" "counted (co_pool co) (all_held (co_pool co) (co_managers co) + rest)"
    using assms by (rule co_invE)
  have "b \<in># all_held (co_pool co) (co_managers co) \<longleftrightarrow> (\<exists>m \<in> set (co_managers co). b \<in> set (tables m))" if "in_pool (co_pool co) b" for b
    using that by (auto simp: in_all_held mg_held_def)
  then show thesis
    using that [of xs] free_iff [OF R] get_all_free_blocks_ok [OF alloc_invD(4) [OF R(1)]] alloc_invD(8,9) [OF R(1)] by auto
qed

lemma nothing_held_all_free:
  assumes i: "co_inv sha256 okr {#} co" and e: "\<forall>m \<in> set (co_managers co). tables m = []"
  shows "get_num_free_blocks (co_pool co) = num_gpu_blocks (co_pool co) - 1" "fst (pool_reset_prefix_cache (co_pool co))"
    "get_usage (co_pool co) = 0"
proof -
  obtain xs where R: "alloc_inv (co_pool co) xs" "cache_inv (co_pool co)" "counted (co_pool co) (all_held (co_pool co) (co_managers co) + {#})"
    using i by (rule co_invE)
  have "all_held (co_pool co) (co_managers co) = {#}" using e by (simp add: all_held_def mg_held_def sum_list_0 cong: map_cong)
  then have "set xs = {b. in_pool (co_pool co) b}" using free_iff [OF R(1,3)] by auto
  then have "length xs = nat (num_gpu_blocks (co_pool co) - 1)"
    using distinct_card [OF alloc_invD(8) [OF R(1)]] card_in_pool(1) [of "co_pool co"] by simp
  then have l: "int (length xs) = num_gpu_blocks (co_pool co) - 1" using alloc_invD(1) [OF R(1)] by simp
  then show f: "get_num_free_blocks (co_pool co) = num_gpu_blocks (co_pool co) - 1" using alloc_invD(9) [OF R(1)] by simp
  show "fst (pool_reset_prefix_cache (co_pool co))" using reset_ok(1) [OF R(1,2)] l by simp
  show "get_usage (co_pool co) = 0" using f by (simp add: get_usage_def Let_def)
qed

lemma free_counts:
  assumes i: "co_inv sha256 okr rest co" and e: "co_free rid co = Inr co'" and b: "in_pool (co_pool co) b"
  shows "ref_cnt (blk (co_pool co') b) = ref_cnt (blk (co_pool co) b) - int (\<Sum>m \<leftarrow> co_managers co. count_list (req_blocks rid m) b)"
proof -
  note F = co_free_inv [OF i e]
  have c: "pool_config (co_pool co') = pool_config (co_pool co)" "length (co_managers co') = length (co_managers co)"
    using F co_keepsD by blast+
  have d: "count_list (tables m) b = count_list (req_blocks rid m) b + count_list (concat (map snd (AList.delete rid (req_to_blocks m)))) b"
    if "m \<in> set (co_managers co)" for m
  proof -
    have "mg_ok (co_pool co) m" using i that by (simp add: co_inv_def managers_inv_def)
    from held_split [OF this, of rid] have "count (mg_held (co_pool co) m) b = count (real_blocks (co_pool co) (req_blocks rid m) + others (co_pool co) rid m) b"
      by simp
    then show ?thesis using b by (simp add: mg_held_def others_def)
  qed
  have "map (\<lambda>m. count_list (tables m) b) (co_managers co') = map (\<lambda>m. count_list (concat (map snd (AList.delete rid (req_to_blocks m)))) b) (co_managers co)"
    using F c(2) by (intro nth_equalityI) (simp_all add: tables_def)
  then have "(\<Sum>m \<leftarrow> co_managers co. count_list (tables m) b) =
      (\<Sum>m \<leftarrow> co_managers co. count_list (req_blocks rid m) b) + (\<Sum>m \<leftarrow> co_managers co'. count_list (tables m) b)"
    using d by (simp add: sum_list_addf cong: map_cong)
  then show ?thesis
    using refs_are_table_entries [OF i b] F refs_are_table_entries [of sha256 okr rest co' b] b in_pool_config [OF c(1)] by simp
qed

section \<open>A concrete run\<close>

text \<open>Six blocks of two tokens, one group of full attention, prefix caching off, and a request of
  three tokens that gets its slots.\<close>

definition ex_km_config :: kv_cache_config where
  "ex_km_config = \<lparr>num_blocks = 6, kv_cache_groups = [\<lparr>group_spec = FullAttentionSpec (ex_full 2 128), is_eagle_group = False\<rparr>]\<rparr>"

definition ex_km :: kv_cache_manager where
  "ex_km = projr (km_init ex_km_config 100 2 2 (Some 64) False False False False False 1 1 0 None)"

definition ex_slot_args :: slot_args where
  "ex_slot_args = \<lparr>num_new_computed_tokens = 0, new_computed_blocks = None, num_lookahead_tokens = 0, num_external_computed_tokens = 0,
    delay_cache_blocks = False, num_encoder_tokens = 0, full_sequence_must_fit = True, reserved_blocks = 0, has_scheduled_reqs = False\<rparr>"

definition ex_km2 :: kv_cache_manager where
  "ex_km2 = snd (projr (allocate_slots id (ex_request [1, 2, 3] []) 3 ex_slot_args ex_km))"

lemma ex_km_start: "km_init ex_km_config 100 2 2 (Some 64) False False False False False 1 1 0 None = Inr ex_km"
proof -
  have "\<not> isl (km_init ex_km_config 100 2 2 (Some 64) False False False False False 1 1 0 None)" by code_simp
  then show ?thesis by (simp add: ex_km_def)
qed

lemma ex_km_slots:
  "fst (projr (allocate_slots id (ex_request [1, 2, 3] []) 3 ex_slot_args ex_km)) = Some (KVCacheBlocks [[Blk 1, Blk 2]])"
  "allocate_slots id (ex_request [1, 2, 3] []) 3 ex_slot_args ex_km = Inr (Some (KVCacheBlocks [[Blk 1, Blk 2]]), ex_km2)"
  "map req_to_blocks (co_managers (km_coordinator ex_km2)) = [[(''r'', [Blk 1, Blk 2])]]"
proof -
  have "\<not> isl (allocate_slots id (ex_request [1, 2, 3] []) 3 ex_slot_args ex_km)" by code_simp
  moreover show f: "fst (projr (allocate_slots id (ex_request [1, 2, 3] []) 3 ex_slot_args ex_km)) = Some (KVCacheBlocks [[Blk 1, Blk 2]])" by code_simp
  ultimately show "allocate_slots id (ex_request [1, 2, 3] []) 3 ex_slot_args ex_km = Inr (Some (KVCacheBlocks [[Blk 1, Blk 2]]), ex_km2)"
    by (metis ex_km2_def prod.collapse sum.collapse(2))
  show "map req_to_blocks (co_managers (km_coordinator ex_km2)) = [[(''r'', [Blk 1, Blk 2])]]" by code_simp
qed

lemma ex_km_reach: "kv_reach id (\<lambda>_. True) (ex_km2, {#})"
proof (rule kv_reach.step [OF _ kv_step.slots [OF _ _ ex_km_slots(2)]])
  show "kv_reach id (\<lambda>_. True) (ex_km, {#})"
    by (rule kv_reach.start [OF ex_km_start]) (simp_all add: ex_km_config_def ex_full_def)
  have "km_max_model_len ex_km = 100" by code_simp
  then show "slots_ok (ex_request [1, 2, 3] []) 3 ex_slot_args ex_km"
    by (simp add: slots_ok_def ex_request_def ex_slot_args_def num_tokens_def)
qed simp

section \<open>Properties\<close>

text \<open>C2. Accounting of the KV cache, over all groups: in every reachable state of
  \<^verbatim>\<open>KVCacheManager\<close>, the reference count of every block but the null block is the number of
  its occurrences in the block tables of all managers, plus the references handed out by
  \<^verbatim>\<open>pop_blocks_for_free\<close>; the free list is walked without error and holds, without repetition,
  exactly the blocks that occur nowhere; and no table lists a block of the pool twice.\<close>

theorem kv_accounting:
  assumes "kv_reach sha256 okr (km, rest)"
  shows "\<exists>xs. get_all_free_blocks (free_block_queue (km_pool km)) = Inr (Some xs) \<and> distinct xs \<and>
    get_num_free_blocks (km_pool km) = int (length xs) \<and>
    (\<forall>b. in_pool (km_pool km) b \<longrightarrow>
      ref_cnt (blk (km_pool km) b) = int (\<Sum>m \<leftarrow> co_managers (km_coordinator km). count_list (tables m) b) + int (count rest b)) \<and>
    set xs = {b. in_pool (km_pool km) b \<and> (\<forall>m \<in> set (co_managers (km_coordinator km)). b \<notin> set (tables m)) \<and> b \<notin># rest} \<and>
    (\<forall>m \<in> set (co_managers (km_coordinator km)). \<forall>rid. distinct (filter (in_pool (km_pool km)) (req_blocks rid m)))"
proof -
  have i: "co_inv sha256 okr rest (km_coordinator km)" using kv_reach_inv [OF assms] by simp
  obtain xs where xs: "get_all_free_blocks (free_block_queue (km_pool km)) = Inr (Some xs)" "distinct xs"
    "get_num_free_blocks (km_pool km) = int (length xs)"
    "\<And>b. b \<in> set xs \<longleftrightarrow> in_pool (km_pool km) b \<and> (\<forall>m \<in> set (co_managers (km_coordinator km)). b \<notin> set (tables m)) \<and> b \<notin># rest"
    using free_is_unused [OF i] by blast
  have "distinct (filter (in_pool (km_pool km)) (req_blocks rid m))" if "m \<in> set (co_managers (km_coordinator km))" for m rid
    using i that table_ok_req [of "km_pool km" m rid] by (simp add: co_inv_def managers_inv_def table_ok_def)
  then show ?thesis using xs refs_are_table_entries [OF i] by (intro exI [of _ xs]) blast
qed

theorem kv_accounting_witness:
  "\<exists>xs. get_all_free_blocks (free_block_queue (km_pool ex_km2)) = Inr (Some xs) \<and> set xs = {b. in_pool (km_pool ex_km2) b \<and> b \<noteq> Blk 1 \<and> b \<noteq> Blk 2} \<and>
    ref_cnt (blk (km_pool ex_km2) (Blk 1)) = 1"
proof -
  have "num_gpu_blocks (km_pool ex_km2) = 6" by code_simp
  then have "in_pool (km_pool ex_km2) (Blk 1)" by (simp add: in_pool_def)
  moreover obtain m where m: "co_managers (km_coordinator ex_km2) = [m]" "tables m = [Blk 1, Blk 2]"
    using ex_km_slots(3) by (auto simp: tables_def)
  ultimately show ?thesis using kv_accounting [OF ex_km_reach] by (auto simp: m)
qed

text \<open>C3. Freeing a request never fails and leaks nothing: in every reachable state \<^verbatim>\<open>free\<close>
  returns, drops the request's table in every group and no other table, and takes from each
  block as many references as the request's tables had entries for it; once no table is left and no popped block is
  outstanding, all blocks but the null block are free, the usage is zero and the prefix cache
  can be reset.\<close>

theorem kv_free_complete:
  assumes "kv_reach sha256 okr (km, rest)"
  shows "\<exists>km'. km_free r km = Inr km' \<and> kv_reach sha256 okr (km', rest) \<and>
    map req_to_blocks (co_managers (km_coordinator km')) =
      map (\<lambda>m. AList.delete (request_id r) (req_to_blocks m)) (co_managers (km_coordinator km)) \<and>
    (\<forall>b. in_pool (km_pool km) b \<longrightarrow> ref_cnt (blk (km_pool km') b) =
      ref_cnt (blk (km_pool km) b) - int (\<Sum>m \<leftarrow> co_managers (km_coordinator km). count_list (req_blocks (request_id r) m) b)) \<and>
    (rest = {#} \<and> (\<forall>m \<in> set (co_managers (km_coordinator km')). tables m = []) \<longrightarrow>
      get_num_free_blocks (km_pool km') = num_gpu_blocks (km_pool km') - 1 \<and> km_usage km' = 0 \<and> fst (pool_reset_prefix_cache (km_pool km')))"
proof -
  have i: "co_inv sha256 okr rest (km_coordinator km)" using kv_reach_inv [OF assms] by simp
  obtain co where f: "co_free (request_id r) (km_coordinator km) = Inr co" using co_free_total [OF i] by blast
  then have k: "km_free r km = Inr (km\<lparr>km_coordinator := co\<rparr>)" by (simp add: km_free_def)
  note F = co_free_inv [OF i f]
  have l: "length (co_managers co) = length (co_managers (km_coordinator km))" using F co_keepsD(2) by blast
  have t: "map req_to_blocks (co_managers co) = map (\<lambda>m. AList.delete (request_id r) (req_to_blocks m)) (co_managers (km_coordinator km))"
    using F l by (intro nth_equalityI) simp_all
  have "get_num_free_blocks (co_pool co) = num_gpu_blocks (co_pool co) - 1 \<and> get_usage (co_pool co) = 0 \<and> fst (pool_reset_prefix_cache (co_pool co))"
    if "rest = {#}" "\<forall>m \<in> set (co_managers co). tables m = []"
    using nothing_held_all_free [of sha256 okr co] that F by blast
  then show ?thesis
    by (intro exI [of _ "km\<lparr>km_coordinator := co\<rparr>"])
      (use k t free_counts [OF i f] kv_reach.step [OF assms kv_step.free [OF k]] in \<open>simp add: km_usage_def\<close>)
qed

theorem kv_free_complete_witness:
  "\<exists>km'. km_free (ex_request [1, 2, 3] []) ex_km2 = Inr km' \<and> kv_reach id (\<lambda>_. True) (km', {#}) \<and>
    get_num_free_blocks (km_pool km') = num_gpu_blocks (km_pool km') - 1 \<and> km_usage km' = 0"
proof -
  obtain km' where k: "km_free (ex_request [1, 2, 3] []) ex_km2 = Inr km'" "kv_reach id (\<lambda>_. True) (km', {#})"
    "map req_to_blocks (co_managers (km_coordinator km')) =
      map (\<lambda>m. AList.delete ''r'' (req_to_blocks m)) (co_managers (km_coordinator ex_km2))"
    "(\<forall>m \<in> set (co_managers (km_coordinator km')). tables m = []) \<longrightarrow>
      get_num_free_blocks (km_pool km') = num_gpu_blocks (km_pool km') - 1 \<and> km_usage km' = 0"
    using kv_free_complete [OF ex_km_reach, of "ex_request [1, 2, 3] []"] by (auto simp: ex_request_def)
  obtain m where m: "co_managers (km_coordinator ex_km2) = [m]" "req_to_blocks m = [(''r'', [Blk 1, Blk 2])]"
    using ex_km_slots(3) by auto
  then show ?thesis using k by (auto simp: tables_def)
qed

end
