(* ===== verification/Admission.thy ===== *)
theory Admission
  imports KV_Reach
begin

text \<open>
  The admission check of \<^verbatim>\<open>allocate_slots\<close>: the number of blocks that
  \<^verbatim>\<open>get_num_blocks_to_allocate\<close> predicts, before anything is changed, is enough for all
  the allocations that follow.  The locale \<open>budget_step\<close> is the contract of an operation
  that takes at most a known number of blocks from the pool; the three operations of the
  managers that take blocks are its interpretations.
\<close>

section \<open>Operations with a budget\<close>

locale budget_step = manager_step +
  fixes cost :: "int \<Rightarrow> st_manager \<Rightarrow> block_pool \<Rightarrow> int" and bpre :: "int \<Rightarrow> st_manager \<Rightarrow> bool"
    and bpost :: "int \<Rightarrow> st_manager \<Rightarrow> st_manager \<Rightarrow> bool"
  assumes cost_nonneg: "bpre i m \<Longrightarrow> 0 \<le> cost i m p"
    and within_budget: "\<lbrakk>mreach sha256 okr rest (m, p); pre i m p; bpre i m; cost i m p \<le> get_num_free_blocks p\<rbrakk> \<Longrightarrow>
      \<exists>a m' p'. f i (m, p) = Inr (a, m', p') \<and> bpost i m m' \<and> get_num_free_blocks p - cost i m p \<le> get_num_free_blocks p' \<and>
        (\<forall>j x. pre j x p \<and> bpre j x \<longrightarrow> cost j x p' \<le> cost j x p)"
begin

lemma each_within_budget:
  assumes "managers_inv sha256 okr rest ms p" "\<forall>k < length ms. pre (i + int k) (ms ! k) p \<and> bpre (i + int k) (ms ! k)"
    and "(\<Sum>k < length ms. cost (i + int k) (ms ! k) p) \<le> get_num_free_blocks p"
  shows "\<exists>as ms' p'. each_manager f i ms p = Inr (as, ms', p') \<and> (\<forall>k < length ms. bpost (i + int k) (ms ! k) (ms' ! k)) \<and>
    get_num_free_blocks p - (\<Sum>k < length ms. cost (i + int k) (ms ! k) p) \<le> get_num_free_blocks p'"
  using assms
proof (induction ms arbitrary: i p rest)
  case Nil
  then show ?case by simp
next
  case (Cons m ms)
  have r: "mreach sha256 okr (all_held p ms + rest) (m, p)" "\<forall>m \<in> set ms. mg_ok p m" using Cons.prems(1) by (simp_all add: managers_inv_Cons)
  have pre: "pre i m p" "bpre i m" using Cons.prems(2) by force+
  let ?c = "\<lambda>p. \<Sum>k < length ms. cost (i + 1 + int k) (ms ! k) p"
  have sum: "(\<Sum>k < length (m # ms). cost (i + int k) ((m # ms) ! k) p) = cost i m p + ?c p" for p
    by (simp add: sum.lessThan_Suc_shift ac_simps del: sum.lessThan_Suc)
  have "0 \<le> cost (i + 1 + int k) (ms ! k) p" if "k < length ms" for k
    using Cons.prems(2) [THEN spec, of "Suc k"] that by (intro cost_nonneg) (simp add: ac_simps)
  then have "0 \<le> ?c p" by (intro sum_nonneg) auto
  then have "cost i m p \<le> get_num_free_blocks p" using Cons.prems(3) unfolding sum by linarith
  then obtain a m1 p1 where e: "f i (m, p) = Inr (a, m1, p1)" "bpost i m m1"
    "get_num_free_blocks p - cost i m p \<le> get_num_free_blocks p1" "\<And>j x. pre j x p \<and> bpre j x \<Longrightarrow> cost j x p1 \<le> cost j x p"
    using within_budget [OF r(1) pre] by blast
  have s: "mreach sha256 okr (all_held p ms + rest) (m1, p1)" "pool_config p1 = pool_config p"
    using step_safe [OF r(1) pre(1) e(1)] by (simp_all add: keeps_def)
  then have "managers_inv sha256 okr rest (m1 # ms) p1"
    using r(2) by (simp add: managers_inv_Cons all_held_config [OF s(2)] mg_ok_config [OF s(2)])
  then have i1: "managers_inv sha256 okr (mg_held p1 m1 + rest) ms p1" by (simp add: managers_inv_first)
  have pre1: "pre (i + 1 + int k) (ms ! k) p1 \<and> bpre (i + 1 + int k) (ms ! k)" if "k < length ms" for k
    using Cons.prems(2) [THEN spec, of "Suc k"] that pre_config [OF s(2)] by (simp add: ac_simps)
  have "pre (i + 1 + int k) (ms ! k) p \<and> bpre (i + 1 + int k) (ms ! k)" if "k < length ms" for k
    using Cons.prems(2) [THEN spec, of "Suc k"] that by (simp add: ac_simps)
  then have c: "?c p1 \<le> ?c p" using e(4) by (intro sum_mono) simp
  then have "?c p1 \<le> get_num_free_blocks p1" using Cons.prems(3) e(3) unfolding sum by linarith
  then obtain as ms' p' where t: "each_manager f (i + 1) ms p1 = Inr (as, ms', p')" "\<forall>k < length ms. bpost (i + 1 + int k) (ms ! k) (ms' ! k)"
    "get_num_free_blocks p1 - ?c p1 \<le> get_num_free_blocks p'"
    using Cons.IH [OF i1] pre1 by blast
  have "bpost (i + int k) ((m # ms) ! k) ((m1 # ms') ! k)" if "k < length (m # ms)" for k
    using that e(2) t(2) by (cases k) (auto simp: ac_simps)
  moreover have "get_num_free_blocks p - (cost i m p + ?c p) \<le> get_num_free_blocks p'" using e(3) t(3) c by linarith
  ultimately show ?case unfolding sum using e(1) t(1) by (intro exI [of _ "a # as"] exI [of _ "m1 # ms'"] exI [of _ p']) simp
qed

lemma for_managers_within_budget:
  assumes i: "co_inv sha256 okr rest co"
    and pre: "\<And>k. k < length (co_managers co) \<Longrightarrow> pre (int k) (co_managers co ! k) (co_pool co) \<and> bpre (int k) (co_managers co ! k)"
    and c: "(\<Sum>k < length (co_managers co). cost (int k) (co_managers co ! k) (co_pool co)) \<le> get_num_free_blocks (co_pool co)"
  obtains as co' where "for_managers f co = Inr (as, co')" "co_inv sha256 okr rest co'" "co_keeps co co'"
    "\<And>k. k < length (co_managers co) \<Longrightarrow> bpost (int k) (co_managers co ! k) (co_managers co' ! k) \<and> post (int k) (co_managers co ! k) (co_managers co' ! k)"
    "get_num_free_blocks (co_pool co) - (\<Sum>k < length (co_managers co). cost (int k) (co_managers co ! k) (co_pool co)) \<le> get_num_free_blocks (co_pool co')"
proof -
  have m: "managers_inv sha256 okr rest (co_managers co) (co_pool co)" using i by (simp add: co_inv_def)
  obtain as ms' p' where e: "each_manager f 0 (co_managers co) (co_pool co) = Inr (as, ms', p')"
    "\<forall>k < length (co_managers co). bpost (0 + int k) (co_managers co ! k) (ms' ! k)"
    "get_num_free_blocks (co_pool co) - (\<Sum>k < length (co_managers co). cost (0 + int k) (co_managers co ! k) (co_pool co)) \<le> get_num_free_blocks p'"
    using each_within_budget [OF m, of 0] pre c by auto
  then have f: "for_managers f co = Inr (as, co\<lparr>co_managers := ms', co_pool := p'\<rparr>)" by (simp add: for_managers_def)
  then show thesis using that [OF f] for_managers_inv [OF i _ f] pre e(2,3) by simp
qed

end

section \<open>Taking blocks from the pool\<close>

lemma length_filter_mono: "(\<And>x. x \<in> set xs \<Longrightarrow> P x \<Longrightarrow> Q x) \<Longrightarrow> length (filter P xs) \<le> length (filter Q xs)"
  by (induction xs) auto

lemma evictable_mono:
  assumes "alloc_inv p xs" "alloc_inv p' xs'" "pool_config p' = pool_config p" "\<And>b. ref_cnt (blk p b) \<le> ref_cnt (blk p' b)" "list_all (known p) bs"
  shows "get_num_evictable_blocks p' bs \<le> get_num_evictable_blocks p bs"
proof -
  have "ref_cnt (blk p b) = 0 \<and> \<not> is_null (blk p b)" if "b \<in> set bs" "ref_cnt (blk p' b) = 0 \<and> \<not> is_null (blk p' b)" for b
  proof -
    have k: "known p b" "known p' b" using assms(5) that(1) known_config [OF assms(3)] by (simp_all add: list_all_iff)
    then have i: "in_pool p b" using null_iff [OF assms(2)] that(2) in_pool_config [OF assms(3)] by simp
    then show ?thesis using alloc_invD(5) [OF assms(1) i] assms(4) [of b] that(2) null_iff [OF assms(1) k(1)] by simp
  qed
  then show ?thesis unfolding get_num_evictable_blocks_def of_nat_le_iff by (rule length_filter_mono)
qed

text \<open>New blocks: exactly as many as asked for; nothing becomes evictable.\<close>

lemma get_new_within:
  assumes r: "mreach sha256 okr rest (m, p)" and n: "0 \<le> n" "n \<le> get_num_free_blocks p"
  obtains new p' where "get_new_blocks n p = Inr (new, p')" "int (length new) = n" "get_num_free_blocks p' = get_num_free_blocks p - n"
    "\<And>bs. list_all (known p) bs \<Longrightarrow> get_num_evictable_blocks p' bs \<le> get_num_evictable_blocks p bs"
proof -
  obtain xs where R: "pool_inv p xs" "alloc_inv p xs" using r by (rule mreachE)
  have l: "nat n \<le> length xs" using n alloc_invD(9) [OF R(2)] by simp
  obtain p' where p': "get_new_blocks (int (nat n)) p = Inr (take (nat n) xs, p')" "pool_inv p' (drop (nat n) xs)" "pool_config p' = pool_config p"
    "\<And>b. ref_cnt (blk p' b) = ref_cnt (blk p b) + of_bool (b \<in> set (take (nat n) xs))"
    using get_new_blocks_ok [OF R(1) l] by blast
  have a: "alloc_inv p' (drop (nat n) xs)" using p'(2) by (simp add: pool_inv_def)
  show thesis
  proof (rule that)
    show "get_new_blocks n p = Inr (take (nat n) xs, p')" "int (length (take (nat n) xs)) = n" using p'(1) n l by simp_all
    show "get_num_free_blocks p' = get_num_free_blocks p - n" using alloc_invD(9) [OF a] alloc_invD(9) [OF R(2)] n l by simp
    show "get_num_evictable_blocks p' bs \<le> get_num_evictable_blocks p bs" if "list_all (known p) bs" for bs
      by (rule evictable_mono [OF R(2) a p'(3) _ that]) (simp add: p'(4))
  qed
qed

text \<open>Touching takes the evictable blocks out of the free list.\<close>

lemma touch_within:
  assumes r: "mreach sha256 okr rest (m, p)" and t: "table_ok p bs"
  obtains p' where "touch bs p = Inr p'" "get_num_free_blocks p - get_num_evictable_blocks p bs \<le> get_num_free_blocks p'"
    "\<And>bs. list_all (known p) bs \<Longrightarrow> get_num_evictable_blocks p' bs \<le> get_num_evictable_blocks p bs"
proof -
  obtain xs where R: "pool_inv p xs" "alloc_inv p xs" using r by (rule mreachE)
  have k: "known p b" if "b \<in> set bs" for b using t that by (simp add: table_ok_def list_all_iff)
  obtain p' where p': "touch bs p = Inr p'" "alloc_inv p' (filter (\<lambda>x. x \<notin> set bs) xs)" "same_cache p p'"
    "\<And>x. ref_cnt (blk p' x) = ref_cnt (blk p x) + int (count_list bs x)"
    using touch_ok [OF R(2) k] by blast
  let ?e = "filter (\<lambda>b. ref_cnt (blk p b) = 0 \<and> \<not> is_null (blk p b)) bs"
  have "set (filter (\<lambda>x. x \<in> set bs) xs) \<subseteq> set ?e"
    using alloc_invD(7) [OF R(2)] null_iff [OF R(2) k] by auto
  then have "card (set (filter (\<lambda>x. x \<in> set bs) xs)) \<le> length ?e" by (meson List.finite_set card_length card_mono order_trans)
  then have "length (filter (\<lambda>x. x \<in> set bs) xs) \<le> length ?e"
    using distinct_card [of "filter (\<lambda>x. x \<in> set bs) xs"] alloc_invD(8) [OF R(2)] by simp
  moreover have "length (filter (\<lambda>x. x \<in> set bs) xs) + length (filter (\<lambda>x. x \<notin> set bs) xs) = length xs"
    by (rule sum_length_filter_compl)
  ultimately have "get_num_free_blocks p - get_num_evictable_blocks p bs \<le> get_num_free_blocks p'"
    using alloc_invD(9) [OF R(2)] alloc_invD(9) [OF p'(2)] by (simp add: get_num_evictable_blocks_def)
  moreover have "get_num_evictable_blocks p' bs' \<le> get_num_evictable_blocks p bs'" if "list_all (known p) bs'" for bs'
    by (rule evictable_mono [OF R(2) p'(2) same_cacheD [OF p'(3)] _ that]) (simp add: p'(4))
  ultimately show thesis using that [OF p'(1)] by blast
qed

section \<open>The three operations\<close>

definition skipped_blocks :: "int \<Rightarrow> st_manager \<Rightarrow> int" where
  "skipped_blocks n m = get_num_skipped_tokens (mg_spec m) n div mg_block_size m"

interpretation local_budget: budget_step sha256 okr "add_local rid new nl ne"
    "\<lambda>i m p. \<forall>nc. py_index new i = Inr nc \<longrightarrow> table_ok p nc"
    "\<lambda>i m m'. \<exists>nc. py_index new i = Inr nc \<and> (mg_class m \<noteq> CrossAttentionManager \<longrightarrow>
      int (length (req_blocks rid m')) = max (get_num_skipped_tokens (mg_spec m) (nl + ne) div mg_block_size m) (int (length nc)))"
    "\<lambda>i m p. case py_index new i of Inl _ \<Rightarrow> 0 | Inr nc \<Rightarrow> get_num_evictable_blocks p (py_from nc (max 0 (skipped_blocks (nl + ne) m)))"
    "\<lambda>i m. mg_class m \<noteq> CrossAttentionManager \<and> req_blocks rid m = [] \<and> (\<exists>nc. py_index new i = Inr nc \<and> (mg_enable_caching m \<or> nc = []))"
    "\<lambda>_ _ _. True"
  for sha256 okr rid new nl ne
proof unfold_locales
  fix i and m :: st_manager and p
  show "0 \<le> (case py_index new i of Inl _ \<Rightarrow> 0 | Inr nc \<Rightarrow> get_num_evictable_blocks p (py_from nc (max 0 (skipped_blocks (nl + ne) m))))"
    by (simp add: get_num_evictable_blocks_def split: sum.split)
next
  fix rest m p i
  let ?cost = "\<lambda>i m p. case py_index new i of Inl _ \<Rightarrow> 0 | Inr nc \<Rightarrow> get_num_evictable_blocks p (py_from nc (max 0 (skipped_blocks (nl + ne) m)))"
  let ?bpre = "\<lambda>i m. mg_class m \<noteq> CrossAttentionManager \<and> req_blocks rid m = [] \<and> (\<exists>nc. py_index new i = Inr nc \<and> (mg_enable_caching m \<or> nc = []))"
  assume r: "mreach sha256 okr rest (m, p)" and t: "\<forall>nc. py_index new i = Inr nc \<longrightarrow> table_ok p nc" and b: "?bpre i m"
  obtain nc where nc: "py_index new i = Inr nc" "mg_enable_caching m \<or> nc = []" using b by blast
  let ?bs = "py_from nc (max 0 (skipped_blocks (nl + ne) m))"
  have bs: "(if skipped_blocks (nl + ne) m > 0 then py_from nc (skipped_blocks (nl + ne) m) else nc) = ?bs" "table_ok p ?bs"
    using t nc(1) by (auto simp: table_ok_drop max_def)
  obtain p' where p': "touch ?bs p = Inr p'" "get_num_free_blocks p - get_num_evictable_blocks p ?bs \<le> get_num_free_blocks p'"
    "\<And>bs. list_all (known p) bs \<Longrightarrow> get_num_evictable_blocks p' bs \<le> get_num_evictable_blocks p bs"
    using touch_within [OF r bs(2)] by blast
  have mono: "?cost j x p' \<le> ?cost j x p" if "\<forall>nc. py_index new j = Inr nc \<longrightarrow> table_ok p nc" for j x
  proof (cases "py_index new j")
    case (Inr nc)
    then have "table_ok p (drop k nc)" for k using that table_ok_drop by blast
    then show ?thesis using Inr p'(3) by (simp add: table_ok_def)
  qed simp
  have ns: "nat (max 0 (skipped_blocks (nl + ne) m)) = nat (skipped_blocks (nl + ne) m)" by simp
  have "\<exists>m'. add_local rid new nl ne i (m, p) = Inr ((), m', p')"
  proof (cases "mg_enable_caching m")
    case True
    then show ?thesis using b nc(1) p'(1) ns
      by (cases "0 < skipped_blocks (nl + ne) m") (simp_all add: add_local_def add_local_computed_blocks_def py_assert_def Let_def mg_unit_def skipped_blocks_def [symmetric])
  next
    case False
    then have "nc = []" "p' = p" using nc(2) p'(1) by (auto simp: touch_def)
    then show ?thesis using b nc False
      by (simp add: add_local_def add_local_computed_blocks_def py_assert_def Let_def mg_unit_def skipped_blocks_def [symmetric])
  qed
  then show "\<exists>a m' p'. add_local rid new nl ne i (m, p) = Inr (a, m', p') \<and> True \<and>
      get_num_free_blocks p - ?cost i m p \<le> get_num_free_blocks p' \<and>
      (\<forall>j x. (\<forall>nc. py_index new j = Inr nc \<longrightarrow> table_ok p nc) \<and> ?bpre j x \<longrightarrow> ?cost j x p' \<le> ?cost j x p)"
    using p'(2) nc(1) mono by (elim exE) (intro exI conjI allI impI, assumption, simp_all)
qed

text \<open>Blocks for tokens computed elsewhere.\<close>

definition external_need :: "string \<Rightarrow> int \<Rightarrow> int \<Rightarrow> st_manager \<Rightarrow> int" where
  "external_need rid nl ne m =
    (let skipped = get_num_skipped_tokens (mg_spec m) (nl + ne);
         tokens = (if skipped > 0 then min (nl + ne - skipped) ne else ne)
     in if tokens \<le> 0 then 0 else cdiv (nl + ne) (mg_block_size m) - int (length (req_blocks rid m)))"

lemma extend_within:
  assumes r: "mreach sha256 okr rest (m, p)" and n: "0 \<le> n" "n \<le> get_num_free_blocks p"
  shows "\<exists>new p'. get_new_blocks n p = Inr (new, p') \<and> int (length (req_blocks rid (extend_new_blocks rid new m))) = int (length (req_blocks rid m)) + n \<and>
    get_num_free_blocks p - n \<le> get_num_free_blocks p'"
proof -
  obtain new p' where g: "get_new_blocks n p = Inr (new, p')" "int (length new) = n" "get_num_free_blocks p' = get_num_free_blocks p - n"
    using get_new_within [OF r n] by blast
  then show ?thesis using mreach_extend [OF r n(1) g(1), of rid] by auto
qed

interpretation external_budget: budget_step sha256 okr "add_external rid nl ne"
    "\<lambda>i m p. mg_class m \<noteq> CrossAttentionManager \<longrightarrow> int (length (req_blocks rid m)) \<le> cdiv (nl + ne) (mg_block_size m)"
    "\<lambda>_ _ _. True" "\<lambda>i m p. external_need rid nl ne m"
    "\<lambda>i m. mg_class m \<noteq> CrossAttentionManager \<and> int (length (req_blocks rid m)) \<le> cdiv (nl + ne) (mg_block_size m)"
    "\<lambda>_ m m'. int (length (req_blocks rid m')) = int (length (req_blocks rid m)) + external_need rid nl ne m"
  for sha256 okr rid nl ne
proof unfold_locales
  fix i and m :: st_manager and p :: block_pool
  assume "mg_class m \<noteq> CrossAttentionManager \<and> int (length (req_blocks rid m)) \<le> cdiv (nl + ne) (mg_block_size m)"
  then show "0 \<le> external_need rid nl ne m" by (simp add: external_need_def Let_def)
next
  fix rest m p i
  assume r: "mreach sha256 okr rest (m, p)" and b: "mg_class m \<noteq> CrossAttentionManager \<and> int (length (req_blocks rid m)) \<le> cdiv (nl + ne) (mg_block_size m)"
    and c: "external_need rid nl ne m \<le> get_num_free_blocks p"
  define x where "x = (if get_num_skipped_tokens (mg_spec m) (nl + ne) > 0 then min (nl + ne - get_num_skipped_tokens (mg_spec m) (nl + ne)) ne else ne)"
  let ?n = "cdiv (nl + ne) (mg_block_size m) - int (length (req_blocks rid m))"
  have need: "external_need rid nl ne m = (if x \<le> 0 then 0 else ?n)" by (simp add: external_need_def Let_def x_def)
  have e: "allocate_external_computed_blocks rid nl ne (m, p) =
      (if x \<le> 0 then Inr (m, p) else rbind (get_new_blocks ?n p) (\<lambda>(bs, p). Inr (extend_new_blocks rid bs m, p)))"
    using b unfolding allocate_external_computed_blocks_def Let_def x_def by simp
  show "\<exists>a m' p'. add_external rid nl ne i (m, p) = Inr (a, m', p') \<and>
      int (length (req_blocks rid m')) = int (length (req_blocks rid m)) + external_need rid nl ne m \<and>
      get_num_free_blocks p - external_need rid nl ne m \<le> get_num_free_blocks p' \<and>
      (\<forall>j x. (mg_class x \<noteq> CrossAttentionManager \<longrightarrow> int (length (req_blocks rid x)) \<le> cdiv (nl + ne) (mg_block_size x)) \<and>
        mg_class x \<noteq> CrossAttentionManager \<and> int (length (req_blocks rid x)) \<le> cdiv (nl + ne) (mg_block_size x) \<longrightarrow>
        external_need rid nl ne x \<le> external_need rid nl ne x)"
  proof (cases "x \<le> 0")
    case True
    then show ?thesis using e need by (simp add: add_external_def)
  next
    case False
    then obtain new p' where "get_new_blocks ?n p = Inr (new, p')" "int (length (req_blocks rid (extend_new_blocks rid new m))) = int (length (req_blocks rid m)) + ?n"
      "get_num_free_blocks p - ?n \<le> get_num_free_blocks p'"
      using extend_within [OF r, of ?n rid] b c need by auto
    then show ?thesis using e need False by (simp add: add_external_def)
  qed
qed

text \<open>New blocks for the tokens of this step.\<close>

definition new_need :: "string \<Rightarrow> int \<Rightarrow> st_manager \<Rightarrow> int" where
  "new_need rid n m = max 0 (cdiv n (mg_block_size m) - int (length (req_blocks rid m)))"

definition growing :: "st_manager \<Rightarrow> bool" where
  "growing m \<longleftrightarrow> mg_class m \<noteq> MambaManager \<and> mg_class m \<noteq> CrossAttentionManager"

interpretation new_budget: budget_step sha256 okr "add_new rid n nm enc" "\<lambda>_ m _. 0 \<le> nm \<and> mamba_ok m"
    "\<lambda>_ m m'. mg_class m \<noteq> CrossAttentionManager \<longrightarrow>
      min (cdiv n (mg_block_size m)) (cdiv nm (mg_block_size m)) \<le> int (length (req_blocks rid m'))"
    "\<lambda>i m p. new_need rid n m" "\<lambda>i m. growing m"
    "\<lambda>_ m m'. int (length (req_blocks rid m')) = int (length (req_blocks rid m)) + new_need rid n m"
  for sha256 okr rid n nm enc
proof unfold_locales
  fix i and m :: st_manager and p :: block_pool
  show "0 \<le> new_need rid n m" by (simp add: new_need_def)
next
  fix rest m p i
  assume r: "mreach sha256 okr rest (m, p)" and b: "growing m" and c: "new_need rid n m \<le> get_num_free_blocks p"
  let ?m = "set_req_blocks rid (req_blocks rid m) m"
  let ?n = "cdiv n (mg_block_size m) - int (length (req_blocks rid m))"
  have r': "mreach sha256 okr rest (?m, p)" using r by (rule mreach_same_table)
  have e: "add_new rid n nm enc i (m, p) = (if ?n \<le> 0 then Inr ([], ?m, p)
      else rbind (get_new_blocks ?n p) (\<lambda>(new, p). Inr (new, extend_new_blocks rid new ?m, p)))"
    using b by (simp add: add_new_def growing_def allocate_new_blocks_def base_allocate_new_blocks_def Let_def)
  show "\<exists>a m' p'. add_new rid n nm enc i (m, p) = Inr (a, m', p') \<and>
      int (length (req_blocks rid m')) = int (length (req_blocks rid m)) + new_need rid n m \<and>
      get_num_free_blocks p - new_need rid n m \<le> get_num_free_blocks p' \<and>
      (\<forall>j x. (0 \<le> nm \<and> mamba_ok x) \<and> growing x \<longrightarrow> new_need rid n x \<le> new_need rid n x)"
  proof (cases "?n \<le> 0")
    case True
    then show ?thesis using e by (simp add: new_need_def)
  next
    case False
    then obtain new p' where "get_new_blocks ?n p = Inr (new, p')" "int (length (req_blocks rid (extend_new_blocks rid new ?m))) = int (length (req_blocks rid ?m)) + ?n"
      "get_num_free_blocks p - ?n \<le> get_num_free_blocks p'"
      using extend_within [OF r', of ?n rid] c by (auto simp: new_need_def)
    then show ?thesis using e False by (simp add: new_need_def)
  qed
qed

section \<open>The prediction\<close>

lemma rbind_assoc: "rbind (rbind a f) g = rbind a (\<lambda>x. rbind (f x) g)"
  by (cases a) simp_all

lemma each_probe:
  assumes "\<forall>m \<in> set ms. growing m" "each_manager (probe rid n new enc t nm cap) i ms p = Inr (ns, ms', p')"
  shows "ms' = ms \<and> p' = p \<and> length ns = length ms \<and> (\<forall>k < length ms. \<exists>nc. py_index new (i + int k) = Inr nc \<and>
    base_get_num_blocks_to_allocate rid n nc t cap p (ms ! k) = Inr (ns ! k))"
  using assms
proof (induction ms arbitrary: i ns ms')
  case Nil
  then show ?case by simp
next
  case (Cons m ms)
  have "growing m" using Cons.prems(1) by simp
  then have "probe rid n new enc t nm cap i (m, p) = rbind (py_index new i) (\<lambda>nc.
      rbind (base_get_num_blocks_to_allocate rid n nc t cap p m) (\<lambda>k. Inr (k, m, p)))"
    by (cases "py_index new i") (simp_all add: probe_def growing_def get_num_blocks_to_allocate_def rbind_assoc)
  then obtain nc k ns1 ms1 where e: "py_index new i = Inr nc" "base_get_num_blocks_to_allocate rid n nc t cap p m = Inr k"
    "each_manager (probe rid n new enc t nm cap) (i + 1) ms p = Inr (ns1, ms1, p')" "ns = k # ns1" "ms' = m # ms1"
    using Cons.prems(2) by (auto simp: rbind_eq_Inr)
  have I: "ms1 = ms \<and> p' = p \<and> length ns1 = length ms \<and> (\<forall>k < length ms. \<exists>nc. py_index new (i + 1 + int k) = Inr nc \<and>
      base_get_num_blocks_to_allocate rid n nc t cap p (ms ! k) = Inr (ns1 ! k))"
    using Cons.IH [OF _ e(3)] Cons.prems(1) by simp
  have "\<exists>nc. py_index new (i + int j) = Inr nc \<and> base_get_num_blocks_to_allocate rid n nc t cap p ((m # ms) ! j) = Inr (ns ! j)"
    if "j < length (m # ms)" for j
    using that e(1,2,4) I by (cases j) (simp_all add: ac_simps)
  then show ?case using I e(4,5) by simp
qed

lemma co_probe:
  assumes "\<forall>m \<in> set (co_managers co). growing m" "co_get_num_blocks_to_allocate rid n new enc t nm cap co = Inr (k, co')"
  shows "co' = co \<and> (\<exists>ns. k = (\<Sum>i < length (co_managers co). ns ! i) \<and> (\<forall>i < length (co_managers co). \<exists>nc. py_index new (int i) = Inr nc \<and>
    base_get_num_blocks_to_allocate rid n nc t cap (co_pool co) (co_managers co ! i) = Inr (ns ! i)))"
proof -
  obtain ns where f: "for_managers (probe rid n new enc t nm cap) co = Inr (ns, co')" "k = sum_list ns"
    using assms(2) unfolding co_get_num_blocks_to_allocate_def probe_def [symmetric] rbind_eq_Inr by auto
  then obtain ms p where e: "each_manager (probe rid n new enc t nm cap) 0 (co_managers co) (co_pool co) = Inr (ns, ms, p)"
    "co' = co\<lparr>co_managers := ms, co_pool := p\<rparr>" by (auto simp: for_managers_def rbind_eq_Inr)
  note E = each_probe [OF assms(1) e(1)]
  have "k = (\<Sum>i < length (co_managers co). ns ! i)" using E by (simp add: f(2) sum_list_sum_nth lessThan_atLeast0)
  then show ?thesis using E e(2) by (intro conjI exI [of _ ns]) auto
qed

text \<open>The prediction for one manager: the blocks that touching takes out of the free list, and the
  new blocks after the skipped and the computed ones.\<close>

lemma probe_new_request:
  assumes "base_get_num_blocks_to_allocate rid n nc t False p m = Inr k" "num_cached_block m rid = None" "req_blocks rid m = []"
  shows "k = max 0 (cdiv n (mg_block_size m) - max (skipped_blocks t m) (int (length nc))) +
    get_num_evictable_blocks p (py_from nc (max 0 (skipped_blocks t m)))"
  using assms by (simp add: base_get_num_blocks_to_allocate_def Let_def skipped_blocks_def max.commute split: option.splits)

lemma probe_running:
  assumes "base_get_num_blocks_to_allocate rid n [] t False p m = Inr k"
    and "num_cached_block m rid \<noteq> None \<or> skipped_blocks t m \<le> int (length (req_blocks rid m))"
  shows "k = new_need rid n m"
proof -
  have e: "(case max_admission_blocks_per_request m of Some cap \<Rightarrow> if False then min x cap else x | None \<Rightarrow> x) = x" for x :: int
    by (simp split: option.split)
  have z: "get_num_evictable_blocks p (py_from [] i) = 0" for i by (simp add: get_num_evictable_blocks_def py_from_def)
  show ?thesis
  proof (cases "num_cached_block m rid \<noteq> None")
    case True
    then show ?thesis using assms(1) unfolding base_get_num_blocks_to_allocate_def Let_def e by (simp add: py_assert_def new_need_def)
  next
    case False
    then show ?thesis using assms unfolding base_get_num_blocks_to_allocate_def Let_def e skipped_blocks_def [symmetric] z by (simp add: new_need_def)
  qed
qed

lemma external_then_new:
  assumes "0 < mg_block_size m" "nl + ne \<le> need" "int (length (req_blocks rid m)) \<le> cdiv (nl + ne) (mg_block_size m)"
    and "mg_block_size m' = mg_block_size m" "int (length (req_blocks rid m')) = int (length (req_blocks rid m)) + external_need rid nl ne m"
  shows "external_need rid nl ne m + new_need rid need m' = max 0 (cdiv need (mg_block_size m) - int (length (req_blocks rid m)))"
  using assms cdiv_mono [OF assms(1,2)] by (auto simp: external_need_def new_need_def Let_def)

section \<open>The phases of an allocation\<close>

lemma growing_static: "mg_static m' = mg_static m \<Longrightarrow> growing m' \<longleftrightarrow> growing m"
  by (simp add: growing_def mg_static_def)

lemma co_nth:
  assumes "co_inv sha256 okr rest co" "k < length (co_managers co)"
  shows "0 < mg_block_size (co_managers co ! k)" "static_ok (co_managers co ! k)"
  using assms by (auto simp: co_inv_def managers_inv_def mg_ok_def list_all_length)

lemma new_phase:
  assumes i: "co_inv sha256 okr rest co" and g: "\<forall>m \<in> set (co_managers co). growing m" and nm: "0 \<le> nm"
    and c: "(\<Sum>k < length (co_managers co). new_need rid n (co_managers co ! k)) \<le> get_num_free_blocks (co_pool co)"
  shows "\<exists>bs co'. co_allocate_new_blocks rid n nm enc co = Inr (bs, co') \<and> length (co_managers co') = length (co_managers co) \<and>
    get_num_free_blocks (co_pool co) - (\<Sum>k < length (co_managers co). new_need rid n (co_managers co ! k)) \<le> get_num_free_blocks (co_pool co') \<and>
    (\<forall>k < length (co_managers co). cdiv n (mg_block_size (co_managers co ! k)) \<le> int (length (req_blocks rid (co_managers co' ! k))))"
proof -
  have pre: "(0 \<le> nm \<and> mamba_ok (co_managers co ! k)) \<and> growing (co_managers co ! k)" if "k < length (co_managers co)" for k
    using g nm that by (simp add: growing_def mamba_ok_def)
  obtain bs co' where f: "for_managers (add_new rid n nm enc) co = Inr (bs, co')" "co_keeps co co'"
    "\<And>k. k < length (co_managers co) \<Longrightarrow> int (length (req_blocks rid (co_managers co' ! k))) = int (length (req_blocks rid (co_managers co ! k))) + new_need rid n (co_managers co ! k)"
    "get_num_free_blocks (co_pool co) - (\<Sum>k < length (co_managers co). new_need rid n (co_managers co ! k)) \<le> get_num_free_blocks (co_pool co')"
    using new_budget.for_managers_within_budget [OF i pre c, of enc] by (metis (no_types, lifting))
  have "co_allocate_new_blocks rid n nm enc co = Inr (bs, co')" using f(1) by (simp add: co_allocate_new_blocks_def add_new_def)
  moreover have "cdiv n (mg_block_size (co_managers co ! k)) \<le> int (length (req_blocks rid (co_managers co' ! k)))" if "k < length (co_managers co)" for k
    using f(3) [OF that] by (simp add: new_need_def)
  ultimately show ?thesis using f(4) co_keepsD(2) [OF f(2)] by blast
qed

lemma external_phase:
  assumes i: "co_inv sha256 okr rest co" and g: "\<forall>m \<in> set (co_managers co). growing m" and nm: "0 \<le> nm" and t: "nl + ne \<le> need"
    and l: "\<And>k. k < length (co_managers co) \<Longrightarrow> int (length (req_blocks rid (co_managers co ! k))) \<le> cdiv (nl + ne) (mg_block_size (co_managers co ! k))"
    and c: "(\<Sum>k < length (co_managers co). new_need rid need (co_managers co ! k)) \<le> get_num_free_blocks (co_pool co)"
  shows "\<exists>co1 bs co2. (if ne > 0 then rbind (for_managers (add_external rid nl ne) co) (\<lambda>(_, co). Inr co) else Inr co) = Inr co1 \<and>
    co_allocate_new_blocks rid need nm enc co1 = Inr (bs, co2) \<and> length (co_managers co2) = length (co_managers co) \<and>
    get_num_free_blocks (co_pool co) - (\<Sum>k < length (co_managers co). new_need rid need (co_managers co ! k)) \<le> get_num_free_blocks (co_pool co2) \<and>
    (\<forall>k < length (co_managers co). cdiv need (mg_block_size (co_managers co ! k)) \<le> int (length (req_blocks rid (co_managers co2 ! k))))"
proof (cases "ne > 0")
  case False
  then show ?thesis using new_phase [OF i g nm c] by simp
next
  case True
  let ?e = "\<Sum>k < length (co_managers co). external_need rid nl ne (co_managers co ! k)"
  have le: "external_need rid nl ne (co_managers co ! k) \<le> new_need rid need (co_managers co ! k)" if "k < length (co_managers co)" for k
    using l [OF that] cdiv_mono [OF co_nth(1) [OF i that] t] by (simp add: external_need_def new_need_def Let_def)
  have "?e \<le> (\<Sum>k < length (co_managers co). new_need rid need (co_managers co ! k))" using le by (intro sum_mono) simp
  then have ce: "?e \<le> get_num_free_blocks (co_pool co)" using c by linarith
  have pre: "(mg_class (co_managers co ! k) \<noteq> CrossAttentionManager \<longrightarrow>
      int (length (req_blocks rid (co_managers co ! k))) \<le> cdiv (nl + ne) (mg_block_size (co_managers co ! k))) \<and>
    mg_class (co_managers co ! k) \<noteq> CrossAttentionManager \<and> int (length (req_blocks rid (co_managers co ! k))) \<le> cdiv (nl + ne) (mg_block_size (co_managers co ! k))"
    if "k < length (co_managers co)" for k using l [OF that] g that by (simp add: growing_def)
  obtain us co1 where f: "for_managers (add_external rid nl ne) co = Inr (us, co1)" "co_inv sha256 okr rest co1" "co_keeps co co1"
    "\<And>k. k < length (co_managers co) \<Longrightarrow> int (length (req_blocks rid (co_managers co1 ! k))) =
      int (length (req_blocks rid (co_managers co ! k))) + external_need rid nl ne (co_managers co ! k)"
    "get_num_free_blocks (co_pool co) - ?e \<le> get_num_free_blocks (co_pool co1)"
    using external_budget.for_managers_within_budget [OF i pre ce] by (metis (no_types, lifting))
  have ks: "length (co_managers co1) = length (co_managers co)" "map mg_static (co_managers co1) = map mg_static (co_managers co)"
    using f(3) co_keepsD(2) by (auto simp: co_keeps_def)
  have st: "mg_static (co_managers co1 ! k) = mg_static (co_managers co ! k)" if "k < length (co_managers co)" for k using same_static(2) [OF ks(2) that] .
  have sz: "mg_block_size (co_managers co1 ! k) = mg_block_size (co_managers co ! k)" if "k < length (co_managers co)" for k
    using st [OF that] by (simp add: mg_static_def)
  have g1: "\<forall>m \<in> set (co_managers co1). growing m"
  proof
    fix m assume "m \<in> set (co_managers co1)"
    then obtain k where "k < length (co_managers co)" "m = co_managers co1 ! k" using ks(1) by (auto simp: in_set_conv_nth)
    then show "growing m" using growing_static [OF st] g by simp
  qed
  have "external_need rid nl ne (co_managers co ! k) + new_need rid need (co_managers co1 ! k) = new_need rid need (co_managers co ! k)"
    if k: "k < length (co_managers co)" for k
    using external_then_new [OF co_nth(1) [OF i k] t l [OF k] sz [OF k] f(4) [OF k]] by (simp add: new_need_def)
  then have sum: "?e + (\<Sum>k < length (co_managers co1). new_need rid need (co_managers co1 ! k)) =
      (\<Sum>k < length (co_managers co). new_need rid need (co_managers co ! k))"
    by (simp add: ks(1) sum.distrib [symmetric])
  then have "(\<Sum>k < length (co_managers co1). new_need rid need (co_managers co1 ! k)) \<le> get_num_free_blocks (co_pool co1)" using c f(5) by linarith
  from new_phase [OF f(2) g1 nm this, of enc] obtain bs co2 where n: "co_allocate_new_blocks rid need nm enc co1 = Inr (bs, co2)"
    "length (co_managers co2) = length (co_managers co1)"
    "get_num_free_blocks (co_pool co1) - (\<Sum>k < length (co_managers co1). new_need rid need (co_managers co1 ! k)) \<le> get_num_free_blocks (co_pool co2)"
    "\<forall>k < length (co_managers co1). cdiv need (mg_block_size (co_managers co1 ! k)) \<le> int (length (req_blocks rid (co_managers co2 ! k)))"
    by blast
  have "get_num_free_blocks (co_pool co) - (\<Sum>k < length (co_managers co). new_need rid need (co_managers co ! k)) \<le> get_num_free_blocks (co_pool co2)"
    using n(3) f(5) sum by linarith
  then show ?thesis using True f(1) n(1,2,4) ks(1) sz by (intro exI [of _ co1] exI [of _ bs] exI [of _ co2]) simp
qed

text \<open>A request without blocks, and what its computed blocks have to satisfy.\<close>

definition fresh_request :: "string \<Rightarrow> coordinator \<Rightarrow> bool" where
  "fresh_request rid co \<longleftrightarrow> list_all (\<lambda>m. num_cached_block m rid = None \<and> req_blocks rid m = []) (co_managers co)"

definition computed_ok :: "kv_ref list list \<Rightarrow> int \<Rightarrow> coordinator \<Rightarrow> bool" where
  "computed_ok new t co \<longleftrightarrow> (\<forall>k < length (co_managers co). k < length new \<longrightarrow> table_ok (co_pool co) (new ! k) \<and>
    int (length (new ! k)) \<le> cdiv t (mg_block_size (co_managers co ! k)) \<and> (mg_enable_caching (co_managers co ! k) \<or> new ! k = []))"

lemma new_request_fits:
  assumes i: "co_inv sha256 okr rest co" and g: "\<forall>m \<in> set (co_managers co). growing m" and nr: "fresh_request rid co" and ok: "computed_ok new (nl + ne) co"
    and nn: "0 \<le> nl" "0 \<le> ne" "0 \<le> nm" "nl + ne \<le> need"
    and p: "co_get_num_blocks_to_allocate rid need new enc (nl + ne) nm False co = Inr (n, co')" and c: "n \<le> get_num_free_blocks (co_pool co)"
  shows "co' = co \<and> (\<exists>co1 bs co2. co_allocate_new_computed_blocks rid new nl ne co = Inr co1 \<and>
    co_allocate_new_blocks rid need nm enc co1 = Inr (bs, co2) \<and> get_num_free_blocks (co_pool co) - n \<le> get_num_free_blocks (co_pool co2) \<and>
    (\<forall>k < length (co_managers co). cdiv need (mg_block_size (co_managers co ! k)) \<le> int (length (req_blocks rid (co_managers co2 ! k)))))"
proof -
  let ?L = "length (co_managers co)"
  let ?skip = "\<lambda>k. skipped_blocks (nl + ne) (co_managers co ! k)"
  let ?cost = "\<lambda>k. case py_index new (int k) of Inl _ \<Rightarrow> 0 | Inr nc \<Rightarrow> get_num_evictable_blocks (co_pool co) (py_from nc (max 0 (?skip k)))"
  obtain ns where P: "co' = co" "n = (\<Sum>k < ?L. ns ! k)" "\<And>k. k < ?L \<Longrightarrow> \<exists>nc. py_index new (int k) = Inr nc \<and>
      base_get_num_blocks_to_allocate rid need nc (nl + ne) False (co_pool co) (co_managers co ! k) = Inr (ns ! k)"
    using co_probe [OF g p] by blast
  have fresh: "num_cached_block (co_managers co ! k) rid = None \<and> req_blocks rid (co_managers co ! k) = []" if "k < ?L" for k
    using nr that by (simp add: fresh_request_def list_all_length)
  have ix: "py_index new (int k) = Inr (new ! k)" "k < length new" if "k < ?L" for k
    using P(3) [OF that] by (auto simp: py_index_def split: if_splits)
  have ns: "ns ! k = max 0 (cdiv need (mg_block_size (co_managers co ! k)) - max (?skip k) (int (length (new ! k)))) + ?cost k" if "k < ?L" for k
    using P(3) [OF that] fresh [OF that] probe_new_request ix [OF that] by auto
  have n: "n = (\<Sum>k < ?L. max 0 (cdiv need (mg_block_size (co_managers co ! k)) - max (?skip k) (int (length (new ! k))))) + (\<Sum>k < ?L. ?cost k)"
    using ns by (simp add: P(2) sum.distrib)
  have "0 \<le> (\<Sum>k < ?L. max 0 (cdiv need (mg_block_size (co_managers co ! k)) - max (?skip k) (int (length (new ! k)))))" by (intro sum_nonneg) simp
  then have cl: "(\<Sum>k < ?L. ?cost k) \<le> get_num_free_blocks (co_pool co)" using n c by linarith
  have pre: "(\<forall>nc. py_index new (int k) = Inr nc \<longrightarrow> table_ok (co_pool co) nc) \<and> mg_class (co_managers co ! k) \<noteq> CrossAttentionManager \<and>
      req_blocks rid (co_managers co ! k) = [] \<and> (\<exists>nc. py_index new (int k) = Inr nc \<and> (mg_enable_caching (co_managers co ! k) \<or> nc = []))" if "k < ?L" for k
    using ok that ix [OF that] fresh [OF that] g by (auto simp: computed_ok_def growing_def)
  obtain us co1 where f: "for_managers (add_local rid new nl ne) co = Inr (us, co1)" "co_inv sha256 okr rest co1" "co_keeps co co1"
    "\<And>k. k < ?L \<Longrightarrow> \<exists>nc. py_index new (int k) = Inr nc \<and> (mg_class (co_managers co ! k) \<noteq> CrossAttentionManager \<longrightarrow>
      int (length (req_blocks rid (co_managers co1 ! k))) = max (?skip k) (int (length nc)))"
    "get_num_free_blocks (co_pool co) - (\<Sum>k < ?L. ?cost k) \<le> get_num_free_blocks (co_pool co1)"
    using local_budget.for_managers_within_budget [OF i pre cl] by (metis (no_types, lifting) skipped_blocks_def)
  have len: "int (length (req_blocks rid (co_managers co1 ! k))) = max (?skip k) (int (length (new ! k)))" if "k < ?L" for k
    using f(4) [OF that] ix [OF that] g that by (auto simp: growing_def)
  have ks: "length (co_managers co1) = ?L" "map mg_static (co_managers co1) = map mg_static (co_managers co)"
    using f(3) co_keepsD(2) by (auto simp: co_keeps_def)
  note st = same_static(2) [OF ks(2)]
  have sz: "mg_block_size (co_managers co1 ! k) = mg_block_size (co_managers co ! k)" if "k < ?L" for k using st [OF that] by (simp add: mg_static_def)
  have g1: "\<forall>m \<in> set (co_managers co1). growing m"
    using g growing_static [OF st] ks(1) by (auto simp: in_set_conv_nth all_set_conv_all_nth)
  have need: "new_need rid need (co_managers co1 ! k) = max 0 (cdiv need (mg_block_size (co_managers co ! k)) - max (?skip k) (int (length (new ! k))))" if "k < ?L" for k
    using len [OF that] sz [OF that] by (simp add: new_need_def)
  then have sum: "(\<Sum>k < length (co_managers co1). new_need rid need (co_managers co1 ! k)) = n - (\<Sum>k < ?L. ?cost k)" by (simp add: ks(1) n)
  have c1: "(\<Sum>k < length (co_managers co1). new_need rid need (co_managers co1 ! k)) \<le> get_num_free_blocks (co_pool co1)" using sum f(5) c by linarith
  have l1: "int (length (req_blocks rid (co_managers co1 ! k))) \<le> cdiv (nl + ne) (mg_block_size (co_managers co1 ! k))"
    if k: "k < length (co_managers co1)" for k
  proof -
    have k': "k < ?L" using k ks(1) by simp
    have "get_num_skipped_tokens (mg_spec (co_managers co ! k)) (nl + ne) \<le> nl + ne"
      using co_nth(2) [OF i k'] nn by (intro skipped_le) (simp_all add: static_ok_def)
    then have "?skip k \<le> cdiv (nl + ne) (mg_block_size (co_managers co ! k))"
      unfolding skipped_blocks_def using co_nth(1) [OF i k'] by (intro div_le_cdiv)
    then show ?thesis using len [OF k'] sz [OF k'] ok k' ix(2) [OF k'] by (simp add: computed_ok_def)
  qed
  obtain co2 bs co3 where E: "(if ne > 0 then rbind (for_managers (add_external rid nl ne) co1) (\<lambda>(_, co). Inr co) else Inr co1) = Inr co2"
    "co_allocate_new_blocks rid need nm enc co2 = Inr (bs, co3)"
    "get_num_free_blocks (co_pool co1) - (\<Sum>k < length (co_managers co1). new_need rid need (co_managers co1 ! k)) \<le> get_num_free_blocks (co_pool co3)"
    "\<forall>k < length (co_managers co1). cdiv need (mg_block_size (co_managers co1 ! k)) \<le> int (length (req_blocks rid (co_managers co3 ! k)))"
    using external_phase [OF f(2) g1 nn(3,4) l1 c1, of enc] by blast
  have "\<not> list_ex (\<lambda>m. num_cached_block m rid \<noteq> None) (co_managers co)" using nr by (auto simp: fresh_request_def list_ex_iff list_all_iff)
  then have "co_allocate_new_computed_blocks rid new nl ne co = Inr co2"
    using f(1) E(1) unfolding co_allocate_new_computed_blocks_def add_local_def [symmetric] add_external_def [symmetric] by simp
  moreover have "get_num_free_blocks (co_pool co) - n \<le> get_num_free_blocks (co_pool co3)" using E(3) f(5) sum by linarith
  ultimately show ?thesis using P(1) E(2,4) ks(1) sz by auto
qed

lemma running_fits:
  assumes i: "co_inv sha256 okr rest co" and g: "\<forall>m \<in> set (co_managers co). growing m"
    and run: "\<forall>m \<in> set (co_managers co). num_cached_block m rid \<noteq> None \<or> skipped_blocks t m \<le> int (length (req_blocks rid m))"
    and new: "list_all (\<lambda>bs. bs = []) new" and nm: "0 \<le> nm"
    and p: "co_get_num_blocks_to_allocate rid need new enc t nm False co = Inr (n, co')" and c: "n \<le> get_num_free_blocks (co_pool co)"
  shows "co' = co \<and> (\<exists>bs co2. co_allocate_new_blocks rid need nm enc co = Inr (bs, co2) \<and>
    get_num_free_blocks (co_pool co) - n \<le> get_num_free_blocks (co_pool co2) \<and>
    (\<forall>k < length (co_managers co). cdiv need (mg_block_size (co_managers co ! k)) \<le> int (length (req_blocks rid (co_managers co2 ! k)))))"
proof -
  obtain ns where P: "co' = co" "n = (\<Sum>k < length (co_managers co). ns ! k)"
    "\<And>k. k < length (co_managers co) \<Longrightarrow> \<exists>nc. py_index new (int k) = Inr nc \<and>
      base_get_num_blocks_to_allocate rid need nc t False (co_pool co) (co_managers co ! k) = Inr (ns ! k)"
    using co_probe [OF g p] by blast
  have "ns ! k = new_need rid need (co_managers co ! k)" if k: "k < length (co_managers co)" for k
  proof -
    obtain nc where nc: "py_index new (int k) = Inr nc"
      "base_get_num_blocks_to_allocate rid need nc t False (co_pool co) (co_managers co ! k) = Inr (ns ! k)" using P(3) [OF k] by blast
    have "nc = []" using nc(1) new by (auto simp: py_index_def list_all_length split: if_splits)
    moreover have "num_cached_block (co_managers co ! k) rid \<noteq> None \<or>
        skipped_blocks t (co_managers co ! k) \<le> int (length (req_blocks rid (co_managers co ! k)))" using run k by simp
    ultimately show ?thesis using nc(2) probe_running by simp
  qed
  then have "n = (\<Sum>k < length (co_managers co). new_need rid need (co_managers co ! k))" by (simp add: P(2))
  then show ?thesis using new_phase [OF i g nm, of rid need enc] c P(1) by auto
qed

section \<open>Properties\<close>

text \<open>C4. The admission check is sound for a new request: in every reachable state without Mamba
  and cross-attention groups, if the number of blocks that \<^verbatim>\<open>get_num_blocks_to_allocate\<close> predicts
  over all groups does not exceed the free blocks, then taking the computed blocks, the blocks for
  external tokens and the blocks for the new tokens, in all groups one after the other, never runs out of
  blocks; together they take no more than predicted, and every group ends with slots for all tokens.\<close>

theorem admission_new_request:
  assumes "kv_reach sha256 okr (km, rest)" "list_all growing (co_managers (km_coordinator km))"
    and "fresh_request rid (km_coordinator km)" "computed_ok new (nl + ne) (km_coordinator km)"
    and "0 \<le> nl" "0 \<le> ne" "0 \<le> nm" "nl + ne \<le> need"
    and "co_get_num_blocks_to_allocate rid need new enc (nl + ne) nm False (km_coordinator km) = Inr (n, co)"
    and "n \<le> get_num_free_blocks (km_pool km)"
  shows "\<exists>co1 bs co2. co_allocate_new_computed_blocks rid new nl ne co = Inr co1 \<and> co_allocate_new_blocks rid need nm enc co1 = Inr (bs, co2) \<and>
    get_num_free_blocks (km_pool km) - n \<le> get_num_free_blocks (co_pool co2) \<and>
    (\<forall>k < length (co_managers (km_coordinator km)).
      cdiv need (mg_block_size (co_managers (km_coordinator km) ! k)) \<le> int (length (req_blocks rid (co_managers co2 ! k))))"
proof -
  have i: "co_inv sha256 okr rest (km_coordinator km)" using kv_reach_inv [OF assms(1)] by simp
  have g: "\<forall>m \<in> set (co_managers (km_coordinator km)). growing m" using assms(2) by (simp add: list_all_iff)
  show ?thesis using new_request_fits [OF i g assms(3-10)] by blast
qed

theorem admission_new_request_witness:
  "\<exists>co1 bs co2. co_allocate_new_computed_blocks ''r'' [[]] 0 0 (km_coordinator ex_km) = Inr co1 \<and> co_allocate_new_blocks ''r'' 3 3 0 co1 = Inr (bs, co2) \<and>
    3 \<le> get_num_free_blocks (co_pool co2)"
proof -
  let ?p = "co_get_num_blocks_to_allocate ''r'' 3 [[]] 0 (0 + 0) 3 False (km_coordinator ex_km)"
  have c: "map mg_class (co_managers (km_coordinator ex_km)) = [FullAttentionManager]" "map (req_blocks ''r'') (co_managers (km_coordinator ex_km)) = [[]]"
    "map (\<lambda>m. num_cached_block m ''r'') (co_managers (km_coordinator ex_km)) = [None]" "map mg_block_size (co_managers (km_coordinator ex_km)) = [2]" by code_simp+
  have f: "get_num_free_blocks (km_pool ex_km) = 5" "fst (projr ?p) = 2" "\<not> isl ?p" by code_simp+
  obtain m where m: "co_managers (km_coordinator ex_km) = [m]" "mg_class m = FullAttentionManager" "req_blocks ''r'' m = []"
    "num_cached_block m ''r'' = None" "mg_block_size m = 2" using c by auto
  have p: "?p = Inr (2, snd (projr ?p))" using f(2,3) by (metis prod.collapse sum.collapse(2))
  have r: "kv_reach id (\<lambda>_. True) (ex_km, {#})" by (rule kv_reach.start [OF ex_km_start]) (simp_all add: ex_km_config_def ex_full_def)
  have g: "list_all growing (co_managers (km_coordinator ex_km))" "fresh_request ''r'' (km_coordinator ex_km)"
    "computed_ok [[]] (0 + 0) (km_coordinator ex_km)"
    using m by (simp_all add: growing_def fresh_request_def computed_ok_def table_ok_def cdiv_def)
  have "snd (projr ?p) = km_coordinator ex_km" using co_probe [OF _ p] g(1) by (simp add: list_all_iff)
  then show ?thesis using admission_new_request [OF r g _ _ _ _ p] f(1) by auto
qed

text \<open>C5. The admission check is sound for a running request: in every reachable state without Mamba
  and cross-attention groups, if the prediction for a request that brings no computed blocks, and that is
  tracked by every manager or whose tables cover the tokens its window skips, does not exceed the free blocks, then the allocation of new
  blocks succeeds in all groups, takes no more blocks than predicted and leaves slots for all tokens.\<close>

theorem admission_running:
  assumes "kv_reach sha256 okr (km, rest)" "list_all growing (co_managers (km_coordinator km))"
    and "list_all (\<lambda>m. num_cached_block m rid \<noteq> None \<or> skipped_blocks t m \<le> int (length (req_blocks rid m))) (co_managers (km_coordinator km))"
    and "list_all (\<lambda>bs. bs = []) new" "0 \<le> nm"
    and "co_get_num_blocks_to_allocate rid need new enc t nm False (km_coordinator km) = Inr (n, co)"
    and "n \<le> get_num_free_blocks (km_pool km)"
  shows "\<exists>bs co2. co_allocate_new_blocks rid need nm enc co = Inr (bs, co2) \<and>
    get_num_free_blocks (km_pool km) - n \<le> get_num_free_blocks (co_pool co2) \<and>
    (\<forall>k < length (co_managers (km_coordinator km)).
      cdiv need (mg_block_size (co_managers (km_coordinator km) ! k)) \<le> int (length (req_blocks rid (co_managers co2 ! k))))"
proof -
  have i: "co_inv sha256 okr rest (km_coordinator km)" using kv_reach_inv [OF assms(1)] by simp
  show ?thesis using running_fits [OF i _ _ assms(4-7)] assms(2,3) by (auto simp: list_all_iff)
qed

theorem admission_running_witness:
  "\<exists>bs co2. co_allocate_new_blocks ''r'' 5 5 0 (km_coordinator ex_km2) = Inr (bs, co2) \<and> 2 \<le> get_num_free_blocks (co_pool co2)"
proof -
  let ?p = "co_get_num_blocks_to_allocate ''r'' 5 [[]] 0 3 5 False (km_coordinator ex_km2)"
  have c: "map mg_class (co_managers (km_coordinator ex_km2)) = [FullAttentionManager]"
    "map (skipped_blocks 3) (co_managers (km_coordinator ex_km2)) = [0]" by code_simp+
  have f: "get_num_free_blocks (km_pool ex_km2) = 3" "fst (projr ?p) = 1" "\<not> isl ?p" by code_simp+
  obtain m where m: "co_managers (km_coordinator ex_km2) = [m]" "mg_class m = FullAttentionManager" "skipped_blocks 3 m = 0" using c by auto
  have p: "?p = Inr (1, snd (projr ?p))" using f(2,3) by (metis prod.collapse sum.collapse(2))
  have g: "list_all growing (co_managers (km_coordinator ex_km2))" using m by (simp add: growing_def)
  have "list_all (\<lambda>x. num_cached_block x ''r'' \<noteq> None \<or> skipped_blocks 3 x \<le> int (length (req_blocks ''r'' x))) (co_managers (km_coordinator ex_km2))"
    using m by simp
  note A = admission_running [OF ex_km_reach g this _ _ p]
  have "snd (projr ?p) = km_coordinator ex_km2" using co_probe [OF _ p] g by (simp add: list_all_iff)
  then show ?thesis using A f(1) by auto
qed

end
