(* ===== verification/Encoder_Cache.thy ===== *)
theory Encoder_Cache
  imports Request "HOL-Library.AList"
begin

text \<open>
  The bookkeeping of the encoder cache (\<^verbatim>\<open>vllm/v1/core/encoder_cache_manager.py\<close>): which
  encoder outputs are cached, which requests reference them, which can be evicted, and
  how many slots are free; and the variant for encoder-decoder models.  Dictionaries are
  association lists in insertion order, Python sets are lists without repetition.  The main
  results: the two slot counters always agree with what is cached and referenced, and
  eviction never raises, takes the oldest entries and never touches a referenced one.
\<close>

section \<open>EncoderCacheManager\<close>

record encoder_cache =
  ec_cache_size :: int
  num_free_slots :: int
  num_freeable_slots :: int
  ec_cached :: "(string \<times> string list) list"
  request_cached_ids :: "(string \<times> int list) list"
  ec_freeable :: "(string \<times> int) list"
  ec_freed :: "string list"

definition ec_init :: "int \<Rightarrow> encoder_cache" where
  "ec_init cache_size = \<lparr>ec_cache_size = cache_size, num_free_slots = cache_size, num_freeable_slots = cache_size,
    ec_cached = [], request_cached_ids = [], ec_freeable = [], ec_freed = []\<rparr>"

definition ec_reset :: "encoder_cache \<Rightarrow> encoder_cache" where
  "ec_reset c = c\<lparr>ec_cached := [], request_cached_ids := [], ec_freeable := [], ec_freed := [],
    num_free_slots := ec_cache_size c, num_freeable_slots := ec_cache_size c\<rparr>"

definition mm_hash_of :: "request \<Rightarrow> int \<Rightarrow> string result" where
  "mm_hash_of r input_id = rbind (py_index (mm_features r) input_id) (\<lambda>f. Inr (mm_identifier f))"

definition add_cached_id :: "string \<Rightarrow> int \<Rightarrow> encoder_cache \<Rightarrow> encoder_cache" where
  "add_cached_id rid input_id c =
    (let ids = (case map_of (request_cached_ids c) rid of None \<Rightarrow> [] | Some ids \<Rightarrow> ids)
     in c\<lparr>request_cached_ids := AList.update rid (List.insert input_id ids) (request_cached_ids c)\<rparr>)"

definition check_and_update_cache :: "request \<Rightarrow> int \<Rightarrow> encoder_cache \<Rightarrow> (bool \<times> encoder_cache) result" where
  "check_and_update_cache r input_id c =
    rbind (mm_hash_of r input_id) (\<lambda>h.
      case map_of (ec_cached c) h of
        None \<Rightarrow> Inr (False, c)
      | Some refs \<Rightarrow>
          rbind (if refs = []
                 then case map_of (ec_freeable c) h of
                     None \<Rightarrow> Inl KeyError
                   | Some n \<Rightarrow> Inr (c\<lparr>ec_freeable := AList.delete h (ec_freeable c), num_freeable_slots := num_freeable_slots c - n\<rparr>)
                 else Inr c) (\<lambda>c.
            Inr (True, add_cached_id (request_id r) input_id
              (c\<lparr>ec_cached := AList.update h (List.insert (request_id r) refs) (ec_cached c)\<rparr>))))"

text \<open>The eviction loop of \<^verbatim>\<open>can_allocate\<close>: \<^verbatim>\<open>popitem(last=False)\<close> raises on an empty dictionary.\<close>

function evict_loop :: "int \<Rightarrow> encoder_cache \<Rightarrow> encoder_cache result" where
  "evict_loop num_embeds c =
    (if num_embeds > num_free_slots c
     then case ec_freeable c of
         [] \<Rightarrow> Inl KeyError
       | (h, n) # rest \<Rightarrow>
           if map_of (ec_cached c) h = None then Inl KeyError
           else evict_loop num_embeds (c\<lparr>ec_freeable := rest, ec_cached := AList.delete h (ec_cached c),
             ec_freed := ec_freed c @ [h], num_free_slots := num_free_slots c + n\<rparr>)
     else Inr c)"
  by pat_completeness auto
termination by (relation "measure (\<lambda>(_, c). length (ec_freeable c))") auto

declare evict_loop.simps [simp del]

definition can_allocate :: "request \<Rightarrow> int \<Rightarrow> int \<Rightarrow> int \<Rightarrow> encoder_cache \<Rightarrow> (bool \<times> encoder_cache) result" where
  "can_allocate r input_id encoder_compute_budget num_embeds_to_schedule c =
    rbind (get_num_encoder_embeds r input_id) (\<lambda>n.
      if n > encoder_compute_budget then Inr (False, c)
      else
        let num_embeds = n + num_embeds_to_schedule in
        if num_embeds \<le> num_free_slots c then Inr (True, c)
        else if num_embeds > num_freeable_slots c then Inr (False, c)
        else rbind (evict_loop num_embeds c) (\<lambda>c. Inr (True, c)))"

definition ec_allocate :: "request \<Rightarrow> int \<Rightarrow> encoder_cache \<Rightarrow> encoder_cache result" where
  "ec_allocate r input_id c =
    rbind (mm_hash_of r input_id) (\<lambda>h.
      let refs = (case map_of (ec_cached c) h of None \<Rightarrow> [] | Some refs \<Rightarrow> refs) in
      rbind (get_num_encoder_embeds r input_id) (\<lambda>n.
        py_assert (num_free_slots c \<ge> n)
       (py_assert (num_freeable_slots c \<ge> n)
         (let c = add_cached_id (request_id r) input_id (c\<lparr>ec_cached := AList.update h (List.insert (request_id r) refs) (ec_cached c)\<rparr>)
          in Inr (c\<lparr>num_free_slots := num_free_slots c - n, num_freeable_slots := num_freeable_slots c - n\<rparr>)))))"

definition get_cached_input_ids :: "request \<Rightarrow> encoder_cache \<Rightarrow> int list" where
  "get_cached_input_ids r c = (case map_of (request_cached_ids c) (request_id r) of None \<Rightarrow> [] | Some ids \<Rightarrow> ids)"

definition free_encoder_input :: "request \<Rightarrow> int \<Rightarrow> encoder_cache \<Rightarrow> encoder_cache result" where
  "free_encoder_input r input_id c =
    rbind (mm_hash_of r input_id) (\<lambda>h.
      let c = (case map_of (request_cached_ids c) (request_id r) of
            None \<Rightarrow> c
          | Some ids \<Rightarrow>
              let ids = removeAll input_id ids in
              c\<lparr>request_cached_ids := (if ids = [] then AList.delete (request_id r) (request_cached_ids c)
                                      else AList.update (request_id r) ids (request_cached_ids c))\<rparr>) in
      case map_of (ec_cached c) h of
        None \<Rightarrow> Inr c
      | Some refs \<Rightarrow>
          if refs = [] then Inr c
          else
            let refs = removeAll (request_id r) refs;
                c = c\<lparr>ec_cached := AList.update h refs (ec_cached c)\<rparr> in
            if refs = []
            then rbind (get_num_encoder_embeds r input_id) (\<lambda>n.
              Inr (c\<lparr>ec_freeable := AList.update h n (ec_freeable c), num_freeable_slots := num_freeable_slots c + n\<rparr>))
            else Inr c)"

text \<open>\<^verbatim>\<open>free\<close> iterates over a copy of a Python set, in some order; the list gives one of the orders.  Each
  iteration is \<^const>\<open>free_encoder_input\<close>, itself a step of \<open>ec_step\<close> below, so the reachable states cover every order.\<close>

definition ec_free :: "request \<Rightarrow> encoder_cache \<Rightarrow> encoder_cache result" where
  "ec_free r c = rfold (free_encoder_input r) (get_cached_input_ids r c) c"

definition get_freed_mm_hashes :: "encoder_cache \<Rightarrow> string list \<times> encoder_cache" where
  "get_freed_mm_hashes c = (ec_freed c, c\<lparr>ec_freed := []\<rparr>)"

text \<open>\<^verbatim>\<open>compute_mm_encoder_budget\<close>, with the fields of the scheduler configuration it reads.\<close>

definition compute_mm_encoder_budget :: "bool \<Rightarrow> int \<Rightarrow> int \<Rightarrow> int \<Rightarrow> (string \<times> int) list \<Rightarrow> (int \<times> int) result" where
  "compute_mm_encoder_budget disable_chunked_mm_input max_num_batched_tokens max_num_encoder_input_tokens encoder_cache_size mm_max_toks_per_item =
    (case map snd mm_max_toks_per_item of
       [] \<Rightarrow> Inr (0, 0)
     | v # vs \<Rightarrow>
         let max_tokens_per_mm_item = fold max vs v in
         if disable_chunked_mm_input \<and> max_tokens_per_mm_item > max_num_batched_tokens then Inl ValueError
         else Inr (max max_num_encoder_input_tokens max_tokens_per_mm_item, max encoder_cache_size max_tokens_per_mm_item))"

section \<open>EncoderDecoderCacheManager\<close>

record encdec_cache =
  ed_cache_size :: int
  ed_num_free_slots :: int
  ed_allocated :: "string list"
  ed_to_free :: "string list"

definition ed_init :: "int \<Rightarrow> encdec_cache" where
  "ed_init cache_size = \<lparr>ed_cache_size = cache_size, ed_num_free_slots = cache_size, ed_allocated = [], ed_to_free = []\<rparr>"

definition ed_reset :: "encdec_cache \<Rightarrow> encdec_cache" where
  "ed_reset c = c\<lparr>ed_num_free_slots := ed_cache_size c, ed_allocated := [], ed_to_free := []\<rparr>"

definition ed_can_allocate :: "request \<Rightarrow> int \<Rightarrow> int \<Rightarrow> int \<Rightarrow> encdec_cache \<Rightarrow> bool result" where
  "ed_can_allocate r input_id encoder_compute_budget num_embeds_to_schedule c =
    rbind (get_num_encoder_embeds r input_id) (\<lambda>n.
      Inr (n \<le> encoder_compute_budget \<and> n + num_embeds_to_schedule \<le> ed_num_free_slots c))"

definition ed_allocate :: "request \<Rightarrow> int \<Rightarrow> encdec_cache \<Rightarrow> encdec_cache result" where
  "ed_allocate r input_id c =
    rbind (get_num_encoder_embeds r input_id) (\<lambda>n.
    rbind (mm_hash_of r input_id) (\<lambda>h.
      Inr (c\<lparr>ed_num_free_slots := ed_num_free_slots c - n, ed_allocated := ed_allocated c @ [h]\<rparr>)))"

definition ed_free_encoder_input :: "request \<Rightarrow> int \<Rightarrow> encdec_cache \<Rightarrow> encdec_cache result" where
  "ed_free_encoder_input r input_id c =
    rbind (get_num_encoder_embeds r input_id) (\<lambda>n. Inr (c\<lparr>ed_num_free_slots := ed_num_free_slots c + n\<rparr>))"

definition ed_get_cached_input_ids :: "request \<Rightarrow> int list" where
  "ed_get_cached_input_ids r = map int [0..<length (mm_features r)]"

definition ed_free :: "request \<Rightarrow> encdec_cache \<Rightarrow> encdec_cache result" where
  "ed_free r c = rfold (ed_free_encoder_input r) (map int [0..<length (mm_features r)]) c"

definition ed_get_freed_mm_hashes :: "encdec_cache \<Rightarrow> string list \<times> encdec_cache" where
  "ed_get_freed_mm_hashes c = (ed_to_free c, c\<lparr>ed_to_free := ed_allocated c, ed_allocated := []\<rparr>)"

section \<open>The invariant\<close>

definition referenced :: "encoder_cache \<Rightarrow> string set" where
  "referenced c = {h. \<exists>refs. map_of (ec_cached c) h = Some refs \<and> refs \<noteq> []}"

definition ec_inv :: "(string \<Rightarrow> int) \<Rightarrow> encoder_cache \<Rightarrow> bool" where
  "ec_inv sz c \<longleftrightarrow> distinct (map fst (ec_freeable c)) \<and>
    map_of (ec_freeable c) = (\<lambda>h. if map_of (ec_cached c) h = Some [] then Some (sz h) else None) \<and>
    num_free_slots c = ec_cache_size c - sum sz (dom (map_of (ec_cached c))) \<and>
    num_freeable_slots c = ec_cache_size c - sum sz (referenced c) \<and> 0 \<le> num_free_slots c \<and>
    (\<forall>h refs. map_of (ec_cached c) h = Some refs \<longrightarrow> 0 \<le> sz h)"

text \<open>All requests agree on the number of embeddings of an input, and none is negative.\<close>

definition sized :: "(string \<Rightarrow> int) \<Rightarrow> request \<Rightarrow> bool" where
  "sized sz r \<longleftrightarrow> list_all (\<lambda>f. get_num_embeds (mm_position f) = sz (mm_identifier f) \<and> 0 \<le> sz (mm_identifier f)) (mm_features r)"

lemma finite_cached [simp]: "finite (dom (map_of (ec_cached c)))" "finite (referenced c)"
proof -
  have "referenced c \<subseteq> dom (map_of (ec_cached c))" by (auto simp: referenced_def)
  then show "finite (referenced c)" by (rule finite_subset) (simp add: finite_dom_map_of)
qed (simp add: finite_dom_map_of)

lemma sized_embeds:
  assumes "sized sz r" "get_num_encoder_embeds r i = Inr n" "mm_hash_of r i = Inr h"
  shows "n = sz h" "0 \<le> n"
proof -
  obtain f where f: "py_index (mm_features r) i = Inr f" using assms(3) by (auto simp: mm_hash_of_def)
  then have "f \<in> set (mm_features r)" by (auto simp: py_index_def split: if_splits)
  then show "n = sz h" "0 \<le> n" using assms f by (auto simp: sized_def list_all_iff get_num_encoder_embeds_def mm_hash_of_def py_assert_def split: if_splits)
qed

lemma ec_invD:
  assumes "ec_inv sz c"
  shows "map_of (ec_freeable c) h = (if map_of (ec_cached c) h = Some [] then Some (sz h) else None)" "distinct (map fst (ec_freeable c))"
    "num_free_slots c = ec_cache_size c - sum sz (dom (map_of (ec_cached c)))"
    "num_freeable_slots c = ec_cache_size c - sum sz (referenced c)" "0 \<le> num_free_slots c"
    "map_of (ec_cached c) h = Some refs \<Longrightarrow> 0 \<le> sz h"
  using assms by (simp_all add: ec_inv_def)

text \<open>Only these fields matter.\<close>

lemma ec_inv_cong:
  "ec_inv sz c \<Longrightarrow> ec_cached c' = ec_cached c \<Longrightarrow> ec_freeable c' = ec_freeable c \<Longrightarrow> num_free_slots c' = num_free_slots c \<Longrightarrow>
    num_freeable_slots c' = num_freeable_slots c \<Longrightarrow> ec_cache_size c' = ec_cache_size c \<Longrightarrow> ec_inv sz c'"
  by (simp add: ec_inv_def referenced_def)

lemma add_cached_id_fields [simp]:
  "ec_cached (add_cached_id rid i c) = ec_cached c" "ec_freeable (add_cached_id rid i c) = ec_freeable c"
  "num_free_slots (add_cached_id rid i c) = num_free_slots c" "num_freeable_slots (add_cached_id rid i c) = num_freeable_slots c"
  "ec_cache_size (add_cached_id rid i c) = ec_cache_size c" "ec_freed (add_cached_id rid i c) = ec_freed c"
  by (simp_all add: add_cached_id_def Let_def)

lemma dom_upd_in: "M h = Some x \<Longrightarrow> dom (M(h \<mapsto> y)) = dom M"
  by auto

lemma check_ok:
  assumes inv: "ec_inv sz c" and h: "mm_hash_of r i = Inr h"
  obtains b c' where "check_and_update_cache r i c = Inr (b, c')" "ec_inv sz c'" "b \<longleftrightarrow> h \<in> dom (map_of (ec_cached c))"
    "dom (map_of (ec_cached c')) = dom (map_of (ec_cached c))" "num_free_slots c' = num_free_slots c" "\<not> b \<Longrightarrow> c' = c"
    "b \<Longrightarrow> h \<in> referenced c'" "ec_cache_size c' = ec_cache_size c"
proof (cases "map_of (ec_cached c) h")
  case None
  then show thesis using that [of False c] h inv by (auto simp: check_and_update_cache_def)
next
  case (Some refs)
  define c1 where "c1 = (if refs = [] then c\<lparr>ec_freeable := AList.delete h (ec_freeable c), num_freeable_slots := num_freeable_slots c - sz h\<rparr> else c)"
  define c' where "c' = add_cached_id (request_id r) i (c1\<lparr>ec_cached := AList.update h (List.insert (request_id r) refs) (ec_cached c)\<rparr>)"
  have e: "check_and_update_cache r i c = Inr (True, c')"
    using h Some ec_invD(1) [OF inv, of h] by (simp add: check_and_update_cache_def c'_def c1_def)
  have m: "map_of (ec_cached c') = (map_of (ec_cached c))(h \<mapsto> List.insert (request_id r) refs)" by (simp add: c'_def update_conv')
  have ne: "List.insert (request_id r) refs \<noteq> []" by (auto simp: List.insert_def)
  have ref: "referenced c' = insert h (referenced c)" using ne by (auto simp: referenced_def m)
  have d: "dom (map_of (ec_cached c')) = dom (map_of (ec_cached c))" unfolding m using Some by (rule dom_upd_in)
  have f: "num_free_slots c' = num_free_slots c" "ec_cache_size c' = ec_cache_size c" by (simp_all add: c'_def c1_def)
  have fr: "ec_freeable c' = (if refs = [] then AList.delete h (ec_freeable c) else ec_freeable c)" by (simp add: c'_def c1_def)
  have "map_of (ec_freeable c') = (\<lambda>x. if map_of (ec_cached c') x = Some [] then Some (sz x) else None)"
    using ec_invD(1) [OF inv] Some ne by (auto simp: fun_eq_iff m fr delete_conv')
  moreover have "distinct (map fst (ec_freeable c'))" using ec_invD(2) [OF inv] by (simp add: fr distinct_delete)
  moreover have "num_freeable_slots c' = ec_cache_size c' - sum sz (referenced c')"
  proof (cases "refs = []")
    case True
    then have "h \<notin> referenced c" using Some by (simp add: referenced_def)
    then show ?thesis using True ec_invD(4) [OF inv] unfolding ref by (simp add: c'_def c1_def)
  next
    case False
    then have "insert h (referenced c) = referenced c" using Some by (auto simp: referenced_def)
    then show ?thesis using False ec_invD(4) [OF inv] unfolding ref by (simp add: c'_def c1_def)
  qed
  moreover have "0 \<le> sz x" if "map_of (ec_cached c') x = Some y" for x y
    using that ec_invD(6) [OF inv] Some by (auto simp: m split: if_splits)
  ultimately have "ec_inv sz c'" using ec_invD(3,5) [OF inv] d f unfolding ec_inv_def by simp
  then show thesis using that [OF e] d f ref Some by auto
qed

lemma evict_ok:
  assumes "ec_inv sz c" "n \<le> num_freeable_slots c"
  shows "\<exists>k c'. evict_loop n c = Inr c' \<and> ec_inv sz c' \<and> n \<le> num_free_slots c' \<and> num_freeable_slots c' = num_freeable_slots c \<and>
    ec_cache_size c' = ec_cache_size c \<and> ec_freeable c' = drop k (ec_freeable c) \<and> ec_freed c' = ec_freed c @ map fst (take k (ec_freeable c)) \<and>
    map_of (ec_cached c') = map_of (ec_cached c) |` (- set (map fst (take k (ec_freeable c)))) \<and>
    num_free_slots c' = num_free_slots c + sum_list (map snd (take k (ec_freeable c))) \<and> k \<le> length (ec_freeable c) \<and>
    (\<forall>j < k. num_free_slots c + sum_list (map snd (take j (ec_freeable c))) < n) \<and> request_cached_ids c' = request_cached_ids c"
  using assms
proof (induction "length (ec_freeable c)" arbitrary: c)
  case 0
  then have "dom (map_of (ec_cached c)) \<subseteq> referenced c" using ec_invD(1) [OF 0(2)] by (force simp: referenced_def split: if_splits)
  moreover have "referenced c \<subseteq> dom (map_of (ec_cached c))" by (auto simp: referenced_def)
  ultimately have "num_free_slots c = num_freeable_slots c" using ec_invD(3,4) [OF 0(2)] by simp
  then have "evict_loop n c = Inr c" using 0(3) by (subst evict_loop.simps) simp
  then show ?case using 0 \<open>num_free_slots c = num_freeable_slots c\<close> by (intro exI [of _ 0] exI [of _ c]) auto
next
  case (Suc l)
  then obtain h m rest where fr: "ec_freeable c = (h, m) # rest" by (cases "ec_freeable c") auto
  show ?case
  proof (cases "n > num_free_slots c")
    case False
    then have "evict_loop n c = Inr c" by (subst evict_loop.simps) simp
    then show ?thesis using Suc.prems False by (intro exI [of _ 0] exI [of _ c]) auto
  next
    case True
    have h: "map_of (ec_cached c) h = Some []" "m = sz h" using ec_invD(1) [OF Suc.prems(1), of h] fr by (auto split: if_splits)
    let ?c = "c\<lparr>ec_freeable := rest, ec_cached := AList.delete h (ec_cached c), ec_freed := ec_freed c @ [h], num_free_slots := num_free_slots c + m\<rparr>"
    have e: "evict_loop n c = evict_loop n ?c" using True fr h(1) by (subst evict_loop.simps) simp
    have nh: "h \<notin> fst ` set rest" using ec_invD(2) [OF Suc.prems(1)] fr by simp
    have ref: "referenced ?c = referenced c" using h(1) by (auto simp: referenced_def delete_conv')
    have "dom (map_of (ec_cached ?c)) = dom (map_of (ec_cached c)) - {h}" by (auto simp: delete_conv')
    then have s: "sum sz (dom (map_of (ec_cached ?c))) = sum sz (dom (map_of (ec_cached c))) - sz h" using h(1) by (simp add: sum_diff1 domI)
    have "map_of rest = (\<lambda>x. if map_of (ec_cached ?c) x = Some [] then Some (sz x) else None)"
    proof
      fix x
      show "map_of rest x = (if map_of (ec_cached ?c) x = Some [] then Some (sz x) else None)"
      proof (cases "x = h")
        case True
        have "map_of rest h = None" using nh by (simp add: map_of_eq_None_iff)
        then show ?thesis using True by (simp add: delete_conv')
      qed (use ec_invD(1) [OF Suc.prems(1), of x] fr in \<open>simp add: delete_conv'\<close>)
    qed
    moreover have "0 \<le> num_free_slots c + m" using ec_invD(5,6) [OF Suc.prems(1)] h by simp
    ultimately have inv: "ec_inv sz ?c"
      using ec_invD [OF Suc.prems(1)] fr s ref h(2) unfolding ec_inv_def by (auto simp: delete_conv')
    obtain k c' where k: "evict_loop n ?c = Inr c'" "ec_inv sz c'" "n \<le> num_free_slots c'" "num_freeable_slots c' = num_freeable_slots ?c"
      "ec_cache_size c' = ec_cache_size ?c" "ec_freeable c' = drop k (ec_freeable ?c)" "ec_freed c' = ec_freed ?c @ map fst (take k (ec_freeable ?c))"
      "map_of (ec_cached c') = map_of (ec_cached ?c) |` (- set (map fst (take k (ec_freeable ?c))))"
      "num_free_slots c' = num_free_slots ?c + sum_list (map snd (take k (ec_freeable ?c)))" "k \<le> length (ec_freeable ?c)"
      "\<forall>j < k. num_free_slots ?c + sum_list (map snd (take j (ec_freeable ?c))) < n" "request_cached_ids c' = request_cached_ids ?c"
      using Suc.hyps(1) [of ?c] Suc.hyps(2) fr inv Suc.prems(2) by auto
    have "num_free_slots c + sum_list (map snd (take j (ec_freeable c))) < n" if "j < Suc k" for j
      using that True k(11) fr by (cases j) (auto simp: ac_simps)
    moreover have "map_of (ec_cached c') = map_of (ec_cached c) |` (- set (map fst (take (Suc k) (ec_freeable c))))"
      unfolding k(8) using fr by (auto simp: fun_eq_iff restrict_map_def delete_conv')
    ultimately show ?thesis using k e fr by (intro exI [of _ "Suc k"] exI [of _ c']) simp
  qed
qed

text \<open>The state after the call on every branch.\<close>

lemma can_allocate_exact:
  assumes inv: "ec_inv sz c" and n: "get_num_encoder_embeds r i = Inr n"
  shows "\<exists>k c'. can_allocate r i budget m c = Inr (n \<le> budget \<and> n + m \<le> num_freeable_slots c, c') \<and> ec_inv sz c' \<and>
    (n \<le> budget \<and> n + m \<le> num_freeable_slots c \<longrightarrow> n + m \<le> num_free_slots c') \<and>
    (\<not> (n \<le> budget \<and> n + m \<le> num_freeable_slots c) \<or> n + m \<le> num_free_slots c \<longrightarrow> k = 0 \<and> c' = c) \<and>
    num_freeable_slots c' = num_freeable_slots c \<and> ec_cache_size c' = ec_cache_size c \<and> request_cached_ids c' = request_cached_ids c \<and>
    num_free_slots c' = num_free_slots c + sum_list (map snd (take k (ec_freeable c))) \<and> k \<le> length (ec_freeable c) \<and>
    ec_freeable c' = drop k (ec_freeable c) \<and> ec_freed c' = ec_freed c @ map fst (take k (ec_freeable c)) \<and>
    map_of (ec_cached c') = map_of (ec_cached c) |` (- set (map fst (take k (ec_freeable c)))) \<and>
    (\<forall>j < k. num_free_slots c + sum_list (map snd (take j (ec_freeable c))) < n + m)"
proof (cases "n \<le> budget \<and> num_free_slots c < n + m \<and> n + m \<le> num_freeable_slots c")
  case False
  have sub: "referenced c \<subseteq> dom (map_of (ec_cached c))" by (auto simp: referenced_def)
  have "sum sz (referenced c) \<le> sum sz (dom (map_of (ec_cached c)))"
    using ec_invD(6) [OF inv] by (intro sum_mono2 [OF finite_cached(1) sub]) auto
  then have le: "num_free_slots c \<le> num_freeable_slots c" using ec_invD(3,4) [OF inv] by simp
  show ?thesis by (intro exI [of _ 0] exI [of _ c]) (use False n inv le in \<open>auto simp: can_allocate_def Let_def\<close>)
next
  case True
  obtain k c' where k: "evict_loop (n + m) c = Inr c'" "ec_inv sz c'" "n + m \<le> num_free_slots c'" "num_freeable_slots c' = num_freeable_slots c"
    "ec_cache_size c' = ec_cache_size c" "ec_freeable c' = drop k (ec_freeable c)" "ec_freed c' = ec_freed c @ map fst (take k (ec_freeable c))"
    "map_of (ec_cached c') = map_of (ec_cached c) |` (- set (map fst (take k (ec_freeable c))))"
    "num_free_slots c' = num_free_slots c + sum_list (map snd (take k (ec_freeable c)))" "k \<le> length (ec_freeable c)"
    "\<forall>j < k. num_free_slots c + sum_list (map snd (take j (ec_freeable c))) < n + m" "request_cached_ids c' = request_cached_ids c"
    using evict_ok [OF inv, of "n + m"] True by blast
  then show ?thesis using True n by (intro exI [of _ k] exI [of _ c']) (simp add: can_allocate_def Let_def)
qed

lemma can_allocate_ok:
  assumes inv: "ec_inv sz c" and n: "get_num_encoder_embeds r i = Inr n"
  obtains k c' where "can_allocate r i budget m c = Inr (n \<le> budget \<and> n + m \<le> num_freeable_slots c, c')" "ec_inv sz c'"
    "n \<le> budget \<Longrightarrow> n + m \<le> num_freeable_slots c \<Longrightarrow> n + m \<le> num_free_slots c'"
    "num_freeable_slots c' = num_freeable_slots c" "ec_cache_size c' = ec_cache_size c" "num_free_slots c \<le> num_free_slots c'"
    "ec_freeable c' = drop k (ec_freeable c)" "ec_freed c' = ec_freed c @ map fst (take k (ec_freeable c))"
    "map_of (ec_cached c') = map_of (ec_cached c) |` (- set (map fst (take k (ec_freeable c))))"
    "\<forall>j < k. num_free_slots c + sum_list (map snd (take j (ec_freeable c))) < n + m" "request_cached_ids c' = request_cached_ids c"
proof -
  obtain k c' where k: "can_allocate r i budget m c = Inr (n \<le> budget \<and> n + m \<le> num_freeable_slots c, c')" "ec_inv sz c'"
    "n \<le> budget \<and> n + m \<le> num_freeable_slots c \<longrightarrow> n + m \<le> num_free_slots c'"
    "num_freeable_slots c' = num_freeable_slots c" "ec_cache_size c' = ec_cache_size c"
    "num_free_slots c' = num_free_slots c + sum_list (map snd (take k (ec_freeable c)))"
    "ec_freeable c' = drop k (ec_freeable c)" "ec_freed c' = ec_freed c @ map fst (take k (ec_freeable c))"
    "map_of (ec_cached c') = map_of (ec_cached c) |` (- set (map fst (take k (ec_freeable c))))"
    "\<forall>j < k. num_free_slots c + sum_list (map snd (take j (ec_freeable c))) < n + m" "request_cached_ids c' = request_cached_ids c"
    using can_allocate_exact [OF inv n, of budget m] by blast
  have "0 \<le> sum_list (map snd (take k (ec_freeable c)))"
  proof (rule sum_list_nonneg)
    fix x assume "x \<in> set (map snd (take k (ec_freeable c)))"
    then obtain h where "(h, x) \<in> set (ec_freeable c)" by (auto dest: in_set_takeD)
    then have "map_of (ec_freeable c) h = Some x" using ec_invD(2) [OF inv] by simp
    then show "0 \<le> x" using ec_invD(1,6) [OF inv] by (auto split: if_splits)
  qed
  then have "num_free_slots c \<le> num_free_slots c'" using k(6) by simp
  from that [OF k(1,2) _ k(4,5) this k(7-11)] show thesis using k(3) by blast
qed

lemma ec_allocate_ok:
  assumes inv: "ec_inv sz c" and s: "sized sz r" and n: "get_num_encoder_embeds r i = Inr n" and h: "mm_hash_of r i = Inr h"
    and new: "h \<notin> dom (map_of (ec_cached c))" and fits: "n \<le> num_free_slots c"
  obtains c' where "ec_allocate r i c = Inr c'" "ec_inv sz c'" "num_free_slots c' = num_free_slots c - n"
    "dom (map_of (ec_cached c')) = insert h (dom (map_of (ec_cached c)))" "map_of (ec_cached c') h = Some [request_id r]"
    "ec_cache_size c' = ec_cache_size c"
proof -
  note sz = sized_embeds [OF s n h]
  have none: "map_of (ec_cached c) h = None" using new by auto
  have sub: "referenced c \<subseteq> dom (map_of (ec_cached c))" by (auto simp: referenced_def)
  have "sum sz (referenced c) \<le> sum sz (dom (map_of (ec_cached c)))"
    using ec_invD(6) [OF inv] by (intro sum_mono2 [OF finite_cached(1) sub]) auto
  then have le: "n \<le> num_freeable_slots c" using ec_invD(3,4) [OF inv] fits by simp
  define c1 where "c1 = add_cached_id (request_id r) i (c\<lparr>ec_cached := AList.update h [request_id r] (ec_cached c)\<rparr>)"
  define c' where "c' = c1\<lparr>num_free_slots := num_free_slots c - n, num_freeable_slots := num_freeable_slots c - n\<rparr>"
  have e: "ec_allocate r i c = Inr c'"
    using n h fits le none by (simp add: ec_allocate_def Let_def py_assert_def c1_def c'_def List.insert_def)
  have f: "map_of (ec_cached c') = (map_of (ec_cached c))(h \<mapsto> [request_id r])" "ec_freeable c' = ec_freeable c"
    "num_free_slots c' = num_free_slots c - n" "num_freeable_slots c' = num_freeable_slots c - n" "ec_cache_size c' = ec_cache_size c"
    by (simp_all add: c'_def c1_def update_conv')
  have d: "dom (map_of (ec_cached c')) = insert h (dom (map_of (ec_cached c)))" by (simp add: f(1))
  have ref: "referenced c' = insert h (referenced c)" "h \<notin> referenced c" using none by (auto simp: referenced_def f(1))
  have "map_of (ec_freeable c') = (\<lambda>x. if map_of (ec_cached c') x = Some [] then Some (sz x) else None)"
    using ec_invD(1) [OF inv] none by (auto simp: fun_eq_iff f(1,2))
  moreover have "0 \<le> sz x" if "map_of (ec_cached c') x = Some y" for x y
    using that ec_invD(6) [OF inv] sz by (auto simp: f(1) split: if_splits)
  ultimately have "ec_inv sz c'"
    using ec_invD(2-5) [OF inv] new ref(2) fits sz unfolding ec_inv_def d ref(1) f(2-5) by simp
  then show thesis using that [OF e] f d by simp
qed

lemma free_input_ok:
  assumes inv: "ec_inv sz c" and s: "sized sz r" and n: "get_num_encoder_embeds r i = Inr n" and h: "mm_hash_of r i = Inr h"
  obtains c' where "free_encoder_input r i c = Inr c'" "ec_inv sz c'" "ec_cache_size c' = ec_cache_size c"
proof -
  note sz = sized_embeds [OF s n h]
  define c1 where "c1 = (case map_of (request_cached_ids c) (request_id r) of None \<Rightarrow> c
    | Some ids \<Rightarrow> let ids = removeAll i ids in
        c\<lparr>request_cached_ids := (if ids = [] then AList.delete (request_id r) (request_cached_ids c)
                                else AList.update (request_id r) ids (request_cached_ids c))\<rparr>)"
  have c1: "ec_cached c1 = ec_cached c" "ec_freeable c1 = ec_freeable c" "num_free_slots c1 = num_free_slots c"
    "num_freeable_slots c1 = num_freeable_slots c" "ec_cache_size c1 = ec_cache_size c"
    by (simp_all add: c1_def Let_def split: option.split)
  then have inv1: "ec_inv sz c1" by (rule ec_inv_cong [OF inv])
  have e: "free_encoder_input r i c = (case map_of (ec_cached c1) h of None \<Rightarrow> Inr c1
    | Some refs \<Rightarrow> if refs = [] then Inr c1
      else let refs = removeAll (request_id r) refs; c = c1\<lparr>ec_cached := AList.update h refs (ec_cached c1)\<rparr> in
        if refs = [] then Inr (c\<lparr>ec_freeable := AList.update h n (ec_freeable c), num_freeable_slots := num_freeable_slots c + n\<rparr>) else Inr c)"
    using h n unfolding free_encoder_input_def c1_def [symmetric] by (simp add: Let_def c1_def [symmetric] split: option.split)
  show thesis
  proof (cases "map_of (ec_cached c1) h = None \<or> map_of (ec_cached c1) h = Some []")
    case True
    then show thesis using that [of c1] e inv1 c1(5) by auto
  next
    case False
    then obtain refs where refs: "map_of (ec_cached c1) h = Some refs" "refs \<noteq> []" by auto
    let ?refs = "removeAll (request_id r) refs"
    let ?c = "c1\<lparr>ec_cached := AList.update h ?refs (ec_cached c1)\<rparr>"
    have m: "map_of (ec_cached ?c) = (map_of (ec_cached c1))(h \<mapsto> ?refs)" by (simp add: update_conv')
    have d: "dom (map_of (ec_cached ?c)) = dom (map_of (ec_cached c1))" unfolding m using refs(1) by (rule dom_upd_in)
    have hr: "h \<in> referenced c1" using refs by (simp add: referenced_def)
    have nn: "0 \<le> sz x" if "map_of (ec_cached ?c) x = Some y" for x y using that ec_invD(6) [OF inv1] refs by (auto simp: update_conv' split: if_splits)
    show thesis
    proof (cases "?refs = []")
      case True
      let ?c' = "?c\<lparr>ec_freeable := AList.update h n (ec_freeable c1), num_freeable_slots := num_freeable_slots c1 + n\<rparr>"
      have f: "free_encoder_input r i c = Inr ?c'" using e refs True by (simp add: Let_def)
      have ref: "referenced ?c' = referenced c1 - {h}" using True by (auto simp: referenced_def update_conv')
      have "map_of (ec_freeable ?c') = (\<lambda>x. if map_of (ec_cached ?c') x = Some [] then Some (sz x) else None)"
        using ec_invD(1) [OF inv1] True sz by (auto simp: fun_eq_iff update_conv')
      moreover have "sum sz (referenced ?c') = sum sz (referenced c1) - sz h" unfolding ref using hr by (simp add: sum_diff1)
      moreover have "distinct (map fst (ec_freeable ?c'))" using ec_invD(2) [OF inv1] by (simp add: distinct_update)
      ultimately have "ec_inv sz ?c'" using ec_invD(3-5) [OF inv1] d nn sz unfolding ec_inv_def by simp
      then show thesis using that [OF f] c1(5) by simp
    next
      case False
      have f: "free_encoder_input r i c = Inr ?c" using e refs False by (simp add: Let_def)
      have ref: "referenced ?c = referenced c1" using False hr refs by (auto simp: referenced_def update_conv')
      have "map_of (ec_freeable ?c) = (\<lambda>x. if map_of (ec_cached ?c) x = Some [] then Some (sz x) else None)"
        using ec_invD(1) [OF inv1] False refs by (auto simp: fun_eq_iff update_conv')
      then have "ec_inv sz ?c" using ec_invD(2-5) [OF inv1] d nn ref unfolding ec_inv_def by simp
      then show thesis using that [OF f] c1(5) by simp
    qed
  qed
qed

section \<open>Reachable states\<close>

text \<open>The callers allocate only inputs that are not cached: \<^verbatim>\<open>check_and_update_cache\<close> said so.\<close>

inductive ec_step :: "(string \<Rightarrow> int) \<Rightarrow> encoder_cache \<Rightarrow> encoder_cache \<Rightarrow> bool" for sz where
  check: "\<lbrakk>sized sz r; check_and_update_cache r i c = Inr (b, c')\<rbrakk> \<Longrightarrow> ec_step sz c c'"
| can_alloc: "\<lbrakk>sized sz r; can_allocate r i budget m c = Inr (b, c')\<rbrakk> \<Longrightarrow> ec_step sz c c'"
| alloc: "\<lbrakk>sized sz r; mm_hash_of r i = Inr h; h \<notin> dom (map_of (ec_cached c)); ec_allocate r i c = Inr c'\<rbrakk> \<Longrightarrow> ec_step sz c c'"
| free_input: "\<lbrakk>sized sz r; free_encoder_input r i c = Inr c'\<rbrakk> \<Longrightarrow> ec_step sz c c'"
| free: "\<lbrakk>sized sz r; ec_free r c = Inr c'\<rbrakk> \<Longrightarrow> ec_step sz c c'"
| take_freed: "get_freed_mm_hashes c = (hs, c') \<Longrightarrow> ec_step sz c c'"
| reset: "ec_step sz c (ec_reset c)"

inductive ec_reach :: "(string \<Rightarrow> int) \<Rightarrow> encoder_cache \<Rightarrow> bool" for sz where
  start: "0 \<le> n \<Longrightarrow> ec_reach sz (ec_init n)"
| step: "\<lbrakk>ec_reach sz c; ec_step sz c c'\<rbrakk> \<Longrightarrow> ec_reach sz c'"

lemma embeds_iff_hash: "(\<exists>n. get_num_encoder_embeds r i = Inr n) \<longleftrightarrow> (\<exists>h. mm_hash_of r i = Inr h)"
  by (auto simp: get_num_encoder_embeds_def mm_hash_of_def py_assert_def py_index_def)

definition ec_good :: "(string \<Rightarrow> int) \<Rightarrow> encoder_cache \<Rightarrow> bool" where
  "ec_good sz c \<longleftrightarrow> ec_inv sz c \<and> 0 \<le> ec_cache_size c"

lemma free_input_good:
  assumes "ec_good sz c" "sized sz r" "free_encoder_input r i c = Inr c'"
  shows "ec_good sz c'"
proof -
  obtain h where h: "mm_hash_of r i = Inr h" using assms(3) unfolding free_encoder_input_def rbind_eq_Inr by blast
  then obtain n where n: "get_num_encoder_embeds r i = Inr n" using embeds_iff_hash by blast
  have inv: "ec_inv sz c" "0 \<le> ec_cache_size c" using assms(1) by (simp_all add: ec_good_def)
  obtain c1 where "free_encoder_input r i c = Inr c1" "ec_inv sz c1" "ec_cache_size c1 = ec_cache_size c"
    using free_input_ok [OF inv(1) assms(2) n h] by blast
  then show ?thesis using assms(3) inv(2) by (simp add: ec_good_def)
qed

lemma ec_step_good: "ec_step sz c c' \<Longrightarrow> ec_good sz c \<Longrightarrow> ec_good sz c'"
proof (induction rule: ec_step.induct)
  case (check r i c b c')
  then obtain h where h: "mm_hash_of r i = Inr h" unfolding check_and_update_cache_def rbind_eq_Inr by blast
  have inv: "ec_inv sz c" "0 \<le> ec_cache_size c" using check(3) by (simp_all add: ec_good_def)
  obtain b1 c1 where "check_and_update_cache r i c = Inr (b1, c1)" "ec_inv sz c1" "ec_cache_size c1 = ec_cache_size c"
    using check_ok [OF inv(1) h] by blast
  then show ?case using check(2) inv(2) by (simp add: ec_good_def)
next
  case (can_alloc r i budget m c b c')
  then obtain n where n: "get_num_encoder_embeds r i = Inr n" unfolding can_allocate_def rbind_eq_Inr by blast
  have inv: "ec_inv sz c" "0 \<le> ec_cache_size c" using can_alloc(3) by (simp_all add: ec_good_def)
  obtain b1 c1 where "can_allocate r i budget m c = Inr (b1, c1)" "ec_inv sz c1" "ec_cache_size c1 = ec_cache_size c"
    using can_allocate_ok [OF inv(1) n, of budget m] by blast
  then show ?case using can_alloc(2) inv(2) by (simp add: ec_good_def)
next
  case (alloc r i h c c')
  then obtain n where n: "get_num_encoder_embeds r i = Inr n" using embeds_iff_hash by blast
  have inv: "ec_inv sz c" "0 \<le> ec_cache_size c" using alloc(5) by (simp_all add: ec_good_def)
  have le: "n \<le> num_free_slots c" using alloc(2,4) n by (auto simp: ec_allocate_def Let_def py_assert_def split: if_splits)
  obtain c1 where "ec_allocate r i c = Inr c1" "ec_inv sz c1" "ec_cache_size c1 = ec_cache_size c"
    using ec_allocate_ok [OF inv(1) alloc(1) n alloc(2,3) le] by blast
  then show ?case using alloc(4) inv(2) by (simp add: ec_good_def)
next
  case (free_input r i c c')
  then show ?case using free_input_good by blast
next
  case (free r c c')
  then show ?case unfolding ec_free_def using rfold_invariant [of "free_encoder_input r" _ c c' "ec_good sz"] free_input_good by blast
next
  case (take_freed c hs c')
  then show ?case by (auto simp: get_freed_mm_hashes_def ec_good_def intro: ec_inv_cong)
next
  case (reset c)
  then show ?case by (auto simp: ec_good_def ec_reset_def ec_inv_def referenced_def)
qed

lemma ec_reach_good: "ec_reach sz c \<Longrightarrow> ec_good sz c"
proof (induction rule: ec_reach.induct)
  case (start n)
  then show ?case by (auto simp: ec_good_def ec_init_def ec_inv_def referenced_def)
next
  case (step c c')
  then show ?case using ec_step_good by blast
qed

section \<open>Properties\<close>

definition ex_enc_feature :: mm_feature where
  "ex_enc_feature = \<lparr>mm_identifier = ''a'', mm_position = \<lparr>mm_offset = 0, mm_length = 2, mm_is_embed = None\<rparr>\<rparr>"

definition ex_enc_request :: request where
  "ex_enc_request = ex_request [1, 2, 3] [ex_enc_feature]"

definition ex_enc_cache :: encoder_cache where
  "ex_enc_cache = projr (free_encoder_input ex_enc_request 0 (projr (ec_allocate ex_enc_request 0 (ec_init 3))))"

lemma ex_enc_cache_ok:
  "ec_reach (\<lambda>_. 2) ex_enc_cache" "ec_freeable ex_enc_cache = [(''a'', 2)]" "num_free_slots ex_enc_cache = 1" "num_freeable_slots ex_enc_cache = 3"
  "sized (\<lambda>_. 2) ex_enc_request"
proof -
  show s: "sized (\<lambda>_. 2) ex_enc_request"
    by (simp add: sized_def ex_enc_request_def ex_request_def ex_enc_feature_def get_num_embeds_def embeds_cumsum_def)
  have a: "\<not> isl (ec_allocate ex_enc_request 0 (ec_init 3))" "\<not> isl (free_encoder_input ex_enc_request 0 (projr (ec_allocate ex_enc_request 0 (ec_init 3))))"
    "mm_hash_of ex_enc_request 0 = Inr ''a''" by code_simp+
  have "ec_reach (\<lambda>_. 2) (projr (ec_allocate ex_enc_request 0 (ec_init 3)))"
    by (rule ec_reach.step [OF ec_reach.start [of 3] ec_step.alloc [OF s a(3)]]) (use a(1) in \<open>simp_all add: ec_init_def\<close>)
  then show "ec_reach (\<lambda>_. 2) ex_enc_cache"
    by (rule ec_reach.step [OF _ ec_step.free_input [OF s]]) (use a(2) in \<open>simp add: ex_enc_cache_def\<close>)
  show "ec_freeable ex_enc_cache = [(''a'', 2)]" "num_free_slots ex_enc_cache = 1" "num_freeable_slots ex_enc_cache = 3" by code_simp+
qed

text \<open>C33. Accounting of the encoder cache: in every reachable state, the free slots are the cache size minus the embeddings
  of all cached inputs, the freeable slots are the cache size minus those of the inputs some request references, both
  are within the cache size, and the list of evictable entries holds, without repetition, exactly the cached inputs that
  no request references, with their sizes.\<close>

theorem encoder_cache_accounting:
  assumes "ec_reach sz c"
  shows "num_free_slots c = ec_cache_size c - sum sz (dom (map_of (ec_cached c))) \<and>
    num_freeable_slots c = ec_cache_size c - sum sz (referenced c) \<and>
    0 \<le> num_free_slots c \<and> num_free_slots c \<le> num_freeable_slots c \<and> num_freeable_slots c \<le> ec_cache_size c \<and>
    distinct (map fst (ec_freeable c)) \<and> set (ec_freeable c) = {(h, sz h) | h. map_of (ec_cached c) h = Some []}"
proof -
  have inv: "ec_inv sz c" using ec_reach_good [OF assms] by (simp add: ec_good_def)
  have sub: "referenced c \<subseteq> dom (map_of (ec_cached c))" by (auto simp: referenced_def)
  have nn: "0 \<le> sz h" if "h \<in> dom (map_of (ec_cached c))" for h using that ec_invD(6) [OF inv] by blast
  have "sum sz (referenced c) \<le> sum sz (dom (map_of (ec_cached c)))" using nn by (intro sum_mono2 [OF finite_cached(1) sub]) auto
  moreover have "0 \<le> sum sz (referenced c)" using nn sub by (intro sum_nonneg) blast
  moreover have "(h, n) \<in> set (ec_freeable c) \<longleftrightarrow> map_of (ec_cached c) h = Some [] \<and> n = sz h" for h n
    using ec_invD(1) [OF inv, of h] map_of_eq_Some_iff [OF ec_invD(2) [OF inv], of h n] by (auto split: if_splits)
  then have "set (ec_freeable c) = {(h, sz h) | h. map_of (ec_cached c) h = Some []}" by auto
  ultimately show ?thesis using ec_invD(2-5) [OF inv] by simp
qed

theorem encoder_cache_accounting_witness:
  "num_free_slots ex_enc_cache = ec_cache_size ex_enc_cache - 2 * int (card (dom (map_of (ec_cached ex_enc_cache)))) \<and>
    set (ec_freeable ex_enc_cache) = {(h, 2) | h. map_of (ec_cached ex_enc_cache) h = Some []}"
  using encoder_cache_accounting [OF ex_enc_cache_ok(1)] by simp

text \<open>C34. Admission and eviction in the encoder cache: in every reachable state \<^verbatim>\<open>can_allocate\<close> never raises.  It answers true exactly
  when the input fits the compute budget and the freeable slots.  When it answers false, or when
  enough slots are free already, the cache is unchanged.  Otherwise it evicts a prefix of the list of unreferenced entries, oldest
  first, with enough slots free afterwards and too few with any shorter prefix; it reports the evicted entries, gives their slots back, and leaves all other entries, the references and
  the freeable slots as they were.\<close>

theorem can_allocate_correct:
  assumes "ec_reach sz c" "get_num_encoder_embeds r i = Inr n"
  shows "\<exists>k c'. can_allocate r i budget m c = Inr (n \<le> budget \<and> n + m \<le> num_freeable_slots c, c') \<and> ec_inv sz c' \<and>
    (n \<le> budget \<and> n + m \<le> num_freeable_slots c \<longrightarrow> n + m \<le> num_free_slots c') \<and>
    (\<not> (n \<le> budget \<and> n + m \<le> num_freeable_slots c) \<or> n + m \<le> num_free_slots c \<longrightarrow> k = 0 \<and> c' = c) \<and>
    num_freeable_slots c' = num_freeable_slots c \<and> ec_cache_size c' = ec_cache_size c \<and> request_cached_ids c' = request_cached_ids c \<and>
    num_free_slots c' = num_free_slots c + sum_list (map snd (take k (ec_freeable c))) \<and> k \<le> length (ec_freeable c) \<and>
    ec_freeable c' = drop k (ec_freeable c) \<and> ec_freed c' = ec_freed c @ map fst (take k (ec_freeable c)) \<and>
    map_of (ec_cached c') = map_of (ec_cached c) |` (- set (map fst (take k (ec_freeable c)))) \<and>
    (\<forall>j < k. num_free_slots c + sum_list (map snd (take j (ec_freeable c))) < n + m)"
proof -
  have inv: "ec_inv sz c" using ec_reach_good [OF assms(1)] by (simp add: ec_good_def)
  show ?thesis using inv assms(2) by (rule can_allocate_exact)
qed

theorem can_allocate_correct_witness:
  "\<exists>c'. can_allocate ex_enc_request 0 10 0 ex_enc_cache = Inr (True, c') \<and> 2 \<le> num_free_slots c'"
proof -
  have "get_num_encoder_embeds ex_enc_request 0 = Inr 2" by code_simp
  from can_allocate_correct [OF ex_enc_cache_ok(1) this, of 10 0] show ?thesis using ex_enc_cache_ok(4) by auto
qed

end
