(* ===== verification/Encoder_Schedule.thy ===== *)
theory Encoder_Schedule
  imports Encoder_Cache
begin

text \<open>
  The part of the scheduler that decides which encoder inputs to run in a step
  (\<^verbatim>\<open>_try_schedule_encoder_inputs\<close> and \<^verbatim>\<open>_free_encoder_inputs\<close> of
  \<^verbatim>\<open>vllm/v1/core/sched/scheduler.py\<close>), on top of the two encoder cache managers.  The main
  result: everything it decides to run, in one step, fits the compute budget and can be
  allocated.
\<close>

section \<open>Scheduling of encoder inputs\<close>

text \<open>The scheduler holds one of the two managers.\<close>

datatype cache_manager = is_EncoderCache: EncoderCache encoder_cache | EncoderDecoderCache encdec_cache

fun cm_check_and_update_cache :: "request \<Rightarrow> int \<Rightarrow> cache_manager \<Rightarrow> (bool \<times> cache_manager) result" where
  "cm_check_and_update_cache r i (EncoderCache c) = rbind (check_and_update_cache r i c) (\<lambda>(b, c). Inr (b, EncoderCache c))"
| "cm_check_and_update_cache r i (EncoderDecoderCache c) = Inr (False, EncoderDecoderCache c)"

fun cm_can_allocate :: "request \<Rightarrow> int \<Rightarrow> int \<Rightarrow> int \<Rightarrow> cache_manager \<Rightarrow> (bool \<times> cache_manager) result" where
  "cm_can_allocate r i budget n (EncoderCache c) = rbind (can_allocate r i budget n c) (\<lambda>(b, c). Inr (b, EncoderCache c))"
| "cm_can_allocate r i budget n (EncoderDecoderCache c) = rbind (ed_can_allocate r i budget n c) (\<lambda>b. Inr (b, EncoderDecoderCache c))"

fun cm_allocate :: "request \<Rightarrow> int \<Rightarrow> cache_manager \<Rightarrow> cache_manager result" where
  "cm_allocate r i (EncoderCache c) = rbind (ec_allocate r i c) (\<lambda>c. Inr (EncoderCache c))"
| "cm_allocate r i (EncoderDecoderCache c) = rbind (ed_allocate r i c) (\<lambda>c. Inr (EncoderDecoderCache c))"

fun cm_get_cached_input_ids :: "request \<Rightarrow> cache_manager \<Rightarrow> int list" where
  "cm_get_cached_input_ids r (EncoderCache c) = get_cached_input_ids r c"
| "cm_get_cached_input_ids r (EncoderDecoderCache c) = ed_get_cached_input_ids r"

fun cm_free_encoder_input :: "request \<Rightarrow> int \<Rightarrow> cache_manager \<Rightarrow> cache_manager result" where
  "cm_free_encoder_input r i (EncoderCache c) = rbind (free_encoder_input r i c) (\<lambda>c. Inr (EncoderCache c))"
| "cm_free_encoder_input r i (EncoderDecoderCache c) = rbind (ed_free_encoder_input r i c) (\<lambda>c. Inr (EncoderDecoderCache c))"

text \<open>\<^verbatim>\<open>bisect.bisect_left\<close> with a key, and \<^verbatim>\<open>get_mm_features_in_window\<close>
  (\<^verbatim>\<open>vllm/multimodal/utils.py\<close>).\<close>

function bisect_left :: "('a \<Rightarrow> int) \<Rightarrow> 'a list \<Rightarrow> int \<Rightarrow> nat \<Rightarrow> nat \<Rightarrow> nat" where
  "bisect_left key a x lo hi =
    (if lo < hi
     then let mid = (lo + hi) div 2
          in if key (a ! mid) < x then bisect_left key a x (mid + 1) hi else bisect_left key a x lo mid
     else lo)"
  by pat_completeness auto
termination by (relation "measure (\<lambda>(_, _, _, lo, hi). hi - lo)") auto

declare bisect_left.simps [simp del]

definition get_mm_features_in_window :: "mm_feature list \<Rightarrow> int \<Rightarrow> int \<Rightarrow> int \<times> int" where
  "get_mm_features_in_window fs start_pos end_pos =
    (int (bisect_left (\<lambda>f. mm_offset (mm_position f) + mm_length (mm_position f)) fs (start_pos + 1) 0 (length fs)),
     int (bisect_left (\<lambda>f. mm_offset (mm_position f)) fs end_pos 0 (length fs)))"

record enc_sched =
  encoder_inputs_to_schedule :: "int list"
  external_load_encoder_input :: "int list"
  num_embeds_to_schedule :: int
  mm_hashes_to_schedule :: "string list"
  encoder_compute_budget :: int
  num_new_tokens :: int
  es_manager :: cache_manager

text \<open>The loop of \<^verbatim>\<open>_try_schedule_encoder_inputs\<close> over the inputs in the window; \<open>has_cache_item\<close> is the
  query of the encoder-cache connector, if there is one.\<close>

fun schedule_loop :: "request \<Rightarrow> int \<Rightarrow> int \<Rightarrow> bool \<Rightarrow> (string \<Rightarrow> bool) option \<Rightarrow> int list \<Rightarrow> enc_sched \<Rightarrow> enc_sched result" where
  "schedule_loop r ncomputed shift no_chunk has_cache_item [] s = Inr s"
| "schedule_loop r ncomputed shift no_chunk has_cache_item (i # is) s =
    rbind (py_index (mm_features r) i) (\<lambda>f.
      let start_pos = mm_offset (mm_position f);
          num_encoder_tokens = mm_length (mm_position f);
          num_encoder_embeds = get_num_embeds (mm_position f);
          item_identifier = mm_identifier f;
          enc_dec = (\<not> is_EncoderCache (es_manager s)) in
      if enc_dec \<and> ncomputed > 0
      then py_assert (start_pos = 0) (schedule_loop r ncomputed shift no_chunk has_cache_item is s)
      else
        rbind (if enc_dec then Inr (False, es_manager s)
               else if item_identifier \<in> set (mm_hashes_to_schedule s) then Inr (True, es_manager s)
               else cm_check_and_update_cache r i (es_manager s)) (\<lambda>(skip, cm).
          let s = s\<lparr>es_manager := cm\<rparr> in
          if skip then schedule_loop r ncomputed shift no_chunk has_cache_item is s
          else if no_chunk \<and> ncomputed < start_pos \<and> ncomputed + num_new_tokens s < start_pos + num_encoder_tokens
          then Inr (s\<lparr>num_new_tokens := max 0 (start_pos - (ncomputed + shift))\<rparr>)
          else
            rbind (cm_can_allocate r i (encoder_compute_budget s) (num_embeds_to_schedule s) (es_manager s)) (\<lambda>(ok, cm).
              let s = s\<lparr>es_manager := cm\<rparr> in
              if \<not> ok
              then Inr (s\<lparr>num_new_tokens := (if ncomputed + shift < start_pos then start_pos - (ncomputed + shift) else 0)\<rparr>)
              else
                rbind (get_embeds_indices_in_range (mm_position f) (max 0 (ncomputed - start_pos))
                         (min num_encoder_tokens (ncomputed + num_new_tokens s - start_pos))) (\<lambda>(curr_embeds_start, curr_embeds_end).
                  if curr_embeds_end - curr_embeds_start = 0 then schedule_loop r ncomputed shift no_chunk has_cache_item is s
                  else if (case has_cache_item of None \<Rightarrow> False | Some has \<Rightarrow> has item_identifier)
                  then schedule_loop r ncomputed shift no_chunk has_cache_item is
                    (s\<lparr>mm_hashes_to_schedule := List.insert item_identifier (mm_hashes_to_schedule s),
                       external_load_encoder_input := external_load_encoder_input s @ [i],
                       num_embeds_to_schedule := num_embeds_to_schedule s + num_encoder_embeds\<rparr>)
                  else schedule_loop r ncomputed shift no_chunk has_cache_item is
                    (s\<lparr>num_embeds_to_schedule := num_embeds_to_schedule s + num_encoder_embeds,
                       encoder_compute_budget := encoder_compute_budget s - num_encoder_embeds,
                       mm_hashes_to_schedule := List.insert item_identifier (mm_hashes_to_schedule s),
                       encoder_inputs_to_schedule := encoder_inputs_to_schedule s @ [i]\<rparr>)))))"

definition sched_start :: "int \<Rightarrow> int \<Rightarrow> cache_manager \<Rightarrow> enc_sched" where
  "sched_start nnew budget cm = \<lparr>encoder_inputs_to_schedule = [], external_load_encoder_input = [], num_embeds_to_schedule = 0,
    mm_hashes_to_schedule = [], encoder_compute_budget = budget, num_new_tokens = nnew, es_manager = cm\<rparr>"

definition try_schedule_encoder_inputs ::
  "request \<Rightarrow> int \<Rightarrow> int \<Rightarrow> int \<Rightarrow> int \<Rightarrow> bool \<Rightarrow> (string \<Rightarrow> bool) option \<Rightarrow> cache_manager \<Rightarrow>
   (int list \<times> int \<times> int \<times> int list \<times> cache_manager) result" where
  "try_schedule_encoder_inputs r ncomputed nnew budget shift no_chunk has_cache_item cm =
    (if nnew = 0 \<or> \<not> has_encoder_inputs r then Inr ([], nnew, budget, [], cm)
     else
       py_assert (length (mm_features r) > 0)
        (let (lo, hi) = get_mm_features_in_window (mm_features r) ncomputed (ncomputed + nnew + shift);
             lo = (if is_EncoderCache cm then lo else 0) in
         rbind (schedule_loop r ncomputed shift no_chunk has_cache_item [lo..hi - 1] (sched_start nnew budget cm)) (\<lambda>s.
           Inr (encoder_inputs_to_schedule s, num_new_tokens s, encoder_compute_budget s, external_load_encoder_input s, es_manager s))))"

text \<open>The allocations of \<^verbatim>\<open>schedule\<close> for the inputs it was given.\<close>

definition allocate_encoder_inputs :: "request \<Rightarrow> int list \<Rightarrow> int list \<Rightarrow> cache_manager \<Rightarrow> cache_manager result" where
  "allocate_encoder_inputs r inputs external cm =
    rbind (rfold (cm_allocate r) inputs cm) (rfold (cm_allocate r) external)"

definition free_encoder_inputs :: "bool \<Rightarrow> request \<Rightarrow> cache_manager \<Rightarrow> cache_manager result" where
  "free_encoder_inputs use_eagle r cm =
    rfold (\<lambda>i cm. rbind (py_index (mm_features r) i) (\<lambda>f.
        if \<not> is_EncoderCache cm \<and> num_computed_tokens r > 0 then cm_free_encoder_input r i cm
        else if mm_offset (mm_position f) + mm_length (mm_position f) + (if use_eagle then 1 else 0) \<le>
            num_computed_tokens r - num_output_placeholders r
        then cm_free_encoder_input r i cm
        else Inr cm))
      (cm_get_cached_input_ids r cm) cm"

section \<open>Encoder-decoder models\<close>

text \<open>Once a request has computed a token, every call of \<^verbatim>\<open>_free_encoder_inputs\<close> gives the slots of all its inputs
  back again: the free slots of the encoder-decoder manager grow with every step, past the size of the cache.\<close>

lemma encdec_frees_every_step:
  assumes "0 < num_computed_tokens r"
  shows "free_encoder_inputs use_eagle r (EncoderDecoderCache c) =
    Inr (EncoderDecoderCache (c\<lparr>ed_num_free_slots := ed_num_free_slots c + (\<Sum>f \<leftarrow> mm_features r. get_num_embeds (mm_position f))\<rparr>))"
proof -
  let ?f = "\<lambda>i cm. rbind (py_index (mm_features r) i) (\<lambda>f.
    if \<not> is_EncoderCache cm \<and> num_computed_tokens r > 0 then cm_free_encoder_input r i cm
    else if mm_offset (mm_position f) + mm_length (mm_position f) + (if use_eagle then 1 else 0) \<le> num_computed_tokens r - num_output_placeholders r
    then cm_free_encoder_input r i cm else Inr cm)"
  have "rfold ?f (map int [0..<k]) (EncoderDecoderCache c) =
      Inr (EncoderDecoderCache (c\<lparr>ed_num_free_slots := ed_num_free_slots c + (\<Sum>f \<leftarrow> take k (mm_features r). get_num_embeds (mm_position f))\<rparr>))"
    if "k \<le> length (mm_features r)" for k
    using that
  proof (induction k)
    case (Suc k)
    then show ?case using assms
      by (simp add: rfold_append py_index_def ed_free_encoder_input_def get_num_encoder_embeds_def py_assert_def take_Suc_conv_app_nth)
  qed simp
  then show ?thesis by (simp add: free_encoder_inputs_def ed_get_cached_input_ids_def)
qed

section \<open>What the scheduler decides can be allocated\<close>

definition feature_of :: "request \<Rightarrow> int \<Rightarrow> mm_feature" where
  "feature_of r i = projr (py_index (mm_features r) i)"

definition hash_of :: "request \<Rightarrow> int \<Rightarrow> string" where
  "hash_of r i = mm_identifier (feature_of r i)"

definition embeds_of :: "request \<Rightarrow> int \<Rightarrow> int" where
  "embeds_of r i = get_num_embeds (mm_position (feature_of r i))"

definition valid_id :: "request \<Rightarrow> int \<Rightarrow> bool" where
  "valid_id r i \<longleftrightarrow> \<not> isl (py_index (mm_features r) i)"

lemma valid_idD:
  assumes "valid_id r i"
  shows "py_index (mm_features r) i = Inr (feature_of r i)" "mm_hash_of r i = Inr (hash_of r i)" "get_num_encoder_embeds r i = Inr (embeds_of r i)"
proof -
  show f: "py_index (mm_features r) i = Inr (feature_of r i)" using assms by (simp add: valid_id_def feature_of_def)
  then show "mm_hash_of r i = Inr (hash_of r i)" by (simp add: mm_hash_of_def hash_of_def)
  have "i < int (length (mm_features r))" using f by (auto simp: py_index_def split: if_splits)
  then show "get_num_encoder_embeds r i = Inr (embeds_of r i)" using f by (simp add: get_num_encoder_embeds_def embeds_of_def py_assert_def)
qed

definition allocatable :: "request \<Rightarrow> int list \<Rightarrow> encoder_cache \<Rightarrow> bool" where
  "allocatable r ids c \<longleftrightarrow> list_all (valid_id r) ids \<and> distinct (map (hash_of r) ids) \<and>
    hash_of r ` set ids \<inter> dom (map_of (ec_cached c)) = {} \<and> sum_list (map (embeds_of r) ids) \<le> num_free_slots c"

lemma embeds_nonneg: "sized sz r \<Longrightarrow> valid_id r i \<Longrightarrow> 0 \<le> embeds_of r i"
  using sized_embeds(2) valid_idD(2,3) by blast

lemma allocate_all:
  assumes "ec_inv sz c" "sized sz r" "allocatable r ids c"
  shows "\<exists>c'. rfold (cm_allocate r) ids (EncoderCache c) = Inr (EncoderCache c') \<and> ec_inv sz c' \<and>
    num_free_slots c' = num_free_slots c - sum_list (map (embeds_of r) ids)"
  using assms
proof (induction ids arbitrary: c)
  case Nil
  then show ?case by simp
next
  case (Cons i ids)
  have v: "valid_id r i" "list_all (valid_id r) ids" using Cons.prems(3) by (simp_all add: allocatable_def)
  have "0 \<le> sum_list (map (embeds_of r) ids)" using v(2) embeds_nonneg [OF Cons.prems(2)] by (intro sum_list_nonneg) (auto simp: list_all_iff)
  then have le: "embeds_of r i \<le> num_free_slots c" using Cons.prems(3) by (simp add: allocatable_def)
  have a: "hash_of r i \<notin> dom (map_of (ec_cached c))" "distinct (map (hash_of r) ids)" "hash_of r i \<notin> hash_of r ` set ids"
    "hash_of r ` set ids \<inter> dom (map_of (ec_cached c)) = {}" "embeds_of r i + sum_list (map (embeds_of r) ids) \<le> num_free_slots c"
    using Cons.prems(3) by (simp_all add: allocatable_def)
  obtain c1 where c1: "ec_allocate r i c = Inr c1" "ec_inv sz c1" "num_free_slots c1 = num_free_slots c - embeds_of r i"
    "dom (map_of (ec_cached c1)) = insert (hash_of r i) (dom (map_of (ec_cached c)))"
    by (rule ec_allocate_ok [OF Cons.prems(1,2) valid_idD(3,2) [OF v(1)] a(1) le])
  have "allocatable r ids c1" unfolding allocatable_def c1(3,4) using v(2) a by simp
  then obtain c' where "rfold (cm_allocate r) ids (EncoderCache c1) = Inr (EncoderCache c')" "ec_inv sz c'"
    "num_free_slots c' = num_free_slots c1 - sum_list (map (embeds_of r) ids)"
    using Cons.IH [OF c1(2) Cons.prems(2)] by blast
  then show ?case using c1(1,3) by simp
qed

text \<open>The invariant of the scheduling loop.\<close>

definition sched_ok :: "(string \<Rightarrow> int) \<Rightarrow> request \<Rightarrow> int \<Rightarrow> enc_sched \<Rightarrow> encoder_cache \<Rightarrow> bool" where
  "sched_ok sz r budget s c \<longleftrightarrow> es_manager s = EncoderCache c \<and> ec_inv sz c \<and>
    allocatable r (encoder_inputs_to_schedule s @ external_load_encoder_input s) c \<and>
    set (mm_hashes_to_schedule s) = hash_of r ` set (encoder_inputs_to_schedule s @ external_load_encoder_input s) \<and>
    num_embeds_to_schedule s = sum_list (map (embeds_of r) (encoder_inputs_to_schedule s @ external_load_encoder_input s)) \<and>
    encoder_compute_budget s = budget - sum_list (map (embeds_of r) (encoder_inputs_to_schedule s)) \<and> 0 \<le> encoder_compute_budget s"

lemma allocatable_mono:
  "allocatable r ids c \<Longrightarrow> dom (map_of (ec_cached c')) \<subseteq> dom (map_of (ec_cached c)) \<Longrightarrow> num_free_slots c \<le> num_free_slots c' \<Longrightarrow> allocatable r ids c'"
  unfolding allocatable_def by fastforce

lemma sched_ok_manager:
  assumes "sched_ok sz r budget s c" "ec_inv sz c'" "dom (map_of (ec_cached c')) \<subseteq> dom (map_of (ec_cached c))" "num_free_slots c \<le> num_free_slots c'"
  shows "sched_ok sz r budget (s\<lparr>es_manager := EncoderCache c'\<rparr>) c'"
  using assms allocatable_mono [OF _ assms(3,4)] by (simp add: sched_ok_def)

lemma sched_check:
  assumes s: "sched_ok sz r budget s c" and v: "valid_id r i"
  shows "ok_res (\<lambda>(skip, cm). \<exists>c'. cm = EncoderCache c' \<and> sched_ok sz r budget (s\<lparr>es_manager := cm\<rparr>) c' \<and>
    (\<not> skip \<longrightarrow> hash_of r i \<notin> dom (map_of (ec_cached c')))) (cm_check_and_update_cache r i (es_manager s))"
proof -
  have inv: "ec_inv sz c" and m: "es_manager s = EncoderCache c" using s by (simp_all add: sched_ok_def)
  obtain b c' where c: "check_and_update_cache r i c = Inr (b, c')" "ec_inv sz c'" "b \<longleftrightarrow> hash_of r i \<in> dom (map_of (ec_cached c))"
    "dom (map_of (ec_cached c')) = dom (map_of (ec_cached c))" "num_free_slots c' = num_free_slots c"
    by (rule check_ok [OF inv valid_idD(2) [OF v]])
  have "sched_ok sz r budget (s\<lparr>es_manager := EncoderCache c'\<rparr>) c'" using sched_ok_manager [OF s c(2)] c(4,5) by simp
  then show ?thesis using c(1,3,4) m by simp
qed

lemma sched_can_allocate:
  assumes s: "sched_ok sz r budget s c" and v: "valid_id r i" and new: "hash_of r i \<notin> dom (map_of (ec_cached c))"
  shows "ok_res (\<lambda>(ok, cm). \<exists>c'. cm = EncoderCache c' \<and> sched_ok sz r budget (s\<lparr>es_manager := cm\<rparr>) c' \<and>
    hash_of r i \<notin> dom (map_of (ec_cached c')) \<and>
    (ok \<longrightarrow> embeds_of r i \<le> encoder_compute_budget s \<and> embeds_of r i + num_embeds_to_schedule s \<le> num_free_slots c'))
    (cm_can_allocate r i (encoder_compute_budget s) (num_embeds_to_schedule s) (es_manager s))"
proof -
  have inv: "ec_inv sz c" and m: "es_manager s = EncoderCache c" using s by (simp_all add: sched_ok_def)
  obtain k c' where c: "can_allocate r i (encoder_compute_budget s) (num_embeds_to_schedule s) c =
      Inr (embeds_of r i \<le> encoder_compute_budget s \<and> embeds_of r i + num_embeds_to_schedule s \<le> num_freeable_slots c, c')" "ec_inv sz c'"
    "embeds_of r i \<le> encoder_compute_budget s \<Longrightarrow> embeds_of r i + num_embeds_to_schedule s \<le> num_freeable_slots c \<Longrightarrow>
      embeds_of r i + num_embeds_to_schedule s \<le> num_free_slots c'" "num_free_slots c \<le> num_free_slots c'"
    "map_of (ec_cached c') = map_of (ec_cached c) |` (- set (map fst (take k (ec_freeable c))))"
    using can_allocate_ok [OF inv valid_idD(3) [OF v], of "encoder_compute_budget s" "num_embeds_to_schedule s"] by blast
  have sub: "dom (map_of (ec_cached c')) \<subseteq> dom (map_of (ec_cached c))" unfolding c(5) by auto
  have "sched_ok sz r budget (s\<lparr>es_manager := EncoderCache c'\<rparr>) c'" by (rule sched_ok_manager [OF s c(2) sub c(4)])
  then show ?thesis using c(1,3) m sub new by auto
qed

lemma sched_add:
  assumes s: "sched_ok sz r budget s c" and v: "valid_id r i" and new: "hash_of r i \<notin> dom (map_of (ec_cached c))"
    and h: "hash_of r i \<notin> set (mm_hashes_to_schedule s)"
    and fits: "embeds_of r i \<le> encoder_compute_budget s" "embeds_of r i + num_embeds_to_schedule s \<le> num_free_slots c"
  shows "sched_ok sz r budget (s\<lparr>mm_hashes_to_schedule := List.insert (hash_of r i) (mm_hashes_to_schedule s),
      external_load_encoder_input := external_load_encoder_input s @ [i], num_embeds_to_schedule := num_embeds_to_schedule s + embeds_of r i\<rparr>) c"
    "sched_ok sz r budget (s\<lparr>num_embeds_to_schedule := num_embeds_to_schedule s + embeds_of r i,
      encoder_compute_budget := encoder_compute_budget s - embeds_of r i,
      mm_hashes_to_schedule := List.insert (hash_of r i) (mm_hashes_to_schedule s),
      encoder_inputs_to_schedule := encoder_inputs_to_schedule s @ [i]\<rparr>) c"
  using assms by (auto simp: sched_ok_def allocatable_def)

lemma sched_stop: "sched_ok sz r budget s c \<Longrightarrow> ok_res (\<lambda>s'. \<exists>c'. sched_ok sz r budget s' c') (Inr (s\<lparr>num_new_tokens := n\<rparr>))"
  unfolding ok_Inr by (rule exI [of _ c]) (simp add: sched_ok_def)

lemma schedule_loop_ok:
  assumes "sched_ok sz r budget s c"
  shows "ok_res (\<lambda>s'. \<exists>c'. sched_ok sz r budget s' c') (schedule_loop r ncomputed shift no_chunk has_item is s)"
  using assms
proof (induction "is" arbitrary: s c)
  case Nil
  then show ?case by auto
next
  case (Cons i "is")
  let ?P = "\<lambda>s'. \<exists>c'. sched_ok sz r budget s' c'"
  have e: "is_EncoderCache (es_manager s)" using Cons.prems by (simp add: sched_ok_def)
  show ?case
  proof (cases "py_index (mm_features r) i")
    case (Inl err)
    then show ?thesis by simp
  next
    case (Inr f)
    then have v: "valid_id r i" by (simp add: valid_id_def)
    have f: "feature_of r i = f" using Inr by (simp add: feature_of_def)
    have h: "mm_identifier f = hash_of r i" "get_num_embeds (mm_position f) = embeds_of r i" by (simp_all add: hash_of_def embeds_of_def f)
    have skip: "ok_res (\<lambda>(skip, cm). \<exists>c'. sched_ok sz r budget (s\<lparr>es_manager := cm\<rparr>) c' \<and>
        (\<not> skip \<longrightarrow> hash_of r i \<notin> dom (map_of (ec_cached c')) \<and> hash_of r i \<notin> set (mm_hashes_to_schedule s)))
        (if hash_of r i \<in> set (mm_hashes_to_schedule s) then Inr (True, es_manager s) else cm_check_and_update_cache r i (es_manager s))"
    proof (rule ok_if)
      assume "hash_of r i \<notin> set (mm_hashes_to_schedule s)"
      then show "ok_res (\<lambda>(skip, cm). \<exists>c'. sched_ok sz r budget (s\<lparr>es_manager := cm\<rparr>) c' \<and>
        (\<not> skip \<longrightarrow> hash_of r i \<notin> dom (map_of (ec_cached c')) \<and> hash_of r i \<notin> set (mm_hashes_to_schedule s)))
        (cm_check_and_update_cache r i (es_manager s))"
        using sched_check [OF Cons.prems v] by (auto simp: ok_res_def)
    qed (use Cons.prems in auto)
    have step: "ok_res ?P (schedule_loop r ncomputed shift no_chunk has_item is s')" if "\<exists>c. sched_ok sz r budget s' c" for s'
      using that Cons.IH by blast
    show ?thesis
      unfolding schedule_loop.simps Inr rbind.simps Let_def h
      apply (simp only: e not_True_eq_False simp_thms if_False)
      apply (rule ok_bind2 [OF skip], rename_tac sk cm, elim exE conjE, rename_tac c1)
      apply (rule ok_if, rule step, blast)
      apply (rule ok_if, erule sched_stop)
      apply (rule ok_bind2 [OF sched_can_allocate [OF _ v]], assumption, blast, rename_tac ok cm2, elim exE conjE, rename_tac c2)
      apply (rule ok_if, erule sched_stop)
      apply (rule ok_bind2 [where P = "\<lambda>_ _. True"], simp add: ok_res_def)
      apply (rule ok_if, rule step, blast)
      apply (rule ok_if, rule step, rule exI, rule sched_add(1) [OF _ v], assumption, blast, simp, simp, simp)
      apply (rule step, rule exI, rule sched_add(2) [OF _ v], assumption, blast, simp, simp, simp)
      done
  qed
qed

section \<open>Properties\<close>

text \<open>C35. What the scheduler decides to run can be allocated: from a consistent encoder cache,
  the inputs that \<^verbatim>\<open>_try_schedule_encoder_inputs\<close> returns, those to compute and those to load from elsewhere, are
  distinct inputs that are not cached, those to compute stay within the compute budget, and allocating all of them, as \<^verbatim>\<open>schedule\<close> does,
  raises no assertion and takes exactly the slots of their embeddings.\<close>

theorem scheduled_inputs_allocatable:
  assumes "ec_reach sz c" "sized sz r" "0 \<le> budget"
    and "try_schedule_encoder_inputs r ncomputed nnew budget shift no_chunk has_item (EncoderCache c) = Inr (inputs, nnew', budget', external, cm)"
  shows "\<exists>c1 c2. cm = EncoderCache c1 \<and> allocate_encoder_inputs r inputs external cm = Inr (EncoderCache c2) \<and>
    distinct (map (hash_of r) (inputs @ external)) \<and> hash_of r ` set (inputs @ external) \<inter> dom (map_of (ec_cached c1)) = {} \<and>
    num_free_slots c2 = num_free_slots c1 - sum_list (map (embeds_of r) (inputs @ external)) \<and> 0 \<le> num_free_slots c2 \<and>
    budget' = budget - sum_list (map (embeds_of r) inputs) \<and> 0 \<le> budget'"
proof -
  have inv: "ec_inv sz c" using ec_reach_good [OF assms(1)] by (simp add: ec_good_def)
  have s0: "sched_ok sz r budget (sched_start nnew budget (EncoderCache c)) c"
    using inv assms(3) ec_invD(5) [OF inv] by (simp add: sched_ok_def sched_start_def allocatable_def)
  have "\<exists>s c1. sched_ok sz r budget s c1 \<and> inputs = encoder_inputs_to_schedule s \<and> external = external_load_encoder_input s \<and>
      budget' = encoder_compute_budget s \<and> cm = es_manager s"
  proof (cases "nnew = 0 \<or> \<not> has_encoder_inputs r")
    case True
    then show ?thesis using assms(4) s0 by (intro exI [of _ "sched_start nnew budget (EncoderCache c)"] exI [of _ c])
      (auto simp: try_schedule_encoder_inputs_def sched_start_def)
  next
    case False
    then obtain s "is" where "schedule_loop r ncomputed shift no_chunk has_item is (sched_start nnew budget (EncoderCache c)) = Inr s"
      "inputs = encoder_inputs_to_schedule s" "external = external_load_encoder_input s" "budget' = encoder_compute_budget s" "cm = es_manager s"
      using assms(4) by (auto simp: try_schedule_encoder_inputs_def py_assert_def split: if_splits prod.splits)
    then show ?thesis using ok_resD [OF schedule_loop_ok [OF s0]] by blast
  qed
  then obtain c1 where c1: "cm = EncoderCache c1" "ec_inv sz c1" "allocatable r (inputs @ external) c1"
    "budget' = budget - sum_list (map (embeds_of r) inputs)" "0 \<le> budget'"
    by (auto simp: sched_ok_def)
  obtain c2 where c2: "rfold (cm_allocate r) (inputs @ external) (EncoderCache c1) = Inr (EncoderCache c2)" "ec_inv sz c2"
    "num_free_slots c2 = num_free_slots c1 - sum_list (map (embeds_of r) (inputs @ external))"
    using allocate_all [OF c1(2) assms(2) c1(3)] by blast
  have "allocate_encoder_inputs r inputs external cm = Inr (EncoderCache c2)"
    using c2(1) by (simp add: allocate_encoder_inputs_def c1(1) rfold_append)
  then show ?thesis using c1 c2(3) ec_invD(5) [OF c2(2)] unfolding allocatable_def by blast
qed

definition ex_mm :: "string \<Rightarrow> int \<Rightarrow> mm_feature" where
  "ex_mm h off = \<lparr>mm_identifier = h, mm_position = \<lparr>mm_offset = off, mm_length = 2, mm_is_embed = None\<rparr>\<rparr>"

definition ex_mm_request :: request where
  "ex_mm_request = ex_request [1, 2, 3, 4, 5, 6] [ex_mm ''a'' 0, ex_mm ''b'' 3]"

theorem scheduled_inputs_allocatable_witness:
  "\<exists>c1 c2. try_schedule_encoder_inputs ex_mm_request 0 6 10 0 False None (EncoderCache (ec_init 4)) = Inr ([0, 1], 6, 6, [], EncoderCache c1) \<and>
    allocate_encoder_inputs ex_mm_request [0, 1] [] (EncoderCache c1) = Inr (EncoderCache c2) \<and> num_free_slots c2 = 0"
proof -
  have t: "try_schedule_encoder_inputs ex_mm_request 0 6 10 0 False None (EncoderCache (ec_init 4)) = Inr ([0, 1], 6, 6, [], EncoderCache (ec_init 4))"
    by code_simp
  have s: "sized (\<lambda>_. 2) ex_mm_request" by (simp add: sized_def ex_mm_request_def ex_request_def ex_mm_def get_num_embeds_def embeds_cumsum_def)
  have e: "embeds_of ex_mm_request 0 = 2" "embeds_of ex_mm_request 1 = 2" by code_simp+
  have "ec_reach (\<lambda>_. 2) (ec_init 4)" by (rule ec_reach.start) simp
  from scheduled_inputs_allocatable [OF this s _ t] show ?thesis using t e by (auto simp: ec_init_def)
qed

end
