(* ===== verification/Heapq.thy ===== *)
theory Heapq
  imports Prelude "HOL-Library.Multiset"
begin

text \<open>
  Python's \<^verbatim>\<open>heapq\<close>, which the priority queue of requests is built on, after the code of the
  standard library: a heap is a list, compared with the elements' \<open>lt\<close>.  The locale
  \<open>heap_order\<close> states that \<open>lt\<close> compares keys of a linear order; in it, the operations are shown
  to keep the heap property and the elements, and to return a smallest element.
\<close>

section \<open>The operations\<close>

text \<open>The loop of \<^verbatim>\<open>_siftdown\<close>: bubble \<open>newitem\<close> up from \<open>pos\<close> towards \<open>startpos\<close>.\<close>

function siftdown_loop :: "('a \<Rightarrow> 'a \<Rightarrow> bool) \<Rightarrow> 'a list \<Rightarrow> nat \<Rightarrow> nat \<Rightarrow> 'a \<Rightarrow> 'a list" where
  "siftdown_loop lt heap startpos pos newitem =
    (if pos > startpos
     then let parentpos = (pos - 1) div 2; parent = heap ! parentpos
          in if lt newitem parent then siftdown_loop lt (heap[pos := parent]) startpos parentpos newitem
             else heap[pos := newitem]
     else heap[pos := newitem])"
  by pat_completeness auto
termination by (relation "measure (\<lambda>(_, _, _, pos, _). pos)") auto

definition siftdown :: "('a \<Rightarrow> 'a \<Rightarrow> bool) \<Rightarrow> 'a list \<Rightarrow> nat \<Rightarrow> nat \<Rightarrow> 'a list" where
  "siftdown lt heap startpos pos = siftdown_loop lt heap startpos pos (heap ! pos)"

text \<open>The loop of \<^verbatim>\<open>_siftup\<close>: move the smaller child up until a leaf is reached.\<close>

function siftup_loop :: "('a \<Rightarrow> 'a \<Rightarrow> bool) \<Rightarrow> 'a list \<Rightarrow> nat \<Rightarrow> nat \<Rightarrow> 'a list \<times> nat" where
  "siftup_loop lt heap pos endpos =
    (let childpos = 2 * pos + 1 in
     if childpos < endpos
     then let rightpos = childpos + 1;
              childpos = (if rightpos < endpos \<and> \<not> lt (heap ! childpos) (heap ! rightpos) then rightpos else childpos)
          in siftup_loop lt (heap[pos := heap ! childpos]) childpos endpos
     else (heap, pos))"
  by pat_completeness auto
termination by (relation "measure (\<lambda>(_, _, pos, endpos). endpos - pos)") (auto simp: Let_def split: if_splits)

definition siftup :: "('a \<Rightarrow> 'a \<Rightarrow> bool) \<Rightarrow> 'a list \<Rightarrow> nat \<Rightarrow> 'a list" where
  "siftup lt heap pos =
    (let newitem = heap ! pos; (heap, p) = siftup_loop lt heap pos (length heap)
     in siftdown lt (heap[p := newitem]) pos p)"

definition heappush :: "('a \<Rightarrow> 'a \<Rightarrow> bool) \<Rightarrow> 'a list \<Rightarrow> 'a \<Rightarrow> 'a list" where
  "heappush lt heap item = siftdown lt (heap @ [item]) 0 (length heap)"

definition heappop :: "('a \<Rightarrow> 'a \<Rightarrow> bool) \<Rightarrow> 'a list \<Rightarrow> ('a \<times> 'a list) result" where
  "heappop lt heap =
    (if heap = [] then Inl IndexError
     else let lastelt = last heap; heap = butlast heap in
          if heap \<noteq> [] then Inr (heap ! 0, siftup lt (heap[0 := lastelt]) 0)
          else Inr (lastelt, heap))"

definition heapify :: "('a \<Rightarrow> 'a \<Rightarrow> bool) \<Rightarrow> 'a list \<Rightarrow> 'a list" where
  "heapify lt x = fold (\<lambda>i x. siftup lt x i) (rev [0..<length x div 2]) x"

declare siftdown_loop.simps [simp del] siftup_loop.simps [simp del]

lemma length_siftdown_loop [simp]: "length (siftdown_loop lt l s p x) = length l"
  by (induction lt l s p x rule: siftdown_loop.induct) (subst siftdown_loop.simps, simp add: Let_def)

lemma length_siftup_loop [simp]: "length (fst (siftup_loop lt l p n)) = length l"
proof (induction lt l p n rule: siftup_loop.induct)
  case (1 lt l p n)
  show ?case
  proof (cases "2 * p + 1 < n")
    case True
    show ?thesis by (subst siftup_loop.simps) (simp only: Let_def True if_True 1 [OF refl True refl refl] length_list_update)
  next
    case False
    then show ?thesis by (subst siftup_loop.simps) (simp add: Let_def)
  qed
qed

lemma length_siftup [simp]: "length (siftup lt l p) = length l"
  using length_siftup_loop [of lt l p "length l"]
  by (cases "siftup_loop lt l p (length l)") (simp add: siftup_def siftdown_def Let_def)

lemma length_heappop: "heappop lt l = Inr (x, l') \<Longrightarrow> length l = Suc (length l')"
  by (cases l rule: rev_cases) (auto simp: heappop_def Let_def split: if_splits)

text \<open>Popping a copy of the heap until it is empty.\<close>

function heap_iter :: "('a \<Rightarrow> 'a \<Rightarrow> bool) \<Rightarrow> 'a list \<Rightarrow> 'a list" where
  "heap_iter lt heap_copy = (case heappop lt heap_copy of Inl _ \<Rightarrow> [] | Inr (x, heap_copy) \<Rightarrow> x # heap_iter lt heap_copy)"
  by pat_completeness auto
termination by (relation "measure (length \<circ> snd)") (auto dest: length_heappop)

declare heap_iter.simps [simp del]

section \<open>The heap property\<close>

definition edge :: "('a \<Rightarrow> 'k :: linorder) \<Rightarrow> 'a list \<Rightarrow> nat \<Rightarrow> bool" where
  "edge key l i \<longleftrightarrow> key (l ! ((i - 1) div 2)) \<le> key (l ! i)"

definition heap_from :: "('a \<Rightarrow> 'k :: linorder) \<Rightarrow> nat \<Rightarrow> 'a list \<Rightarrow> bool" where
  "heap_from key s l \<longleftrightarrow> (\<forall>i. 0 < i \<and> i < length l \<and> s \<le> (i - 1) div 2 \<longrightarrow> edge key l i)"

text \<open>Positions below \<open>s\<close> in the tree.\<close>

inductive below :: "nat \<Rightarrow> nat \<Rightarrow> bool" for s where
  here: "below s s"
| down: "below s p \<Longrightarrow> i = 2 * p + 1 \<or> i = 2 * p + 2 \<Longrightarrow> below s i"

lemma below_ge: "below s p \<Longrightarrow> s \<le> p"
  by (induction rule: below.induct) auto

lemma below_parent: "below s p \<Longrightarrow> p \<noteq> s \<Longrightarrow> below s ((p - 1) div 2) \<and> s \<le> (p - 1) div 2 \<and> 0 < p"
proof (erule below.cases)
  fix p' i assume "p \<noteq> s" "p = i" "below s p'" "i = 2 * p' + 1 \<or> i = 2 * p' + 2"
  moreover then have "(p - 1) div 2 = p'" by auto
  ultimately show ?thesis using below_ge by auto
qed simp

lemma below_0: "below 0 p"
proof (induction p rule: less_induct)
  case (less p)
  show ?case
  proof (cases "p = 0")
    case False
    then have "p = 2 * ((p - 1) div 2) + 1 \<or> p = 2 * ((p - 1) div 2) + 2" "(p - 1) div 2 < p" by presburger+
    then show ?thesis using below.down [OF less(1)] by blast
  qed (simp add: below.here)
qed

lemma mset_move: "p \<noteq> q \<Longrightarrow> p < length l \<Longrightarrow> q < length l \<Longrightarrow> mset (l[p := l ! q, q := x]) = mset (l[p := x])"
  by (simp add: mset_update)

locale heap_order =
  fixes lt :: "'a \<Rightarrow> 'a \<Rightarrow> bool" and key :: "'a \<Rightarrow> 'k :: linorder"
  assumes lt_key: "lt a b \<longleftrightarrow> key a < key b"
begin

lemma siftdown_loop_ok:
  assumes "below s p" "p < length l"
    and "\<And>i. 0 < i \<Longrightarrow> i < length l \<Longrightarrow> s \<le> (i - 1) div 2 \<Longrightarrow> i \<noteq> p \<Longrightarrow> edge key (l[p := x]) i"
    and "\<And>i. 0 < i \<Longrightarrow> i < length l \<Longrightarrow> (i - 1) div 2 = p \<Longrightarrow> p \<noteq> s \<Longrightarrow> key (l ! ((p - 1) div 2)) \<le> key (l ! i)"
  shows "heap_from key s (siftdown_loop lt l s p x) \<and> mset (siftdown_loop lt l s p x) = mset (l[p := x])"
  using assms
proof (induction p arbitrary: l rule: less_induct)
  case (less p)
  let ?q = "(p - 1) div 2"
  show ?case
  proof (cases "p > s \<and> lt x (l ! ?q)")
    case False
    then have e: "siftdown_loop lt l s p x = l[p := x]" by (subst siftdown_loop.simps) (simp add: Let_def)
    have "edge key (l[p := x]) p" if "0 < p" "s \<le> ?q"
    proof -
      have "p > s" using that by presburger
      then have "key (l ! ?q) \<le> key x" using False by (simp add: lt_key)
      moreover have "?q \<noteq> p" using that by presburger
      ultimately show ?thesis using less.prems(2) by (simp add: edge_def)
    qed
    then have "heap_from key s (l[p := x])" using less.prems(3) unfolding heap_from_def by (metis length_list_update)
    then show ?thesis by (simp add: e)
  next
    case True
    then have q: "below s ?q" "s \<le> ?q" "0 < p" "?q < p" using below_parent [OF less.prems(1)] by auto
    let ?l = "l[p := l ! ?q]"
    have e: "siftdown_loop lt l s p x = siftdown_loop lt ?l s ?q x" using True by (subst siftdown_loop.simps) (simp add: Let_def)
    have nq: "?q \<noteq> p" "?q < length l" using q less.prems(2) by auto
    have old: "edge key l i" if "0 < i" "i < length l" "s \<le> (i - 1) div 2" "i \<noteq> p" "(i - 1) div 2 \<noteq> p" for i
      using less.prems(3) [OF that(1-4)] that(4,5) by (simp add: edge_def)
    have I: "heap_from key s (siftdown_loop lt ?l s ?q x) \<and> mset (siftdown_loop lt ?l s ?q x) = mset (?l[?q := x])"
    proof (rule less.IH [OF q(4,1)])
      show "?q < length ?l" using nq by simp
    next
      fix i assume i: "0 < i" "i < length ?l" "s \<le> (i - 1) div 2" "i \<noteq> ?q"
      have j: "(i - 1) div 2 \<noteq> i" using i(1) by presburger
      consider "i = p" | "i \<noteq> p" "(i - 1) div 2 = ?q" | "i \<noteq> p" "(i - 1) div 2 = p" | "i \<noteq> p" "(i - 1) div 2 \<noteq> ?q" "(i - 1) div 2 \<noteq> p" by blast
      then show "edge key (?l[?q := x]) i"
      proof cases
        case 1
        then show ?thesis using True nq less.prems(2) by (auto simp: edge_def lt_key)
      next
        case 2
        have "edge key l i" using old i 2 nq by simp
        then have "key (l ! ?q) \<le> key (l ! i)" using 2 by (simp add: edge_def)
        moreover have "key x < key (l ! ?q)" using True by (simp add: lt_key)
        ultimately show ?thesis using 2 i nq by (simp add: edge_def)
      next
        case 3
        then have "key (l ! ?q) \<le> key (l ! i)" using less.prems(4) [of i] i True by simp
        then show ?thesis using 3 i nq less.prems(2) by (simp add: edge_def)
      next
        case 4
        have "edge key l i" using old i 4 by simp
        then show ?thesis using 4 i nq by (simp add: edge_def)
      qed
    next
      fix i assume i: "0 < i" "i < length ?l" "(i - 1) div 2 = ?q" "?q \<noteq> s"
      have pq: "s \<le> (?q - 1) div 2" "0 < ?q" using below_parent [OF q(1) i(4)] by auto
      have "(?q - 1) div 2 \<noteq> p" using q(4) div_le_dividend [of "?q - 1" 2] by linarith
      then have "edge key l ?q" using old [of ?q] pq nq by simp
      then have a: "key (l ! ((?q - 1) div 2)) \<le> key (l ! ?q)" by (simp add: edge_def)
      show "key (?l ! ((?q - 1) div 2)) \<le> key (?l ! i)"
      proof (cases "i = p")
        case True
        then show ?thesis using a \<open>(?q - 1) div 2 \<noteq> p\<close> less.prems(2) by simp
      next
        case False
        then have "edge key l i" using old [of i] i q(2) nq by simp
        then have "key (l ! ?q) \<le> key (l ! i)" using i(3) by (simp add: edge_def)
        then show ?thesis using a False \<open>(?q - 1) div 2 \<noteq> p\<close> by simp
      qed
    qed
    have "mset (?l[?q := x]) = mset (l[p := x])"
      using nq less.prems(2) by (intro mset_move) auto
    then show ?thesis using I e by simp
  qed
qed

text \<open>Moving children up: the hole at \<open>p\<close> keeps its old value until it is filled.\<close>

lemma siftup_loop_ok:
  assumes "below s p" "p < length l"
    and "\<And>i. 0 < i \<Longrightarrow> i < length l \<Longrightarrow> s \<le> (i - 1) div 2 \<Longrightarrow> (i - 1) div 2 \<noteq> p \<Longrightarrow> edge key l i"
    and "\<And>i. 0 < i \<Longrightarrow> i < length l \<Longrightarrow> (i - 1) div 2 = p \<Longrightarrow> p \<noteq> s \<Longrightarrow> key (l ! ((p - 1) div 2)) \<le> key (l ! i)"
    and "siftup_loop lt l p (length l) = (l', p')"
  shows "below s p' \<and> p' < length l \<and> length l' = length l \<and> length l \<le> 2 * p' + 1 \<and> mset (l'[p' := x]) = mset (l[p := x]) \<and>
    (\<forall>i. 0 < i \<and> i < length l \<and> s \<le> (i - 1) div 2 \<longrightarrow> edge key l' i)"
  using assms
proof (induction "length l - p" arbitrary: l p rule: less_induct)
  case less
  show ?case
  proof (cases "2 * p + 1 < length l")
    case False
    then have e: "l' = l" "p' = p" using less.prems(5) by (subst (asm) siftup_loop.simps, simp add: Let_def)+
    have "(i - 1) div 2 \<noteq> p" if "0 < i" "i < length l" for i using that False by presburger
    then show ?thesis using e less.prems False by auto
  next
    case True
    define c where "c = (if 2 * p + 2 < length l \<and> \<not> lt (l ! (2 * p + 1)) (l ! (2 * p + 2)) then 2 * p + 2 else 2 * p + 1)"
    let ?l = "l[p := l ! c]"
    have "siftup_loop lt l p (length l) = siftup_loop lt ?l c (length ?l)" using True by (subst siftup_loop.simps) (simp add: Let_def c_def)
    then have e: "siftup_loop lt ?l c (length ?l) = (l', p')" using less.prems(5) by simp
    have c: "c < length l" "(c - 1) div 2 = p" "0 < c" "p < c" "c = 2 * p + 1 \<or> c = 2 * p + 2" using True by (auto simp: c_def)
    have min: "key (l ! c) \<le> key (l ! i)" if "0 < i" "i < length l" "(i - 1) div 2 = p" for i
    proof -
      have "i = 2 * p + 1 \<or> i = 2 * p + 2" using that(1,3) by presburger
      then show ?thesis using that(2) by (auto simp: c_def lt_key)
    qed
    have I: "below s p' \<and> p' < length ?l \<and> length l' = length ?l \<and> length ?l \<le> 2 * p' + 1 \<and> mset (l'[p' := x]) = mset (?l[c := x]) \<and>
        (\<forall>i. 0 < i \<and> i < length ?l \<and> s \<le> (i - 1) div 2 \<longrightarrow> edge key l' i)"
    proof (rule less.hyps [OF _ _ _ _ _ e])
      show "length ?l - c < length l - p" using c True by simp
      show "below s c" using below.down [OF less.prems(1) c(5)] .
      show "c < length ?l" using c(1) by simp
    next
      fix i assume i: "0 < i" "i < length ?l" "s \<le> (i - 1) div 2" "(i - 1) div 2 \<noteq> c"
      consider "(i - 1) div 2 = p" | "i = p" "(i - 1) div 2 \<noteq> p" | "i \<noteq> p" "(i - 1) div 2 \<noteq> p" by blast
      then show "edge key ?l i"
      proof cases
        case 1
        then have "i \<noteq> p" using i(1) by presburger
        then show ?thesis using min [of i] 1 i less.prems(2) by (simp add: edge_def)
      next
        case 2
        then have "p \<noteq> s" using i(1,3) by presburger
        then have "key (l ! ((p - 1) div 2)) \<le> key (l ! c)" using less.prems(4) [OF c(3,1,2)] by simp
        then show ?thesis using 2 less.prems(2) by (simp add: edge_def)
      next
        case 3
        then show ?thesis using less.prems(3) [of i] i by (simp add: edge_def)
      qed
    next
      fix i assume i: "0 < i" "i < length ?l" "(i - 1) div 2 = c" "c \<noteq> s"
      have "s \<le> (i - 1) div 2" using below_ge [OF less.prems(1)] c(4) i(3) by simp
      then have "edge key l i" using less.prems(3) [of i] i c(4) by simp
      moreover have "i \<noteq> p" using i(3) c(4) by presburger
      ultimately show "key (?l ! ((c - 1) div 2)) \<le> key (?l ! i)" using i(3) c(2) less.prems(2) by (simp add: edge_def)
    qed
    have "mset (?l[c := x]) = mset (l[p := x])"
      using c less.prems(2) by (intro mset_move) auto
    then show ?thesis using I by simp
  qed
qed

lemma siftup_ok:
  assumes h: "heap_from key (Suc s) l" and s: "s < length l"
  shows "heap_from key s (siftup lt l s) \<and> mset (siftup lt l s) = mset l"
proof -
  obtain l' p where e: "siftup_loop lt l s (length l) = (l', p)" by fastforce
  have U: "below s p \<and> p < length l \<and> length l' = length l \<and> length l \<le> 2 * p + 1 \<and> mset (l'[p := l ! s]) = mset (l[s := l ! s]) \<and>
      (\<forall>i. 0 < i \<and> i < length l \<and> s \<le> (i - 1) div 2 \<longrightarrow> edge key l' i)"
    by (rule siftup_loop_ok [OF below.here s _ _ e]) (use h in \<open>auto simp: heap_from_def\<close>)
  have "length l \<le> 2 * p + 1" using U by blast
  then have leaf: "(i - 1) div 2 \<noteq> p" if "0 < i" "i < length l" for i using that by presburger
  have "heap_from key s (siftdown_loop lt (l'[p := l ! s]) s p (l ! s)) \<and>
      mset (siftdown_loop lt (l'[p := l ! s]) s p (l ! s)) = mset (l'[p := l ! s, p := l ! s])"
  proof (rule siftdown_loop_ok)
    show "below s p" "p < length (l'[p := l ! s])" using U by simp_all
  next
    fix i assume "0 < i" "i < length (l'[p := l ! s])" "s \<le> (i - 1) div 2" "i \<noteq> p"
    then show "edge key (l'[p := l ! s, p := l ! s]) i" using U leaf [of i] by (simp add: edge_def)
  next
    fix i assume "0 < i" "i < length (l'[p := l ! s])" "(i - 1) div 2 = p"
    then show "key (l'[p := l ! s] ! ((p - 1) div 2)) \<le> key (l'[p := l ! s] ! i)" using U leaf [of i] by simp
  qed
  then show ?thesis using e U s by (simp add: siftup_def siftdown_def Let_def)
qed

lemma heappush_ok:
  assumes "heap_from key 0 l"
  shows "heap_from key 0 (heappush lt l x) \<and> mset (heappush lt l x) = add_mset x (mset l)"
proof -
  let ?l = "l @ [x]"
  have "heap_from key 0 (siftdown_loop lt ?l 0 (length l) x) \<and> mset (siftdown_loop lt ?l 0 (length l) x) = mset (?l[length l := x])"
  proof (rule siftdown_loop_ok [OF below_0])
    show "length l < length ?l" by simp
  next
    fix i assume i: "0 < i" "i < length ?l" "i \<noteq> length l"
    then have "edge key l i" using assms by (simp add: heap_from_def)
    moreover have "(i - 1) div 2 < length l" using i div_le_dividend [of "i - 1" 2] by simp
    ultimately show "edge key (?l[length l := x]) i" using i by (simp add: edge_def nth_append)
  next
    fix i assume "0 < i" "i < length ?l" "(i - 1) div 2 = length l"
    then have False by simp
    then show "key (?l ! ((length l - 1) div 2)) \<le> key (?l ! i)" ..
  qed
  then show ?thesis by (simp add: heappush_def siftdown_def)
qed

lemma heap_root:
  assumes "heap_from key 0 l" "i < length l"
  shows "key (l ! 0) \<le> key (l ! i)"
  using assms(2)
proof (induction i rule: less_induct)
  case (less i)
  show ?case
  proof (cases "i = 0")
    case False
    then have p: "(i - 1) div 2 < i" by presburger
    have "key (l ! ((i - 1) div 2)) \<le> key (l ! i)" using assms(1) False less.prems by (simp add: heap_from_def edge_def)
    then show ?thesis using less.IH [OF p] p less.prems by simp
  qed simp
qed

lemma heappop_ok:
  assumes h: "heap_from key 0 l" and ne: "l \<noteq> []"
  obtains l' where "heappop lt l = Inr (l ! 0, l')" "heap_from key 0 l'" "mset l = add_mset (l ! 0) (mset l')" "\<forall>x \<in> set l. key (l ! 0) \<le> key x"
proof -
  have root: "\<forall>x \<in> set l. key (l ! 0) \<le> key x" using heap_root [OF h] by (auto simp: in_set_conv_nth)
  show thesis
  proof (cases "butlast l = []")
    case True
    then obtain x where "l = [x]" using ne by (metis append_butlast_last_id append_Nil)
    then show thesis using that [of "[]"] root by (simp add: heappop_def heap_from_def)
  next
    case False
    let ?b = "(butlast l)[0 := last l]"
    have b: "edge key ?b i" if "0 < i" "i < length ?b" "Suc 0 \<le> (i - 1) div 2" for i
      using h that by (auto simp: heap_from_def edge_def nth_butlast)
    have S: "heap_from key 0 (siftup lt ?b 0) \<and> mset (siftup lt ?b 0) = mset ?b"
      using b length_greater_0_conv [THEN iffD2, OF False] by (intro siftup_ok) (simp_all add: heap_from_def del: length_butlast)
    have l: "l = butlast l @ [last l]" using ne by simp
    have b0: "butlast l ! 0 = l ! 0" using False by (intro nth_butlast) (simp only: length_greater_0_conv not_False_eq_True)
    then have m0: "l ! 0 \<in># mset (butlast l)" using False by (metis length_greater_0_conv nth_mem_mset)
    have "mset ?b = mset l - {#l ! 0#}"
    proof -
      have "mset ?b = add_mset (last l) (mset (butlast l)) - {#l ! 0#}" using False b0 m0 by (subst mset_update) (simp_all only: length_greater_0_conv not_False_eq_True diff_union_swap2)
      also have "add_mset (last l) (mset (butlast l)) = mset l" by (subst (3) l) simp
      finally show ?thesis .
    qed
    moreover have "l ! 0 \<in># mset l" using ne by simp
    ultimately have "mset l = add_mset (l ! 0) (mset (siftup lt ?b 0))" using S by simp
    moreover have "heappop lt l = Inr (l ! 0, siftup lt ?b 0)" using ne False b0 by (simp add: heappop_def Let_def)
    ultimately show thesis using that S root by blast
  qed
qed

lemma heapify_ok: "heap_from key 0 (heapify lt l) \<and> mset (heapify lt l) = mset l"
proof -
  have "heap_from key 0 (fold (\<lambda>i x. siftup lt x i) (rev [0..<n]) x) \<and> mset (fold (\<lambda>i x. siftup lt x i) (rev [0..<n]) x) = mset x"
    if "heap_from key n x" "n \<le> length x" for n and x :: "'a list"
    using that
  proof (induction n arbitrary: x)
    case (Suc n)
    then have S: "heap_from key n (siftup lt x n) \<and> mset (siftup lt x n) = mset x" by (intro siftup_ok) simp_all
    then have "length (siftup lt x n) = length x" by (metis mset_eq_length)
    then show ?case using Suc.IH [of "siftup lt x n"] S Suc.prems(2) by simp
  qed simp
  moreover have "heap_from key (length l div 2) l" unfolding heap_from_def
  proof (intro allI impI)
    fix i assume "0 < i \<and> i < length l \<and> length l div 2 \<le> (i - 1) div 2"
    then have False by presburger
    then show "edge key l i" ..
  qed
  ultimately show ?thesis by (simp add: heapify_def)
qed

lemma heap_iter_ok:
  assumes "heap_from key 0 l"
  shows "mset (heap_iter lt l) = mset l \<and> sorted (map key (heap_iter lt l))"
  using assms
proof (induction l rule: length_induct)
  case (1 l)
  show ?case
  proof (cases "l = []")
    case True
    then show ?thesis by (subst (1 2) heap_iter.simps) (simp add: heappop_def)
  next
    case False
    obtain l' where l': "heappop lt l = Inr (l ! 0, l')" "heap_from key 0 l'" "mset l = add_mset (l ! 0) (mset l')" "\<forall>x \<in> set l. key (l ! 0) \<le> key x"
      by (rule heappop_ok [OF 1(2) False])
    have I: "mset (heap_iter lt l') = mset l' \<and> sorted (map key (heap_iter lt l'))" using 1(1) l'(2) length_heappop [OF l'(1)] by simp
    have e: "heap_iter lt l = l ! 0 # heap_iter lt l'" using l'(1) by (subst heap_iter.simps) simp
    have "set (heap_iter lt l') \<subseteq> set l" using I l'(3) by (metis insert_subset set_mset_add_mset_insert set_mset_mset subset_insertI)
    then show ?thesis using I l'(3,4) e by auto
  qed
qed

end

end
