(* ===== verification/Request_Queue.thy ===== *)
theory Request_Queue
  imports Request Heapq
begin

text \<open>
  The queues of waiting requests (\<^verbatim>\<open>vllm/v1/core/sched/request_queue.py\<close>): first come first
  served on a deque, and by priority on a binary heap.  \<^verbatim>\<open>Request\<close> defines no equality, so two
  requests are equal when they are one object.  The main result: both queues behave like the list of their requests
  in the order of service, which the priority queue keeps sorted by \<^verbatim>\<open>Request.__lt__\<close>.
\<close>

section \<open>The queues\<close>

datatype scheduling_policy = FCFS | PRIORITY

datatype request_queue = FCFSRequestQueue "request list" | PriorityRequestQueue "request list"

fun create_request_queue :: "scheduling_policy \<Rightarrow> request_queue" where
  "create_request_queue PRIORITY = PriorityRequestQueue []"
| "create_request_queue FCFS = FCFSRequestQueue []"

fun add_request :: "request \<Rightarrow> request_queue \<Rightarrow> request_queue" where
  "add_request r (FCFSRequestQueue d) = FCFSRequestQueue (d @ [r])"
| "add_request r (PriorityRequestQueue h) = PriorityRequestQueue (heappush request_lt h r)"

fun pop_request :: "request_queue \<Rightarrow> (request \<times> request_queue) result" where
  "pop_request (FCFSRequestQueue d) = (case d of [] \<Rightarrow> Inl IndexError | r # d \<Rightarrow> Inr (r, FCFSRequestQueue d))"
| "pop_request (PriorityRequestQueue h) =
    (if h = [] then Inl IndexError else rbind (heappop request_lt h) (\<lambda>(r, h). Inr (r, PriorityRequestQueue h)))"

fun peek_request :: "request_queue \<Rightarrow> request result" where
  "peek_request (FCFSRequestQueue d) = (if d = [] then Inl IndexError else Inr (d ! 0))"
| "peek_request (PriorityRequestQueue h) = (if h = [] then Inl IndexError else Inr (h ! 0))"

fun prepend_request :: "request \<Rightarrow> request_queue \<Rightarrow> request_queue" where
  "prepend_request r (FCFSRequestQueue d) = FCFSRequestQueue (r # d)"
| "prepend_request r (PriorityRequestQueue h) = add_request r (PriorityRequestQueue h)"

fun iter_requests :: "request_queue \<Rightarrow> request list" where
  "iter_requests (FCFSRequestQueue d) = d"
| "iter_requests (PriorityRequestQueue h) = heap_iter request_lt h"

fun prepend_requests :: "request_queue \<Rightarrow> request_queue \<Rightarrow> request_queue" where
  "prepend_requests rs (FCFSRequestQueue d) = FCFSRequestQueue (fold (#) (iter_requests rs) d)"
| "prepend_requests rs (PriorityRequestQueue h) = fold add_request (iter_requests rs) (PriorityRequestQueue h)"

text \<open>\<^verbatim>\<open>list.remove\<close> and \<^verbatim>\<open>deque.remove\<close>: the first occurrence, or an exception.\<close>

fun remove_first :: "request \<Rightarrow> request list \<Rightarrow> request list result" where
  "remove_first r [] = Inl ValueError"
| "remove_first r (x # xs) = (if obj_id x = obj_id r then Inr xs else rbind (remove_first r xs) (\<lambda>xs. Inr (x # xs)))"

fun remove_request :: "request \<Rightarrow> request_queue \<Rightarrow> request_queue result" where
  "remove_request r (FCFSRequestQueue d) = rbind (remove_first r d) (\<lambda>d. Inr (FCFSRequestQueue d))"
| "remove_request r (PriorityRequestQueue h) = rbind (remove_first r h) (\<lambda>h. Inr (PriorityRequestQueue (heapify request_lt h)))"

definition not_among :: "request list \<Rightarrow> request \<Rightarrow> bool" where
  "not_among rs x \<longleftrightarrow> obj_id x \<notin> obj_id ` set rs"

fun remove_requests :: "request list \<Rightarrow> request_queue \<Rightarrow> request_queue" where
  "remove_requests rs (FCFSRequestQueue d) = FCFSRequestQueue (filter (not_among rs) d)"
| "remove_requests rs (PriorityRequestQueue h) = PriorityRequestQueue (heapify request_lt (filter (not_among rs) h))"

fun len_requests :: "request_queue \<Rightarrow> int" where
  "len_requests (FCFSRequestQueue d) = int (length d)"
| "len_requests (PriorityRequestQueue h) = int (length h)"

fun has_requests :: "request_queue \<Rightarrow> bool" where
  "has_requests (FCFSRequestQueue d) \<longleftrightarrow> length d > 0"
| "has_requests (PriorityRequestQueue h) \<longleftrightarrow> h \<noteq> []"

section \<open>The order of service\<close>

interpretation request_heap: heap_order request_lt request_key
  by unfold_locales (rule request_lt_key)

fun enqueue :: "request_queue \<Rightarrow> request \<Rightarrow> request list \<Rightarrow> request list" where
  "enqueue (FCFSRequestQueue d) r xs = xs @ [r]"
| "enqueue (PriorityRequestQueue h) r xs = insort_key request_key r xs"

fun enqueue_front :: "request_queue \<Rightarrow> request \<Rightarrow> request list \<Rightarrow> request list" where
  "enqueue_front (FCFSRequestQueue d) r xs = r # xs"
| "enqueue_front (PriorityRequestQueue h) r xs = insort_key request_key r xs"

definition objects :: "request list \<Rightarrow> bool" where
  "objects xs \<longleftrightarrow> distinct (map obj_id xs)"

fun queue_ok :: "request_queue \<Rightarrow> bool" where
  "queue_ok (FCFSRequestQueue d) \<longleftrightarrow> objects d"
| "queue_ok (PriorityRequestQueue h) \<longleftrightarrow> objects h \<and> heap_from request_key 0 h"

lemma objects_mset: "mset xs = mset ys \<Longrightarrow> objects xs \<longleftrightarrow> objects ys"
  by (metis mset_eq_imp_distinct_iff mset_map objects_def)

lemma objects_key: "objects xs \<Longrightarrow> inj_on request_key (set xs)"
  by (auto simp: objects_def distinct_map inj_on_def request_key_def)

lemma sorted_key_unique:
  assumes "mset xs = mset ys" "inj_on f (set xs)" "sorted (map f xs)" "sorted (map f ys)"
  shows "xs = ys"
proof -
  have "map f xs = map f ys" using assms(1,3,4) by (metis mset_map properties_for_sort sorted_sort_id)
  moreover have "set xs = set ys" using assms(1) by (rule mset_eq_setD)
  ultimately show ?thesis using assms(2) by (intro map_inj_on [of f xs ys]) simp_all
qed

lemma heap_order_of_service:
  assumes "objects h" "heap_from request_key 0 h" "mset xs = mset h" "sorted (map request_key xs)"
  shows "heap_iter request_lt h = xs"
proof (rule sorted_key_unique)
  have I: "mset (heap_iter request_lt h) = mset h \<and> sorted (map request_key (heap_iter request_lt h))"
    using assms(2) by (rule request_heap.heap_iter_ok)
  then show "mset (heap_iter request_lt h) = mset xs" "sorted (map request_key (heap_iter request_lt h))" using assms(3) by simp_all
  show "inj_on request_key (set (heap_iter request_lt h))" using I objects_key [OF assms(1)] by (metis mset_eq_setD)
qed (fact assms(4))

lemma service_queue:
  assumes "queue_ok q"
  shows "objects (iter_requests q)" "len_requests q = int (length (iter_requests q))"
    "has_requests q \<longleftrightarrow> iter_requests q \<noteq> []"
proof -
  have "objects (iter_requests q) \<and> len_requests q = int (length (iter_requests q)) \<and> (has_requests q \<longleftrightarrow> iter_requests q \<noteq> [])"
  proof (cases q)
    case (PriorityRequestQueue h)
    then have "mset (heap_iter request_lt h) = mset h" using assms request_heap.heap_iter_ok by auto
    then show ?thesis using assms PriorityRequestQueue objects_mset by (metis iter_requests.simps(2) len_requests.simps(2) has_requests.simps(2) mset_zero_iff queue_ok.simps(2) size_mset)
  qed (use assms in auto)
  then show "objects (iter_requests q)" "len_requests q = int (length (iter_requests q))" "has_requests q \<longleftrightarrow> iter_requests q \<noteq> []" by auto
qed

lemma service_order:
  assumes "queue_ok (PriorityRequestQueue h)"
  shows "sorted_wrt request_lt (heap_iter request_lt h)"
proof -
  have h: "objects h" "heap_from request_key 0 h" using assms by simp_all
  have I: "mset (heap_iter request_lt h) = mset h \<and> sorted (map request_key (heap_iter request_lt h))" using h(2) by (rule request_heap.heap_iter_ok)
  then have "objects (heap_iter request_lt h)" using h(1) objects_mset by blast
  then have "distinct (map request_key (heap_iter request_lt h))" using objects_key by (simp add: distinct_map objects_def)
  then have "sorted_wrt (<) (map request_key (heap_iter request_lt h))" using I by (simp add: strict_sorted_iff)
  then show ?thesis by (simp add: sorted_wrt_map request_lt_key [abs_def])
qed

lemma created_queue: "queue_ok (create_request_queue policy) \<and> iter_requests (create_request_queue policy) = []"
  by (cases policy) (simp_all add: objects_def heap_from_def heap_iter.simps heappop_def)

lemma pop_service:
  assumes "queue_ok q"
  shows "case iter_requests q of [] \<Rightarrow> pop_request q = Inl IndexError \<and> peek_request q = Inl IndexError
    | r # rs \<Rightarrow> peek_request q = Inr r \<and> (\<exists>q'. pop_request q = Inr (r, q') \<and> queue_ok q' \<and> iter_requests q' = rs)"
proof (cases q)
  case (FCFSRequestQueue d)
  then show ?thesis using assms by (cases d) (auto simp: objects_def)
next
  case (PriorityRequestQueue h)
  show ?thesis
  proof (cases "h = []")
    case True
    then show ?thesis using PriorityRequestQueue by (simp add: heap_iter.simps heappop_def)
  next
    case False
    have h: "objects h" "heap_from request_key 0 h" using assms PriorityRequestQueue by simp_all
    obtain h' where h': "heappop request_lt h = Inr (h ! 0, h')" "heap_from request_key 0 h'" "mset h = add_mset (h ! 0) (mset h')"
      by (rule request_heap.heappop_ok [OF h(2) False])
    have "objects (h ! 0 # h')" using h(1) h'(3) by (metis mset.simps(2) objects_mset)
    then have "objects h'" by (simp add: objects_def)
    moreover have "heap_iter request_lt h = h ! 0 # heap_iter request_lt h'" using h'(1) by (subst heap_iter.simps) simp
    ultimately show ?thesis using PriorityRequestQueue False h' by simp
  qed
qed

lemma add_service:
  assumes "queue_ok q" "not_among (iter_requests q) r"
  shows "queue_ok (add_request r q) \<and> iter_requests (add_request r q) = enqueue q r (iter_requests q)"
proof (cases q)
  case (FCFSRequestQueue d)
  then show ?thesis using assms by (auto simp: objects_def not_among_def)
next
  case (PriorityRequestQueue h)
  have h: "objects h" "heap_from request_key 0 h" using assms PriorityRequestQueue by simp_all
  let ?h = "heappush request_lt h r"
  have I: "mset (heap_iter request_lt h) = mset h \<and> sorted (map request_key (heap_iter request_lt h))" using h(2) by (rule request_heap.heap_iter_ok)
  have P: "heap_from request_key 0 ?h \<and> mset ?h = add_mset r (mset h)" using h(2) by (rule request_heap.heappush_ok)
  have "objects (r # h)" using assms(2) h(1) PriorityRequestQueue mset_eq_setD [of "heap_iter request_lt h" h] I by (simp add: objects_def not_among_def)
  then have o: "objects ?h" using P by (metis mset.simps(2) objects_mset)
  have "heap_iter request_lt ?h = insort_key request_key r (heap_iter request_lt h)"
    using heap_order_of_service [OF o] P I by (simp add: sorted_insort_key)
  then show ?thesis using PriorityRequestQueue o P by simp
qed

lemma prepend_service:
  assumes "queue_ok q" "not_among (iter_requests q) r"
  shows "queue_ok (prepend_request r q) \<and> iter_requests (prepend_request r q) = enqueue_front q r (iter_requests q)"
proof (cases q)
  case (FCFSRequestQueue d)
  then show ?thesis using assms by (simp add: objects_def not_among_def)
next
  case (PriorityRequestQueue h)
  then show ?thesis using add_service [OF assms] by simp
qed

lemma prepend_all_service:
  assumes "queue_ok q" "objects rs" "\<forall>r \<in> set rs. not_among (iter_requests q) r"
  shows "queue_ok (fold prepend_request rs q) \<and> iter_requests (fold prepend_request rs q) = fold (enqueue_front q) rs (iter_requests q)"
  using assms
proof (induction rs arbitrary: q)
  case (Cons r rs)
  have P: "queue_ok (prepend_request r q) \<and> iter_requests (prepend_request r q) = enqueue_front q r (iter_requests q)"
    using prepend_service Cons.prems by simp
  have s: "set (enqueue_front q r (iter_requests q)) = insert r (set (iter_requests q))" by (cases q) (simp_all add: set_insort_key)
  have "\<forall>r' \<in> set rs. not_among (iter_requests (prepend_request r q)) r'" using Cons.prems(2,3) P s by (fastforce simp: not_among_def objects_def image_iff)
  then have I: "queue_ok (fold prepend_request rs (prepend_request r q)) \<and>
    iter_requests (fold prepend_request rs (prepend_request r q)) = fold (enqueue_front (prepend_request r q)) rs (iter_requests (prepend_request r q))"
    using P Cons.prems(2) by (intro Cons.IH) (auto simp: objects_def)
  have "enqueue_front (prepend_request r q) = enqueue_front q" by (cases q) (auto simp: fun_eq_iff)
  then show ?case using I P by simp
qed simp

lemma prepend_requests_fold: "prepend_requests rs q = fold prepend_request (iter_requests rs) q"
proof -
  have "fold prepend_request xs (FCFSRequestQueue d) = FCFSRequestQueue (fold (#) xs d)" for xs d by (induction xs arbitrary: d) auto
  moreover have "fold prepend_request xs (PriorityRequestQueue h) = fold add_request xs (PriorityRequestQueue h)" for xs h
    by (induction xs arbitrary: h) auto
  ultimately show ?thesis by (cases q) auto
qed

lemma not_among_one: "not_among [r] = (\<lambda>x. obj_id x \<noteq> obj_id r)"
  by (simp add: not_among_def fun_eq_iff)

lemma not_among_Cons: "not_among (x # xs) r \<longleftrightarrow> obj_id r \<noteq> obj_id x \<and> not_among xs r"
  by (simp add: not_among_def)

lemma remove_first_ok:
  "objects xs \<Longrightarrow> remove_first r xs = (if not_among xs r then Inl ValueError else Inr (filter (not_among [r]) xs))"
proof (induction xs)
  case (Cons x xs)
  have "filter (not_among [r]) xs = xs" if "obj_id x = obj_id r" using Cons.prems that by (intro filter_True) (fastforce simp: objects_def not_among_def image_iff)
  then show ?case using Cons by (auto simp: objects_def not_among_one not_among_Cons)
qed (simp add: not_among_def)

lemma remove_requests_service:
  assumes "queue_ok q"
  shows "queue_ok (remove_requests rs q) \<and> iter_requests (remove_requests rs q) = filter (not_among rs) (iter_requests q)"
proof (cases q)
  case (FCFSRequestQueue d)
  then show ?thesis using assms by (simp add: objects_def distinct_map_filter)
next
  case (PriorityRequestQueue h)
  have h: "objects h" "heap_from request_key 0 h" using assms PriorityRequestQueue by simp_all
  let ?h = "heapify request_lt (filter (not_among rs) h)"
  have I: "mset (heap_iter request_lt h) = mset h \<and> sorted (map request_key (heap_iter request_lt h))" using h(2) by (rule request_heap.heap_iter_ok)
  have H: "heap_from request_key 0 ?h \<and> mset ?h = mset (filter (not_among rs) h)" by (rule request_heap.heapify_ok)
  have "objects (filter (not_among rs) h)" using h(1) by (simp add: objects_def distinct_map_filter)
  then have o: "objects ?h" using H objects_mset by blast
  have "heap_iter request_lt ?h = filter (not_among rs) (heap_iter request_lt h)"
    using heap_order_of_service [OF o] H I by (simp add: sorted_filter)
  then show ?thesis using PriorityRequestQueue o H by simp
qed

lemma remove_request_service:
  assumes "queue_ok q"
  shows "remove_request r q = (if not_among (iter_requests q) r then Inl ValueError else Inr (remove_requests [r] q))"
proof (cases q)
  case (FCFSRequestQueue d)
  then show ?thesis using assms remove_first_ok by simp
next
  case (PriorityRequestQueue h)
  have h: "objects h" "heap_from request_key 0 h" using assms PriorityRequestQueue by simp_all
  then have "set (heap_iter request_lt h) = set h" using request_heap.heap_iter_ok mset_eq_setD by blast
  then show ?thesis using PriorityRequestQueue remove_first_ok [OF h(1)] by (simp add: not_among_def)
qed

section \<open>The contract of the queues\<close>

definition ex_queued :: "int \<Rightarrow> int \<Rightarrow> request" where
  "ex_queued oid prio = (ex_request [1] [])\<lparr>obj_id := oid, priority := prio\<rparr>"

text \<open>C23. The order of service: both queues behave like the list of their requests in the order they are
  served.  The priority queue keeps it strictly sorted by \<^verbatim>\<open>Request.__lt__\<close>; \<^verbatim>\<open>pop_request\<close> and
  \<^verbatim>\<open>peek_request\<close> give the first request of the list and raise exactly when it is empty; adding a request puts it last or, by
  priority, where it belongs; prepending puts it first or where it belongs, and a whole queue one request after the other; removing drops
  exactly the requests named, and raises for a single request that is not queued.\<close>

theorem request_queue_order:
  assumes "queue_ok q" "queue_ok others"
  shows "(case q of FCFSRequestQueue d \<Rightarrow> True | PriorityRequestQueue h \<Rightarrow> sorted_wrt request_lt (iter_requests q)) \<and>
    len_requests q = int (length (iter_requests q)) \<and> (has_requests q \<longleftrightarrow> iter_requests q \<noteq> []) \<and>
    (case iter_requests q of [] \<Rightarrow> pop_request q = Inl IndexError \<and> peek_request q = Inl IndexError
     | x # xs \<Rightarrow> peek_request q = Inr x \<and> (\<exists>q'. pop_request q = Inr (x, q') \<and> queue_ok q' \<and> iter_requests q' = xs)) \<and>
    (not_among (iter_requests q) r \<longrightarrow>
      queue_ok (add_request r q) \<and> iter_requests (add_request r q) = enqueue q r (iter_requests q) \<and>
      queue_ok (prepend_request r q) \<and> iter_requests (prepend_request r q) = enqueue_front q r (iter_requests q)) \<and>
    ((\<forall>x \<in> set (iter_requests others). not_among (iter_requests q) x) \<longrightarrow>
      queue_ok (prepend_requests others q) \<and> iter_requests (prepend_requests others q) = fold (enqueue_front q) (iter_requests others) (iter_requests q)) \<and>
    queue_ok (remove_requests rs q) \<and> iter_requests (remove_requests rs q) = filter (not_among rs) (iter_requests q) \<and>
    remove_request r q = (if not_among (iter_requests q) r then Inl ValueError else Inr (remove_requests [r] q)) \<and>
    queue_ok (create_request_queue policy) \<and> iter_requests (create_request_queue policy) = []"
proof -
  have "sorted_wrt request_lt (heap_iter request_lt h)" if "q = PriorityRequestQueue h" for h
    using service_order assms(1) that by simp
  then have "case q of FCFSRequestQueue d \<Rightarrow> True | PriorityRequestQueue h \<Rightarrow> sorted_wrt request_lt (iter_requests q)"
    by (simp split: request_queue.split)
  then show ?thesis
    using service_queue [OF assms(1)] pop_service [OF assms(1)] add_service [OF assms(1)] prepend_service [OF assms(1)]
      prepend_all_service [OF assms(1) service_queue(1) [OF assms(2)]] remove_requests_service [OF assms(1)]
      remove_request_service [OF assms(1)] created_queue [of policy]
    unfolding prepend_requests_fold by blast
qed

theorem request_queue_order_witness:
  "iter_requests (add_request (ex_queued 2 0) (PriorityRequestQueue [ex_queued 1 5])) = [ex_queued 2 0, ex_queued 1 5] \<and>
   iter_requests (prepend_requests (FCFSRequestQueue [ex_queued 2 7]) (PriorityRequestQueue [ex_queued 1 5])) = [ex_queued 1 5, ex_queued 2 7] \<and>
   remove_request (ex_queued 2 0) (PriorityRequestQueue [ex_queued 1 5]) = Inl ValueError"
proof -
  let ?q = "PriorityRequestQueue [ex_queued 1 5]" and ?o = "FCFSRequestQueue [ex_queued 2 7]"
  have ok: "queue_ok ?q" "queue_ok ?o" by (simp_all add: objects_def heap_from_def)
  have i: "iter_requests ?q = [ex_queued 1 5]" by (simp add: heap_iter.simps heappop_def)
  have n: "not_among (iter_requests ?q) (ex_queued 2 0)" "\<forall>x \<in> set (iter_requests ?o). not_among (iter_requests ?q) x"
    unfolding i by (simp_all add: not_among_def ex_queued_def)
  show ?thesis using request_queue_order [OF ok, of "ex_queued 2 0"] n unfolding i by (simp add: request_key_def ex_queued_def ex_request_def)
qed

end
